(* ===== verification/Quic_Prelude.thy ===== *)
theory Quic_Prelude
  imports Main
begin

text \<open>
  Shared vocabulary of the development.

  \<^item> The outcome of a fallible Rust call: \<open>Ok v\<close>, \<open>Err e\<close> (the \<open>Err\<close> of a
    \<open>Result\<close>) or \<open>Panic\<close> (an arithmetic overflow in a checked build, an out-of-range
    slice or index, \<open>unwrap\<close> of \<open>None\<close>). A call with side effects is modelled by a
    function that returns the new state beside the outcome, because Rust keeps what was
    written before an early return.
  \<^item> Unsigned 64-bit integers (\<open>u64\<close>, and \<open>usize\<close> on the 64-bit targets) as
    \<open>nat\<close> with the checked and saturating operations written out.
  \<^item> Generic lemmas on lists used by several components.
\<close>

named_theorems res_simps \<open>unfolding rules for the outcome monad and checked arithmetic\<close>

section \<open>Outcomes\<close>

datatype ('e, 'a) res = Ok 'a | Err 'e | Panic

fun rbind :: "('e, 'a) res \<Rightarrow> ('a \<Rightarrow> ('e, 'b) res) \<Rightarrow> ('e, 'b) res" where
  "rbind (Ok v) f = f v"
| "rbind (Err e) f = Err e"
| "rbind Panic f = Panic"

fun is_ok :: "('e, 'a) res \<Rightarrow> bool" where
  "is_ok (Ok v) = True"
| "is_ok (Err e) = False"
| "is_ok Panic = False"

text \<open>
  The operator \<open>?\<close> in a method with side effects: an error or a panic of the callee
  leaves the method with the state reached so far.
\<close>

fun attempt :: "'s \<Rightarrow> ('e, 'a) res \<Rightarrow> ('a \<Rightarrow> 's \<times> ('e, 'b) res) \<Rightarrow> 's \<times> ('e, 'b) res" where
  "attempt s (Ok v) f = f v"
| "attempt s (Err e) f = (s, Err e)"
| "attempt s Panic f = (s, Panic)"

lemma attempt_split:
  "P (attempt s m f) \<longleftrightarrow>
    (\<forall>v. m = Ok v \<longrightarrow> P (f v)) \<and> (\<forall>e. m = Err e \<longrightarrow> P (s, Err e)) \<and> (m = Panic \<longrightarrow> P (s, Panic))"
  by (cases m) auto

lemma attempt_split_asm:
  "P (attempt s m f) \<longleftrightarrow>
    \<not> ((\<exists>v. m = Ok v \<and> \<not> P (f v)) \<or> (\<exists>e. m = Err e \<and> \<not> P (s, Err e)) \<or> m = Panic \<and> \<not> P (s, Panic))"
  by (cases m) auto

lemmas attempt_splits = attempt_split attempt_split_asm

lemma attempt_Ok: "attempt s m f = (s', Ok w) \<longleftrightarrow> (\<exists>v. m = Ok v \<and> f v = (s', Ok w))"
  by (cases m) auto

text \<open>\<open>Option::ok_or\<close>.\<close>

definition ok_or :: "'a option \<Rightarrow> 'e \<Rightarrow> ('e, 'a) res" where
  "ok_or x e = (case x of None \<Rightarrow> Err e | Some v \<Rightarrow> Ok v)"

lemma ok_or_simps [simp]: "ok_or None e = Err e" "ok_or (Some v) e = Ok v"
  by (simp_all add: ok_or_def)

lemma rbind_eq_Ok [simp]: "rbind m f = Ok v \<longleftrightarrow> (\<exists>x. m = Ok x \<and> f x = Ok v)"
  by (cases m) auto

lemma rbind_cong [fundef_cong]:
  "m = m' \<Longrightarrow> (\<And>x. m' = Ok x \<Longrightarrow> f x = g x) \<Longrightarrow> rbind m f = rbind m' g"
  by (cases m') auto

lemma rbind_eq_Panic: "rbind m f = Panic \<longleftrightarrow> m = Panic \<or> (\<exists>x. m = Ok x \<and> f x = Panic)"
  by (cases m) auto

lemma rbind_assoc: "rbind (rbind m f) g = rbind m (\<lambda>x. rbind (f x) g)"
  by (cases m) auto

lemma is_ok_iff: "is_ok m \<longleftrightarrow> (\<exists>v. m = Ok v)"
  by (cases m) auto

section \<open>Unsigned 64-bit arithmetic\<close>

definition u64_max :: nat where
  "u64_max = 18446744073709551615"

text \<open>\<open>usize\<close> has 64 bits on the supported targets.\<close>

definition usize_max :: nat where
  "usize_max = 18446744073709551615"

definition add64 :: "nat \<Rightarrow> nat \<Rightarrow> ('e, nat) res" where
  [res_simps]: "add64 a b = (if a + b \<le> u64_max then Ok (a + b) else Panic)"

definition sub64 :: "nat \<Rightarrow> nat \<Rightarrow> ('e, nat) res" where
  [res_simps]: "sub64 a b = (if b \<le> a then Ok (a - b) else Panic)"

definition mul64 :: "nat \<Rightarrow> nat \<Rightarrow> ('e, nat) res" where
  [res_simps]: "mul64 a b = (if a * b \<le> u64_max then Ok (a * b) else Panic)"

text \<open>\<open>saturating_add\<close>; \<open>saturating_sub\<close> is subtraction on \<open>nat\<close>.\<close>

definition sat_add64 :: "nat \<Rightarrow> nat \<Rightarrow> nat" where
  "sat_add64 a b = min (a + b) u64_max"

lemma sat_add64_exact: "a + b \<le> u64_max \<Longrightarrow> sat_add64 a b = a + b"
  by (simp add: sat_add64_def)

lemma sat_add64_ge: "a \<le> u64_max \<Longrightarrow> a \<le> sat_add64 a b"
  by (simp add: sat_add64_def)

lemma sat_add64_le: "sat_add64 a b \<le> a + b" "sat_add64 a b \<le> u64_max"
  by (simp_all add: sat_add64_def)

lemma add64_Ok [simp]: "add64 a b = Ok c \<longleftrightarrow> c = a + b \<and> a + b \<le> u64_max"
  by (auto simp: add64_def)

lemma sub64_Ok [simp]: "sub64 a b = Ok c \<longleftrightarrow> c = a - b \<and> b \<le> a"
  by (auto simp: sub64_def)

lemma mul64_Ok [simp]: "mul64 a b = Ok c \<longleftrightarrow> c = a * b \<and> a * b \<le> u64_max"
  by (auto simp: mul64_def)

section \<open>Lists\<close>

lemma filter_disj_False: "(\<forall>x \<in> set xs. \<not> P x) \<Longrightarrow> filter P xs = []"
  by (induction xs) auto

lemma last_filter_eq:
  assumes "sorted_wrt R xs" and "filter P xs \<noteq> []" and "y \<in> set xs" and "P y"
    and "y \<noteq> last (filter P xs)"
  shows "R y (last (filter P xs))"
proof -
  let ?ys = "filter P xs"
  have s: "sorted_wrt R ?ys" using assms(1) by (rule sorted_wrt_filter)
  have split: "?ys = butlast ?ys @ [last ?ys]" using assms(2) by simp
  have "y \<in> set ?ys" using assms(3,4) by simp
  then have "y \<in> set (butlast ?ys)" using split assms(5)
    by (metis Un_iff empty_iff insert_iff list.set(1) list.set(2) set_append)
  moreover have "sorted_wrt R (butlast ?ys @ [last ?ys])" using s split by simp
  ultimately show ?thesis by (auto simp: sorted_wrt_append)
qed

text \<open>Two lists sorted by an asymmetric relation are determined by their elements.\<close>

lemma sorted_wrt_unique:
  assumes "asymp_on (set xs \<union> set ys) R"
    and "sorted_wrt R xs" and "sorted_wrt R ys" and "set xs = set ys"
  shows "xs = ys"
  using assms
proof (induction xs arbitrary: ys)
  case Nil
  then show ?case by simp
next
  case (Cons x xs)
  have asym: "R u v \<Longrightarrow> \<not> R v u" if "u \<in> set (x # xs)" "v \<in> set (x # xs)" for u v
    using Cons.prems(1) that by (auto simp: asymp_on_def)
  from Cons.prems(4) obtain y zs where ys: "ys = y # zs" by (cases ys) auto
  have "x = y"
  proof (rule ccontr)
    assume "x \<noteq> y"
    then have "x \<in> set zs" "y \<in> set xs" using Cons.prems(4) ys by auto
    then have "R x y" "R y x" using Cons.prems(2,3) ys by auto
    then show False using asym[of x y] \<open>y \<in> set xs\<close> by simp
  qed
  moreover have "x \<notin> set xs" "y \<notin> set zs"
    using Cons.prems(2,3) ys asym[of x x] asym[of y y] \<open>x = y\<close> by auto
  ultimately have "set xs = set zs" using Cons.prems(4) ys by auto
  moreover have "asymp_on (set xs \<union> set zs) R"
    using Cons.prems(1) ys by (auto simp: asymp_on_def)
  ultimately have "xs = zs" using Cons.IH Cons.prems(2,3) ys by simp
  then show ?case using ys \<open>x = y\<close> by simp
qed

end
