(* ===== verification/Btree_Map.thy ===== *)
theory Btree_Map
  imports Quic_Prelude
begin

text \<open>
  \<open>std::collections::BTreeMap\<close> as far as the code uses it: the ascending list of its
  entries. The operations are \<open>get\<close>, \<open>insert\<close>, \<open>remove\<close>, the three range
  queries \<open>range(..=k)\<close>, \<open>range(k..)\<close> and \<open>range((Excluded(k), Unbounded))\<close>
  with the first or last entry of them, and \<open>pop_first\<close>. The locale
  \<open>ordered_map\<close> states the contract the clients use; it is interpreted on the list
  representation. The same lists stand for the hash maps of the stream manager, where
  the order of iteration is unspecified in Rust and never matters below.
\<close>

type_synonym ('k, 'v) bmap = "('k \<times> 'v) list"

named_theorems bm_set \<open>entries of a map after an operation, as a set\<close>

definition bm_sorted :: "('k::linorder, 'v) bmap \<Rightarrow> bool" where
  "bm_sorted m \<longleftrightarrow> sorted_wrt (<) (map fst m)"

definition bm_get :: "('k, 'v) bmap \<Rightarrow> 'k \<Rightarrow> 'v option" where
  "bm_get m k = map_of m k"

fun bm_insert :: "'k::linorder \<Rightarrow> 'v \<Rightarrow> ('k, 'v) bmap \<Rightarrow> ('k, 'v) bmap" where
  "bm_insert k v [] = [(k, v)]"
| "bm_insert k v ((k', v') # m) =
     (if k < k' then (k, v) # (k', v') # m
      else if k = k' then (k, v) # m
      else (k', v') # bm_insert k v m)"

definition bm_remove :: "'k \<Rightarrow> ('k, 'v) bmap \<Rightarrow> ('k, 'v) bmap" where
  "bm_remove k m = filter (\<lambda>e. fst e \<noteq> k) m"

definition bm_upto :: "'k::linorder \<Rightarrow> ('k, 'v) bmap \<Rightarrow> ('k, 'v) bmap" where
  "bm_upto k m = filter (\<lambda>e. fst e \<le> k) m"

definition bm_from :: "'k::linorder \<Rightarrow> ('k, 'v) bmap \<Rightarrow> ('k, 'v) bmap" where
  "bm_from k m = filter (\<lambda>e. k \<le> fst e) m"

definition bm_after :: "'k::linorder \<Rightarrow> ('k, 'v) bmap \<Rightarrow> ('k, 'v) bmap" where
  "bm_after k m = filter (\<lambda>e. k < fst e) m"

definition bm_first :: "('k, 'v) bmap \<Rightarrow> ('k \<times> 'v) option" where
  "bm_first m = (case m of [] \<Rightarrow> None | e # _ \<Rightarrow> Some e)"

definition bm_last :: "('k, 'v) bmap \<Rightarrow> ('k \<times> 'v) option" where
  "bm_last m = (if m = [] then None else Some (last m))"

definition bm_pop_first :: "('k, 'v) bmap \<Rightarrow> ('k, 'v) bmap" where
  "bm_pop_first m = tl m"

section \<open>Order and distinctness\<close>

lemma bm_sorted_Nil [simp]: "bm_sorted []"
  by (simp add: bm_sorted_def)

lemma bm_sorted_Cons: "bm_sorted (e # m) \<longleftrightarrow> (\<forall>e' \<in> set m. fst e < fst e') \<and> bm_sorted m"
  by (auto simp: bm_sorted_def)

lemma bm_sorted_wrt: "bm_sorted m \<longleftrightarrow> sorted_wrt (\<lambda>e e'. fst e < fst e') m"
  by (simp add: bm_sorted_def sorted_wrt_map)

lemma bm_sorted_filter [simp]: "bm_sorted m \<Longrightarrow> bm_sorted (filter P m)"
  by (simp add: bm_sorted_wrt sorted_wrt_filter)

lemma bm_sorted_tl [simp]: "bm_sorted m \<Longrightarrow> bm_sorted (tl m)"
  by (cases m) (auto simp: bm_sorted_Cons)

lemma bm_sorted_distinct: "bm_sorted m \<Longrightarrow> distinct (map fst m)"
  by (simp add: bm_sorted_def strict_sorted_iff)

lemma bm_key_unique:
  "bm_sorted m \<Longrightarrow> (k, v) \<in> set m \<Longrightarrow> (k, v') \<in> set m \<Longrightarrow> v = v'"
  by (meson bm_sorted_distinct eq_key_imp_eq_value)

lemma bm_entry_unique:
  "bm_sorted m \<Longrightarrow> e \<in> set m \<Longrightarrow> e' \<in> set m \<Longrightarrow> fst e = fst e' \<Longrightarrow> e = e'"
  by (metis bm_key_unique prod.collapse)

lemma bm_get_iff: "bm_sorted m \<Longrightarrow> bm_get m k = Some v \<longleftrightarrow> (k, v) \<in> set m"
  by (simp add: bm_get_def bm_sorted_distinct)

lemma bm_get_None: "bm_get m k = None \<longleftrightarrow> (\<forall>e \<in> set m. fst e \<noteq> k)"
  by (auto simp: bm_get_def map_of_eq_None_iff)

section \<open>Insertion and removal\<close>

lemma set_bm_insert [bm_set]:
  "bm_sorted m \<Longrightarrow> set (bm_insert k v m) = insert (k, v) {e \<in> set m. fst e \<noteq> k}"
  by (induction k v m rule: bm_insert.induct) (auto simp: bm_sorted_Cons)

lemma bm_insert_sorted [simp]: "bm_sorted m \<Longrightarrow> bm_sorted (bm_insert k v m)"
proof (induction k v m rule: bm_insert.induct)
  case (2 k v k' v' m)
  then show ?case by (auto simp: bm_sorted_Cons set_bm_insert)
qed (simp add: bm_sorted_Cons)

lemma set_bm_remove [bm_set]: "set (bm_remove k m) = {e \<in> set m. fst e \<noteq> k}"
  by (auto simp: bm_remove_def)

lemma bm_remove_sorted [simp]: "bm_sorted m \<Longrightarrow> bm_sorted (bm_remove k m)"
  by (simp add: bm_remove_def)

lemma bm_pop_first_sorted [simp]: "bm_sorted m \<Longrightarrow> bm_sorted (bm_pop_first m)"
  by (simp add: bm_pop_first_def)

lemma length_bm_remove_less:
  "e \<in> set m \<Longrightarrow> fst e = k \<Longrightarrow> length (bm_remove k m) < length m"
  unfolding bm_remove_def by (rule length_filter_less) auto

lemma length_bm_remove_le: "length (bm_remove k m) \<le> length m"
  by (simp add: bm_remove_def)

lemma bm_get_insert: "bm_get (bm_insert k v m) k' = (if k' = k then Some v else bm_get m k')"
  by (induction k v m rule: bm_insert.induct) (auto simp: bm_get_def)

lemma bm_get_remove: "bm_get (bm_remove k m) k' = (if k' = k then None else bm_get m k')"
  unfolding bm_get_def bm_remove_def by (induction m) auto

lemma bm_get_empty: "bm_get [] k = None"
  by (simp add: bm_get_def)

lemma bm_insert_not_Nil [simp]: "bm_insert k v m \<noteq> []"
  by (cases "(k, v, m)" rule: bm_insert.cases) auto

lemma length_bm_insert: "length (bm_insert k v m) \<le> Suc (length m)"
  by (induction k v m rule: bm_insert.induct) auto

section \<open>First and last entries of a range\<close>

lemma bm_first_None [simp]: "bm_first m = None \<longleftrightarrow> m = []"
  by (simp add: bm_first_def split: list.splits)

lemma bm_first_SomeD:
  assumes "bm_first m = Some e"
  shows "e \<in> set m"
  using assms by (cases m) (auto simp: bm_first_def)

lemma bm_first_filter_Some:
  assumes "bm_sorted m"
  shows "bm_first (filter P m) = Some e \<longleftrightarrow>
    e \<in> set m \<and> P e \<and> (\<forall>e' \<in> set m. P e' \<longrightarrow> fst e \<le> fst e')"
  using assms
proof (induction m)
  case Nil
  then show ?case by (simp add: bm_first_def)
next
  case (Cons x m)
  then have IH: "bm_first (filter P m) = Some e \<longleftrightarrow>
      e \<in> set m \<and> P e \<and> (\<forall>e' \<in> set m. P e' \<longrightarrow> fst e \<le> fst e')"
    and lt: "\<forall>e' \<in> set m. fst x < fst e'" by (auto simp: bm_sorted_Cons)
  show ?case
  proof (cases "P x")
    case True
    then show ?thesis using lt by (force simp: bm_first_def)
  next
    case False
    then show ?thesis using IH by auto
  qed
qed

lemma bm_last_filter_Some:
  assumes "bm_sorted m"
  shows "bm_last (filter P m) = Some e \<longleftrightarrow>
    e \<in> set m \<and> P e \<and> (\<forall>e' \<in> set m. P e' \<longrightarrow> fst e' \<le> fst e)" (is "?L \<longleftrightarrow> ?R")
proof
  assume ?L
  then have ne: "filter P m \<noteq> []" and e: "e = last (filter P m)"
    by (auto simp: bm_last_def split: if_splits)
  have "e \<in> set (filter P m)" unfolding e by (rule last_in_set[OF ne])
  moreover have "fst e' \<le> fst e" if "e' \<in> set m" "P e'" for e'
    using last_filter_eq[OF assms[unfolded bm_sorted_wrt] ne that] e by fastforce
  ultimately show ?R by auto
next
  assume R: ?R
  then have ne: "filter P m \<noteq> []" by (auto simp: filter_empty_conv)
  let ?l = "last (filter P m)"
  have "?l \<in> set (filter P m)" using ne by (rule last_in_set)
  then have "fst ?l \<le> fst e" using R by auto
  moreover have "e = ?l \<or> fst e < fst ?l"
    using last_filter_eq[OF assms[unfolded bm_sorted_wrt] ne, of e] R by auto
  ultimately show ?L using ne by (auto simp: bm_last_def)
qed

lemma bm_last_None [simp]: "bm_last m = None \<longleftrightarrow> m = []"
  by (simp add: bm_last_def)

lemma bm_from_empty: "bm_from k m = [] \<longleftrightarrow> (\<forall>e \<in> set m. fst e < k)"
  by (auto simp: bm_from_def filter_empty_conv not_le)

lemma bm_upto_empty: "bm_upto k m = [] \<longleftrightarrow> (\<forall>e \<in> set m. k < fst e)"
  by (auto simp: bm_upto_def filter_empty_conv not_le)

lemma bm_after_empty: "bm_after k m = [] \<longleftrightarrow> (\<forall>e \<in> set m. fst e \<le> k)"
  by (auto simp: bm_after_def filter_empty_conv not_less)

section \<open>Totals over the values\<close>

definition bm_sum :: "('v \<Rightarrow> nat) \<Rightarrow> ('k, 'v) bmap \<Rightarrow> nat" where
  "bm_sum f m = sum_list (map (\<lambda>e. f (snd e)) m)"

lemma bm_sum_Nil [simp]: "bm_sum f [] = 0"
  by (simp add: bm_sum_def)

lemma bm_sum_insert:
  "bm_sorted m \<Longrightarrow>
    bm_sum f (bm_insert k v m) + (case bm_get m k of None \<Rightarrow> 0 | Some v0 \<Rightarrow> f v0) = bm_sum f m + f v"
proof (induction k v m rule: bm_insert.induct)
  case (2 k v k' v' m)
  have "bm_get m k = None" if "k < k'"
    using that 2(2) by (force simp: bm_get_None bm_sorted_Cons)
  then show ?case using 2 by (auto simp: bm_sum_def bm_get_def bm_sorted_Cons)
qed (simp add: bm_sum_def bm_get_def)

lemma bm_sum_remove:
  "bm_sorted m \<Longrightarrow>
    bm_sum f (bm_remove k m) + (case bm_get m k of None \<Rightarrow> 0 | Some v0 \<Rightarrow> f v0) = bm_sum f m"
proof (induction m)
  case (Cons e m)
  have "bm_get m (fst e) = None" using Cons.prems by (force simp: bm_get_None bm_sorted_Cons)
  then show ?case using Cons by (cases e) (auto simp: bm_sum_def bm_get_def bm_remove_def bm_sorted_Cons)
qed (simp add: bm_sum_def bm_get_def bm_remove_def)

lemma bm_sum_member: "bm_get m k = Some v \<Longrightarrow> f v \<le> bm_sum f m"
  unfolding bm_get_def bm_sum_def by (induction m) (auto split: if_splits)

section \<open>The contract of an ordered map\<close>

locale ordered_map =
  fixes empty :: 'm
    and get :: "'m \<Rightarrow> 'k::linorder \<Rightarrow> 'v option"
    and put :: "'k \<Rightarrow> 'v \<Rightarrow> 'm \<Rightarrow> 'm"
    and del :: "'k \<Rightarrow> 'm \<Rightarrow> 'm"
    and entries :: "'m \<Rightarrow> ('k \<times> 'v) list"
    and invar :: "'m \<Rightarrow> bool"
  assumes invar_empty: "invar empty"
    and invar_put: "invar m \<Longrightarrow> invar (put k v m)"
    and invar_del: "invar m \<Longrightarrow> invar (del k m)"
    and get_empty: "get empty k = None"
    and get_put: "invar m \<Longrightarrow> get (put k v m) k' = (if k' = k then Some v else get m k')"
    and get_del: "invar m \<Longrightarrow> get (del k m) k' = (if k' = k then None else get m k')"
    and entries_sorted: "invar m \<Longrightarrow> sorted_wrt (<) (map fst (entries m))"
    and entries_get: "invar m \<Longrightarrow> (k, v) \<in> set (entries m) \<longleftrightarrow> get m k = Some v"
begin

text \<open>A map is determined by its lookups: the entries are a canonical form.\<close>

lemma entries_ext:
  assumes "invar m" "invar m'" "\<And>k. get m k = get m' k"
  shows "entries m = entries m'"
proof (rule sorted_wrt_unique)
  show "asymp_on (set (entries m) \<union> set (entries m')) (\<lambda>e e'. fst e < fst e')"
    by (auto simp: asymp_on_def)
  show "sorted_wrt (\<lambda>e e'. fst e < fst e') (entries m)"
    and "sorted_wrt (\<lambda>e e'. fst e < fst e') (entries m')"
    using entries_sorted assms(1,2) by (simp_all add: sorted_wrt_map)
  have "(k, v) \<in> set (entries m) \<longleftrightarrow> (k, v) \<in> set (entries m')" for k v
    using assms by (simp add: entries_get)
  then show "set (entries m) = set (entries m')" by auto
qed

lemma put_put:
  "invar m \<Longrightarrow> entries (put k v (put k v' m)) = entries (put k v m)"
  by (rule entries_ext) (simp_all add: invar_put get_put)

lemma put_commute:
  "invar m \<Longrightarrow> k \<noteq> k' \<Longrightarrow> entries (put k v (put k' v' m)) = entries (put k' v' (put k v m))"
  by (rule entries_ext) (simp_all add: invar_put get_put)

lemma del_put_same:
  "invar m \<Longrightarrow> entries (del k (put k v m)) = entries (del k m)"
  by (rule entries_ext) (simp_all add: invar_put invar_del get_put get_del)

lemma del_fresh: "invar m \<Longrightarrow> get m k = None \<Longrightarrow> entries (del k m) = entries m"
  by (rule entries_ext) (simp_all add: invar_del get_del)

lemma put_same: "invar m \<Longrightarrow> get m k = Some v \<Longrightarrow> entries (put k v m) = entries m"
  by (rule entries_ext) (simp_all add: invar_put get_put)

end

interpretation bm: ordered_map "[]" bm_get bm_insert bm_remove "\<lambda>m. m" bm_sorted
  by unfold_locales
    (simp_all add: bm_get_insert bm_get_remove bm_get_empty bm_get_iff flip: bm_sorted_def)

lemmas bm_spec = bm.get_empty bm.get_put bm.get_del

end
