(* ===== verification/Quic_Error.thy ===== *)
theory Quic_Error
  imports Quic_Prelude "HOL-Library.Word"
begin

text \<open>
  The transport error type of \<open>src/src/error.rs\<close>: the enum \<open>Error\<close> with its two
  encodings, \<open>to_wire\<close> (the code carried by CONNECTION_CLOSE) and \<open>to_errno\<close>
  (the number handed to C callers).
\<close>

datatype Error =
    NoError
  | InternalError
  | ConnectionRefused
  | FlowControlError
  | StreamLimitError
  | StreamStateError
  | FinalSizeError
  | FrameEncodingError
  | TransportParameterError
  | ConnectionIdLimitError
  | ProtocolViolation
  | InvalidToken
  | ApplicationError
  | CryptoBufferExceeded
  | KeyUpdateError
  | AeadLimitReached
  | NoViablePath
  | CryptoError "8 word"
  | MultipathProtocolViolation
  | Done
  | BufferTooShort
  | UnknownVersion
  | InvalidPacket
  | InvalidState string
  | InvalidOperation string
  | InvalidConfig string
  | ExpiredToken
  | CryptoFail
  | TlsFail string
  | StreamStopped nat
  | StreamReset nat
  | IoError string

type_synonym 'a qres = "(Error, 'a) res"

fun to_wire :: "Error \<Rightarrow> nat" where
  "to_wire NoError = 0x0"
| "to_wire InternalError = 0x1"
| "to_wire ConnectionRefused = 0x2"
| "to_wire FlowControlError = 0x3"
| "to_wire StreamLimitError = 0x4"
| "to_wire StreamStateError = 0x5"
| "to_wire FinalSizeError = 0x6"
| "to_wire FrameEncodingError = 0x7"
| "to_wire TransportParameterError = 0x8"
| "to_wire ConnectionIdLimitError = 0x9"
| "to_wire ProtocolViolation = 0x0a"
| "to_wire InvalidToken = 0x0b"
| "to_wire ApplicationError = 0x0c"
| "to_wire CryptoBufferExceeded = 0x0d"
| "to_wire KeyUpdateError = 0x0e"
| "to_wire AeadLimitReached = 0x0f"
| "to_wire NoViablePath = 0x10"
| "to_wire (CryptoError v) = unat v"
| "to_wire MultipathProtocolViolation = 0x1001d76d3ded42f3"
| "to_wire _ = 0x0"

fun to_errno :: "Error \<Rightarrow> int" where
  "to_errno NoError = 0"
| "to_errno InternalError = -1"
| "to_errno ConnectionRefused = -2"
| "to_errno FlowControlError = -3"
| "to_errno StreamLimitError = -4"
| "to_errno StreamStateError = -5"
| "to_errno FinalSizeError = -6"
| "to_errno FrameEncodingError = -7"
| "to_errno TransportParameterError = -8"
| "to_errno ConnectionIdLimitError = -9"
| "to_errno ProtocolViolation = -10"
| "to_errno InvalidToken = -11"
| "to_errno ApplicationError = -12"
| "to_errno CryptoBufferExceeded = -13"
| "to_errno KeyUpdateError = -14"
| "to_errno AeadLimitReached = -15"
| "to_errno NoViablePath = -16"
| "to_errno (CryptoError _) = -17"
| "to_errno MultipathProtocolViolation = -18"
| "to_errno Done = -100"
| "to_errno BufferTooShort = -101"
| "to_errno UnknownVersion = -102"
| "to_errno InvalidPacket = -103"
| "to_errno (InvalidState _) = -104"
| "to_errno (InvalidOperation _) = -105"
| "to_errno (InvalidConfig _) = -106"
| "to_errno ExpiredToken = -107"
| "to_errno CryptoFail = -108"
| "to_errno (TlsFail _) = -109"
| "to_errno (StreamStopped _) = -110"
| "to_errno (StreamReset _) = -111"
| "to_errno (IoError _) = -112"

text \<open>
  The variant of an error, without the data it carries: \<open>to_errno\<close> separates variants
  and nothing else.
\<close>

fun erase_payload :: "Error \<Rightarrow> Error" where
  "erase_payload (CryptoError _) = CryptoError 0"
| "erase_payload (InvalidState _) = InvalidState []"
| "erase_payload (InvalidOperation _) = InvalidOperation []"
| "erase_payload (InvalidConfig _) = InvalidConfig []"
| "erase_payload (TlsFail _) = TlsFail []"
| "erase_payload (StreamStopped _) = StreamStopped 0"
| "erase_payload (StreamReset _) = StreamReset 0"
| "erase_payload (IoError _) = IoError []"
| "erase_payload e = e"

text \<open>
  A decoder for \<open>to_errno\<close>, used only to show that the numbering loses no variant.
\<close>

definition errno_variants :: "(int \<times> Error) list" where
  "errno_variants =
     [(0, NoError), (-1, InternalError), (-2, ConnectionRefused), (-3, FlowControlError),
      (-4, StreamLimitError), (-5, StreamStateError), (-6, FinalSizeError),
      (-7, FrameEncodingError), (-8, TransportParameterError), (-9, ConnectionIdLimitError),
      (-10, ProtocolViolation), (-11, InvalidToken), (-12, ApplicationError),
      (-13, CryptoBufferExceeded), (-14, KeyUpdateError), (-15, AeadLimitReached),
      (-16, NoViablePath), (-17, CryptoError 0), (-18, MultipathProtocolViolation),
      (-100, Done), (-101, BufferTooShort), (-102, UnknownVersion), (-103, InvalidPacket),
      (-104, InvalidState []), (-105, InvalidOperation []), (-106, InvalidConfig []),
      (-107, ExpiredToken), (-108, CryptoFail), (-109, TlsFail []), (-110, StreamStopped 0),
      (-111, StreamReset 0), (-112, IoError [])]"

lemma errno_decodes: "map_of errno_variants (to_errno e) = Some (erase_payload e)"
  by (cases e) (simp_all add: errno_variants_def)

lemma to_errno_erase: "to_errno (erase_payload e) = to_errno e"
  by (cases e) simp_all

lemma to_errno_inj: "to_errno e = to_errno e' \<longleftrightarrow> erase_payload e = erase_payload e'"
proof
  assume "to_errno e = to_errno e'"
  then show "erase_payload e = erase_payload e'"
    using errno_decodes[of e] errno_decodes[of e'] by simp
next
  assume "erase_payload e = erase_payload e'"
  then show "to_errno e = to_errno e'"
    by (metis to_errno_erase)
qed

lemma to_errno_nonpos: "to_errno e \<le> 0"
  by (cases e) simp_all

text \<open>
  The wire code of a handshake failure is the TLS alert itself: the alert values coincide
  with the codes of the other transport errors.
\<close>

lemma to_wire_crypto_collision:
  "to_wire (CryptoError 0x0a) = to_wire ProtocolViolation"
  by simp

end
