(* ===== verification/Flow_Control.thy ===== *)
theory Flow_Control
  imports Quic_Error
begin

text \<open>
  Receive-side flow control with window auto-tuning, \<open>src/src/connection/flowcontrol.rs\<close>.
  The same structure serves a stream and the whole connection. Instants and durations are
  natural numbers of nanoseconds; the difference of two instants saturates at zero, as
  \<open>Instant\<close> subtraction does. Every addition, subtraction and multiplication on
  \<open>u64\<close> is checked.
\<close>

type_synonym instant = nat
type_synonym duration = nat

record flow_control =
  fc_read_off :: nat
  fc_recv_off :: nat
  fc_max_data :: nat
  fc_window :: nat
  fc_max_window :: nat
  fc_last_updated :: "instant option"

definition fc_new :: "nat \<Rightarrow> nat \<Rightarrow> flow_control" where
  "fc_new window max_window =
     \<lparr>fc_read_off = 0, fc_recv_off = 0, fc_max_data = window, fc_window = window,
      fc_max_window = max_window, fc_last_updated = None\<rparr>"

definition fc_increase_recv_off :: "flow_control \<Rightarrow> nat \<Rightarrow> flow_control qres" where
  "fc_increase_recv_off fc delta =
     rbind (add64 (fc_recv_off fc) delta) (\<lambda>v. Ok (fc\<lparr>fc_recv_off := v\<rparr>))"

definition fc_increase_read_off :: "flow_control \<Rightarrow> nat \<Rightarrow> flow_control qres" where
  "fc_increase_read_off fc delta =
     rbind (add64 (fc_read_off fc) delta) (\<lambda>v. Ok (fc\<lparr>fc_read_off := v\<rparr>))"

definition fc_should_send_max_data :: "flow_control \<Rightarrow> bool qres" where
  "fc_should_send_max_data fc =
     rbind (sub64 (fc_max_data fc) (fc_read_off fc)) (\<lambda>avail.
     rbind (mul64 avail 2) (\<lambda>twice. Ok (twice < fc_window fc)))"

definition fc_max_data_next :: "flow_control \<Rightarrow> nat qres" where
  "fc_max_data_next fc = add64 (fc_read_off fc) (fc_window fc)"

definition fc_update_max_data :: "flow_control \<Rightarrow> instant \<Rightarrow> flow_control qres" where
  "fc_update_max_data fc now =
     rbind (fc_max_data_next fc) (\<lambda>m. Ok (fc\<lparr>fc_max_data := m, fc_last_updated := Some now\<rparr>))"

definition fc_autotune_window :: "flow_control \<Rightarrow> instant \<Rightarrow> duration \<Rightarrow> flow_control qres" where
  "fc_autotune_window fc now srtt =
     (case fc_last_updated fc of
        None \<Rightarrow> Ok fc
      | Some last_updated \<Rightarrow>
          if now - last_updated < srtt * 2 then
            rbind (mul64 (fc_window fc) 2) (\<lambda>w. Ok (fc\<lparr>fc_window := min w (fc_max_window fc)\<rparr>))
          else Ok fc)"

definition fc_ensure_window_lower_bound :: "flow_control \<Rightarrow> nat \<Rightarrow> flow_control" where
  "fc_ensure_window_lower_bound fc min_window = fc\<lparr>fc_window := max (fc_window fc) min_window\<rparr>"

lemmas fc_defs = fc_new_def fc_increase_recv_off_def fc_increase_read_off_def
  fc_should_send_max_data_def fc_max_data_next_def fc_update_max_data_def
  fc_autotune_window_def fc_ensure_window_lower_bound_def

section \<open>Invariant\<close>

text \<open>
  Consumed data was received, received data was permitted, and the advertised limit never
  runs ahead of the consumed data by more than the window. The bounds are those of the
  protocol: offsets and windows fit the 62 bits of a QUIC integer.
\<close>

definition fc_inv :: "flow_control \<Rightarrow> bool" where
  "fc_inv fc \<longleftrightarrow> fc_read_off fc \<le> fc_recv_off fc \<and> fc_recv_off fc \<le> fc_max_data fc \<and>
     fc_max_data fc \<le> fc_read_off fc + fc_window fc \<and>
     fc_window fc \<le> fc_max_window fc \<and> fc_max_window fc < 2 ^ 62 \<and> fc_max_data fc < 2 ^ 62"

lemma fc_inv_new: "window \<le> max_window \<Longrightarrow> max_window < 2 ^ 62 \<Longrightarrow> fc_inv (fc_new window max_window)"
  by (simp add: fc_inv_def fc_new_def)

lemma fc_should_send_ok:
  "fc_inv fc \<Longrightarrow> fc_should_send_max_data fc =
     Ok ((fc_max_data fc - fc_read_off fc) * 2 < fc_window fc)"
  by (auto simp: fc_inv_def fc_should_send_max_data_def res_simps u64_max_def)

lemma fc_max_data_next_ok: "fc_inv fc \<Longrightarrow> fc_max_data_next fc = Ok (fc_read_off fc + fc_window fc)"
  by (auto simp: fc_inv_def fc_max_data_next_def res_simps u64_max_def)

lemma fc_recv_inv:
  assumes "fc_inv fc" "fc_recv_off fc + delta \<le> fc_max_data fc"
  shows "fc_increase_recv_off fc delta = Ok (fc\<lparr>fc_recv_off := fc_recv_off fc + delta\<rparr>)"
    and "fc_inv (fc\<lparr>fc_recv_off := fc_recv_off fc + delta\<rparr>)"
  using assms by (auto simp: fc_inv_def fc_increase_recv_off_def res_simps u64_max_def)

lemma fc_read_inv:
  assumes "fc_inv fc" "fc_read_off fc + delta \<le> fc_recv_off fc"
  shows "fc_increase_read_off fc delta = Ok (fc\<lparr>fc_read_off := fc_read_off fc + delta\<rparr>)"
    and "fc_inv (fc\<lparr>fc_read_off := fc_read_off fc + delta\<rparr>)"
  using assms by (auto simp: fc_inv_def fc_increase_read_off_def res_simps u64_max_def)

text \<open>A window update never retracts credit, and it restores the full window.\<close>

lemma fc_update_max_data_mono:
  assumes "fc_inv fc" "fc_update_max_data fc now = Ok fc'"
  shows "fc_max_data fc \<le> fc_max_data fc'" "fc_max_data fc' = fc_read_off fc + fc_window fc"
    "fc_read_off fc' = fc_read_off fc" "fc_recv_off fc' = fc_recv_off fc"
  using assms by (auto simp: fc_inv_def fc_update_max_data_def fc_max_data_next_def)

lemma fc_update_max_data_inv:
  assumes "fc_inv fc" "fc_read_off fc + fc_window fc < 2 ^ 62"
  shows "\<exists>fc'. fc_update_max_data fc now = Ok fc' \<and> fc_inv fc'"
  using assms by (auto simp: fc_inv_def fc_update_max_data_def fc_max_data_next_def res_simps u64_max_def)

lemma fc_autotune_inv:
  assumes "fc_inv fc"
  shows "\<exists>fc'. fc_autotune_window fc now srtt = Ok fc' \<and> fc_inv fc' \<and> fc_window fc \<le> fc_window fc'"
  using assms
  by (auto simp: fc_inv_def fc_autotune_window_def res_simps u64_max_def split: option.split)

text \<open>
  Without \<open>window \<le> max_window\<close> auto-tuning shrinks the window, contrary to the
  description of the structure ("may increase the window size, but never decreases").
\<close>

lemma fc_autotune_can_shrink:
  "\<exists>fc' fc''. fc_update_max_data (fc_new 100 50) 0 = Ok fc' \<and>
    fc_autotune_window fc' 1 10 = Ok fc'' \<and> fc_window fc'' < fc_window fc'"
  by (simp add: fc_defs res_simps u64_max_def)

end
