(* ===== verification/Range_Buf.thy ===== *)
theory Range_Buf
  imports Quic_Error
begin

text \<open>
  \<open>RangeBuf\<close> of \<open>src/src/connection/stream/range_buf.rs\<close>: a chunk of stream data at an
  offset. Bytes are natural numbers below 256 where a component needs it; the chunk does
  not look at them, so the type of a byte is a parameter here. The arrival time stamp is
  written and never read by the crate; it is left out. \<open>Bytes::advance\<close>,
  \<open>split_off\<close> and \<open>split_to\<close> panic beyond the end of the data.
\<close>

record 'b range_buf =
  rb_data :: "'b list"
  rb_off :: nat
  rb_fin :: bool

definition rb_new :: "'b list \<Rightarrow> nat \<Rightarrow> bool \<Rightarrow> 'b range_buf" where
  "rb_new buf off fin = \<lparr>rb_data = buf, rb_off = off, rb_fin = fin\<rparr>"

definition rb_len :: "'b range_buf \<Rightarrow> nat" where
  "rb_len b = length (rb_data b)"

definition rb_max_off :: "'b range_buf \<Rightarrow> nat" where
  "rb_max_off b = rb_off b + rb_len b"

definition rb_is_empty :: "'b range_buf \<Rightarrow> bool" where
  "rb_is_empty b \<longleftrightarrow> rb_len b = 0"

definition rb_advance :: "'b range_buf \<Rightarrow> nat \<Rightarrow> 'b range_buf qres" where
  "rb_advance b count =
     (if count \<le> rb_len b then Ok (b\<lparr>rb_data := drop count (rb_data b), rb_off := rb_off b + count\<rparr>)
      else Panic)"

definition rb_consume :: "'b range_buf \<Rightarrow> nat \<Rightarrow> 'b range_buf qres" where
  "rb_consume b count =
     (if count \<le> rb_len b then Ok (b\<lparr>rb_data := drop count (rb_data b), rb_off := rb_off b + count\<rparr>)
      else Panic)"

text \<open>The first component is what stays in the buffer, the second what is returned.\<close>

definition rb_split_off :: "'b range_buf \<Rightarrow> nat \<Rightarrow> ('b range_buf \<times> 'b range_buf) qres" where
  "rb_split_off b at =
     (if at \<le> rb_len b then
        Ok (b\<lparr>rb_data := take at (rb_data b), rb_fin := False\<rparr>,
            \<lparr>rb_data = drop at (rb_data b), rb_off = rb_off b + at, rb_fin = rb_fin b\<rparr>)
      else Panic)"

definition rb_split_to :: "'b range_buf \<Rightarrow> nat \<Rightarrow> ('b range_buf \<times> 'b range_buf) qres" where
  "rb_split_to b at =
     (if at \<le> rb_len b then
        Ok (b\<lparr>rb_data := drop at (rb_data b), rb_off := rb_off b + at\<rparr>,
            \<lparr>rb_data = take at (rb_data b), rb_off = rb_off b, rb_fin = False\<rparr>)
      else Panic)"

section \<open>The bytes of a chunk as a piece of a stream\<close>

text \<open>
  \<open>rb_agrees c b\<close>: the chunk holds the bytes of the stream \<open>c\<close> at its offsets.
  This is the ghost stream both buffers are verified against.
\<close>

definition rb_agrees :: "(nat \<Rightarrow> 'b) \<Rightarrow> 'b range_buf \<Rightarrow> bool" where
  "rb_agrees c b \<longleftrightarrow> rb_data b = map c [rb_off b..<rb_max_off b]"

lemmas rb_basic = rb_new_def rb_len_def rb_max_off_def rb_is_empty_def

lemma rb_agrees_nth:
  "rb_agrees c b \<longleftrightarrow> (\<forall>i < rb_len b. rb_data b ! i = c (rb_off b + i))"
  unfolding rb_agrees_def rb_max_off_def rb_len_def by (subst list_eq_iff_nth_eq) auto

lemma rb_advance_spec:
  assumes "rb_advance b n = Ok b'"
  shows "rb_off b' = rb_off b + n" "rb_max_off b' = rb_max_off b" "rb_len b' = rb_len b - n"
    "rb_fin b' = rb_fin b" "n \<le> rb_len b" "rb_agrees c b \<Longrightarrow> rb_agrees c b'"
  using assms
  by (auto simp: rb_advance_def rb_agrees_nth rb_max_off_def rb_len_def add.assoc split: if_splits)

lemma rb_split_off_spec:
  assumes "rb_split_off b n = Ok (b1, b2)"
  shows "rb_off b1 = rb_off b" "rb_max_off b1 = rb_off b + n" "rb_off b2 = rb_off b + n"
    "rb_max_off b2 = rb_max_off b" "n \<le> rb_len b" "rb_fin b2 = rb_fin b" "\<not> rb_fin b1"
    "rb_agrees c b \<Longrightarrow> rb_agrees c b1 \<and> rb_agrees c b2"
  using assms
  by (auto simp: rb_split_off_def rb_agrees_nth rb_max_off_def rb_len_def add.assoc split: if_splits)

lemma rb_split_to_spec:
  assumes "rb_split_to b n = Ok (b1, b2)"
  shows "rb_off b2 = rb_off b" "rb_max_off b2 = rb_off b + n" "rb_off b1 = rb_off b + n"
    "rb_max_off b1 = rb_max_off b" "rb_agrees c b \<Longrightarrow> rb_agrees c b1 \<and> rb_agrees c b2"
  using assms
  by (auto simp: rb_split_to_def rb_agrees_nth rb_max_off_def rb_len_def add.assoc split: if_splits)

lemma rb_advance_Ok: "n \<le> rb_len b \<Longrightarrow> \<exists>b'. rb_advance b n = Ok b'"
  by (simp add: rb_advance_def)

lemma rb_split_off_Ok: "n \<le> rb_len b \<Longrightarrow> \<exists>b1 b2. rb_split_off b n = Ok (b1, b2)"
  by (simp add: rb_split_off_def)

lemma rb_off_le_max: "rb_off b \<le> rb_max_off b"
  by (simp add: rb_max_off_def)

end
