(* ===== verification/Op_Machine.thy ===== *)
theory Op_Machine
  imports Quic_Prelude
begin

text \<open>
  A component as a machine: a step function that takes an operation and a state and
  returns the new state with the values it hands out. The locale \<open>op_machine\<close> is the
  contract of such a component (an invariant, the operations a caller may issue, and a
  transitive description of what is handed out between two states); its lemmas lift the
  contract from one step to every sequence of operations.
\<close>

primrec run_ops :: "('op \<Rightarrow> 's \<Rightarrow> 's \<times> 'o list) \<Rightarrow> 's \<Rightarrow> 'op list \<Rightarrow> 's \<times> 'o list" where
  "run_ops step s [] = (s, [])"
| "run_ops step s (oper # ops) =
     (let (s1, out1) = step oper s; (s2, out2) = run_ops step s1 ops in (s2, out1 @ out2))"

lemma run_ops_append:
  "run_ops step s (ops @ ops') =
    (let (s1, out1) = run_ops step s ops; (s2, out2) = run_ops step s1 ops' in (s2, out1 @ out2))"
  by (induction ops arbitrary: s) (auto simp: Let_def split: prod.split)

locale op_machine =
  fixes step :: "'op \<Rightarrow> 's \<Rightarrow> 's \<times> 'o list"
    and legal :: "'op \<Rightarrow> bool"
    and inv :: "'s \<Rightarrow> bool"
    and emits :: "'s \<Rightarrow> 'o list \<Rightarrow> 's \<Rightarrow> bool"
  assumes step_inv: "inv s \<Longrightarrow> legal oper \<Longrightarrow> inv (fst (step oper s))"
    and step_emits: "inv s \<Longrightarrow> legal oper \<Longrightarrow> emits s (snd (step oper s)) (fst (step oper s))"
    and emits_refl: "inv s \<Longrightarrow> emits s [] s"
    and emits_trans: "emits s out s' \<Longrightarrow> emits s' out' s'' \<Longrightarrow> emits s (out @ out') s''"
begin

lemma run_ok:
  assumes "inv s" "\<forall>oper \<in> set ops. legal oper"
  shows "inv (fst (run_ops step s ops)) \<and> emits s (snd (run_ops step s ops)) (fst (run_ops step s ops))"
  using assms
proof (induction ops arbitrary: s)
  case Nil
  then show ?case by (simp add: emits_refl)
next
  case (Cons oper ops)
  obtain s1 out1 where s1: "step oper s = (s1, out1)" by fastforce
  have "inv s1" "emits s out1 s1" using step_inv step_emits Cons.prems s1 by (metis fst_conv snd_conv list.set_intros(1))+
  then show ?case using Cons.IH[of s1] Cons.prems(2) s1 emits_trans by (auto simp: split_beta)
qed

lemmas run_inv = run_ok [THEN conjunct1]
lemmas run_emits = run_ok [THEN conjunct2]

end

end
