(* ===== verification/Recv_Buf.thy ===== *)
theory Recv_Buf
  imports Btree_Map Flow_Control Range_Buf Op_Machine
begin

text \<open>
  The receive side of a stream, \<open>src/src/connection/stream/recv_buf.rs\<close>: chunks of data
  keyed by their largest offset, reassembled in order for the application.
\<close>

section \<open>The code\<close>

type_synonym 'b chunks = "(nat, 'b range_buf) bmap"

record 'b recv_buf =
  rv_data :: "'b chunks"
  rv_read_off :: nat
  rv_recv_off :: nat
  rv_fin_off :: "nat option"
  rv_error :: "nat option"
  rv_shutdown_flag :: bool
  rv_flow_control :: flow_control
  rv_trace_id :: string

definition rv_new :: "nat \<Rightarrow> nat \<Rightarrow> 'b recv_buf" where
  "rv_new max_data max_window =
     \<lparr>rv_data = [], rv_read_off = 0, rv_recv_off = 0, rv_fin_off = None, rv_error = None,
      rv_shutdown_flag = False, rv_flow_control = fc_new max_data max_window, rv_trace_id = []\<rparr>"

definition rv_max_data :: "'b recv_buf \<Rightarrow> nat" where
  "rv_max_data rv = fc_max_data (rv_flow_control rv)"

definition rv_is_fin :: "'b recv_buf \<Rightarrow> bool" where
  "rv_is_fin rv \<longleftrightarrow> rv_fin_off rv = Some (rv_read_off rv)"

definition rv_is_complete :: "'b recv_buf \<Rightarrow> bool" where
  "rv_is_complete rv \<longleftrightarrow> rv_fin_off rv = Some (rv_read_off rv)"

text \<open>
  The inner \<open>for\<close> loop of \<open>write\<close> over the chunks whose key is at least the offset of
  the new buffer. The result is the buffer to store (\<open>None\<close>: fully duplicated) and the
  queue of pieces still to be examined.
\<close>

fun scan_overlap ::
    "'b range_buf list \<Rightarrow> 'b range_buf \<Rightarrow> 'b range_buf list \<Rightarrow>
     ('b range_buf option \<times> 'b range_buf list) qres" where
  "scan_overlap [] buf tmp = Ok (Some buf, tmp)"
| "scan_overlap (b # bs) buf tmp =
     (if rb_off b > rb_max_off buf then Ok (Some buf, tmp)
      else if rb_off buf \<ge> rb_off b \<and> rb_max_off buf \<le> rb_max_off b then Ok (None, tmp)
      else if rb_off buf \<ge> rb_off b \<and> rb_off buf < rb_max_off b then
        rbind (rb_advance buf (rb_max_off b - rb_off buf)) (\<lambda>buf'. scan_overlap bs buf' tmp)
      else if rb_off buf < rb_off b \<and> rb_max_off buf > rb_off b then
        rbind (rb_split_off buf (rb_off b - rb_off buf)) (\<lambda>(buf', rest).
          scan_overlap bs buf' (tmp @ [rest]))
      else scan_overlap bs buf tmp)"

definition total_len :: "'b range_buf list \<Rightarrow> nat" where
  "total_len bs = sum_list (map rb_len bs)"

lemma total_len_simps [simp]:
  "total_len [] = 0" "total_len (b # bs) = rb_len b + total_len bs"
  "total_len (bs @ bs') = total_len bs + total_len bs'"
  by (simp_all add: total_len_def)

lemma scan_overlap_len:
  "scan_overlap bs buf tmp = Ok (kept, tmp') \<Longrightarrow>
    tmp' = tmp \<or> total_len tmp' < total_len tmp + rb_len buf"
proof (induction bs buf tmp arbitrary: kept tmp' rule: scan_overlap.induct)
  case (2 b bs buf tmp)
  consider "rb_off b > rb_max_off buf" | "\<not> rb_off b > rb_max_off buf"
      "rb_off buf \<ge> rb_off b \<and> rb_max_off buf \<le> rb_max_off b"
    | (adv) "\<not> rb_off b > rb_max_off buf" "\<not> (rb_off buf \<ge> rb_off b \<and> rb_max_off buf \<le> rb_max_off b)"
      "rb_off buf \<ge> rb_off b \<and> rb_off buf < rb_max_off b"
    | (spl) "\<not> rb_off b > rb_max_off buf" "\<not> (rb_off buf \<ge> rb_off b \<and> rb_max_off buf \<le> rb_max_off b)"
      "\<not> (rb_off buf \<ge> rb_off b \<and> rb_off buf < rb_max_off b)"
      "rb_off buf < rb_off b \<and> rb_max_off buf > rb_off b"
    | (els) "\<not> rb_off b > rb_max_off buf" "\<not> (rb_off buf \<ge> rb_off b \<and> rb_max_off buf \<le> rb_max_off b)"
      "\<not> (rb_off buf \<ge> rb_off b \<and> rb_off buf < rb_max_off b)"
      "\<not> (rb_off buf < rb_off b \<and> rb_max_off buf > rb_off b)" by blast
  then show ?case
  proof cases
    case adv
    then obtain buf' where a: "rb_advance buf (rb_max_off b - rb_off buf) = Ok buf'"
      "scan_overlap bs buf' tmp = Ok (kept, tmp')" using "2.prems" by auto
    then show ?thesis using "2.IH"(1)[OF adv a] rb_advance_spec(3)[OF a(1)] by auto
  next
    case spl
    then obtain buf' rest where s: "rb_split_off buf (rb_off b - rb_off buf) = Ok (buf', rest)"
      "scan_overlap bs buf' (tmp @ [rest]) = Ok (kept, tmp')" using "2.prems" by auto
    have "rb_len buf' + rb_len rest = rb_len buf" "0 < rb_len buf'"
      using rb_split_off_spec[OF s(1)] spl by (auto simp: rb_max_off_def)
    then show ?thesis using "2.IH"(2)[OF spl s(1) refl s(2)] by auto
  next
    case els
    then show ?thesis using "2.IH"(3)[OF els] "2.prems" by auto
  qed (use "2.prems" in auto)
qed simp

text \<open>
  The outer loop of \<open>write\<close>. Only the chunks and the received offset change; \<open>ro\<close> is
  the read offset and \<open>sd\<close> the shutdown flag.
\<close>

function write_loop ::
    "nat \<Rightarrow> bool \<Rightarrow> 'b chunks \<Rightarrow> nat \<Rightarrow> 'b range_buf list \<Rightarrow> ('b chunks \<times> nat) qres" where
  "write_loop ro sd m hi [] = Ok (m, hi)"
| "write_loop ro sd m hi (buf0 # tmp) =
     rbind (if ro > rb_off buf0 then rb_advance buf0 (ro - rb_off buf0) else Ok buf0) (\<lambda>buf.
     rbind (if rb_off buf < hi \<or> rb_is_empty buf
            then scan_overlap (map snd (bm_from (rb_off buf) m)) buf tmp
            else Ok (Some buf, tmp)) (\<lambda>(kept, tmp').
     case kept of
       None \<Rightarrow> write_loop ro sd m hi tmp'
     | Some b \<Rightarrow>
         write_loop ro sd (if sd then m else bm_insert (rb_max_off b) b m)
           (max hi (rb_max_off b)) tmp'))"
  by pat_completeness auto

lemma write_loop_measure:
  assumes "(if ro > rb_off buf0 then rb_advance buf0 (ro - rb_off buf0) else Ok buf0) = Ok buf"
    and "(if rb_off buf < hi \<or> rb_is_empty buf
          then scan_overlap (map snd (bm_from (rb_off buf) m)) buf tmp
          else Ok (Some buf, tmp)) = Ok (kept, tmp')"
  shows "total_len tmp' < total_len (buf0 # tmp) \<or>
    total_len tmp' = total_len (buf0 # tmp) \<and> length tmp' < length (buf0 # tmp)"
proof -
  have "rb_len buf \<le> rb_len buf0"
    using assms(1) rb_advance_spec(3)[of buf0 "ro - rb_off buf0" buf] by (auto split: if_splits)
  moreover have "tmp' = tmp \<or> total_len tmp' < total_len tmp + rb_len buf"
    using assms(2) scan_overlap_len[of _ buf tmp kept tmp'] by (auto split: if_splits)
  ultimately show ?thesis by auto
qed

termination write_loop
proof (relation "measures [\<lambda>(_, _, _, _, tmp). total_len tmp, \<lambda>(_, _, _, _, tmp). length tmp]",
    goal_cases)
  case (2 ro sd m hi buf0 tmp buf res kept tmp')
  then show ?case using write_loop_measure[OF 2(1), of hi m tmp kept tmp'] by auto
next
  case (3 ro sd m hi buf0 tmp buf res kept tmp' b)
  then show ?case using write_loop_measure[OF 3(1), of hi m tmp kept tmp'] by auto
qed simp

definition rv_write :: "'b recv_buf \<Rightarrow> nat \<Rightarrow> 'b list \<Rightarrow> bool \<Rightarrow> 'b recv_buf \<times> unit qres" where
  "rv_write rv offset data fin =
     (let buf = rb_new data offset fin in
      if rb_max_off buf > rv_max_data rv then (rv, Err FlowControlError)
      else if (case rv_fin_off rv of
                 Some fin_off \<Rightarrow> rb_max_off buf > fin_off \<or> (fin \<and> fin_off \<noteq> rb_max_off buf)
               | None \<Rightarrow> False) then (rv, Err FinalSizeError)
      else if fin \<and> rb_max_off buf < rv_recv_off rv then (rv, Err FinalSizeError)
      else if rv_is_fin rv then (rv, Ok ())
      else
        let rv1 = (if fin then rv\<lparr>rv_fin_off := Some (rb_max_off buf)\<rparr> else rv) in
        if \<not> fin \<and> rb_is_empty buf then (rv1, Ok ())
        else if rv_read_off rv1 \<ge> rb_max_off buf \<and> \<not> rb_is_empty buf then (rv1, Ok ())
        else attempt rv1
          (write_loop (rv_read_off rv1) (rv_shutdown_flag rv1) (rv_data rv1) (rv_recv_off rv1) [buf])
          (\<lambda>(m, hi). (rv1\<lparr>rv_data := m, rv_recv_off := hi\<rparr>, Ok ())))"

definition chunks_ready :: "'b chunks \<Rightarrow> nat \<Rightarrow> bool" where
  "chunks_ready m ro \<longleftrightarrow> (case m of [] \<Rightarrow> False | (_, b) # _ \<Rightarrow> rb_off b = ro)"

definition rv_ready :: "'b recv_buf \<Rightarrow> bool" where
  "rv_ready rv \<longleftrightarrow> chunks_ready (rv_data rv) (rv_read_off rv)"

text \<open>
  The loop of \<open>read\<close>: the bytes copied out so far are the last argument.
\<close>

fun read_loop :: "'b chunks \<Rightarrow> nat \<Rightarrow> nat \<Rightarrow> 'b list \<Rightarrow> ('b chunks \<times> nat \<times> 'b list) qres" where
  "read_loop [] ro cap out = Ok ([], ro, out)"
| "read_loop ((k, b) # m) ro cap out =
     (if 0 < cap \<and> chunks_ready ((k, b) # m) ro then
        let buf_len = min (rb_len b) cap;
            out' = out @ take buf_len (rb_data b)
        in if buf_len < rb_len b then
             rbind (rb_consume b buf_len) (\<lambda>b'. Ok ((k, b') # m, ro + buf_len, out'))
           else read_loop m (ro + buf_len) (cap - buf_len) out'
      else Ok ((k, b) # m, ro, out))"

text \<open>\<open>read\<close> into a buffer of \<open>cap\<close> bytes: the bytes written to it and the fin flag.\<close>

definition rv_read :: "'b recv_buf \<Rightarrow> nat \<Rightarrow> 'b recv_buf \<times> ('b list \<times> bool) qres" where
  "rv_read rv cap =
     (if \<not> rv_ready rv then (rv, Err Done)
      else case rv_error rv of
        Some e \<Rightarrow> (rv\<lparr>rv_data := []\<rparr>, Err (StreamReset e))
      | None \<Rightarrow>
          attempt rv (read_loop (rv_data rv) (rv_read_off rv) cap []) (\<lambda>(m, ro, out).
            let rv1 = rv\<lparr>rv_data := m, rv_read_off := ro\<rparr>
            in attempt rv1 (fc_increase_read_off (rv_flow_control rv1) (length out)) (\<lambda>fc.
                let rv2 = rv1\<lparr>rv_flow_control := fc\<rparr>
                in (rv2, Ok (out, rv_is_fin rv2)))))"

definition rv_reset :: "'b recv_buf \<Rightarrow> nat \<Rightarrow> nat \<Rightarrow> 'b recv_buf \<times> nat qres" where
  "rv_reset rv error_code final_size =
     (if (case rv_fin_off rv of Some fin_off \<Rightarrow> fin_off \<noteq> final_size | None \<Rightarrow> False)
      then (rv, Err FinalSizeError)
      else if final_size < rv_recv_off rv then (rv, Err FinalSizeError)
      else
        let max_rx_off_delta = final_size - rv_recv_off rv in
        if rv_error rv \<noteq> None then (rv, Ok max_rx_off_delta)
        else
          let rv1 = rv\<lparr>rv_error := Some error_code, rv_data := []\<rparr>;
              (rv2, r) = rv_write rv1 final_size [] True
          in attempt rv2 r (\<lambda>_. (rv2\<lparr>rv_read_off := final_size\<rparr>, Ok max_rx_off_delta)))"

definition rv_shutdown :: "'b recv_buf \<Rightarrow> 'b recv_buf \<times> nat qres" where
  "rv_shutdown rv =
     (if rv_shutdown_flag rv then (rv, Err Done)
      else
        let rv1 = rv\<lparr>rv_shutdown_flag := True\<rparr> in
        attempt rv1 (sub64 (rv_recv_off rv1) (rv_read_off rv1)) (\<lambda>unread_len.
          (rv1\<lparr>rv_data := [], rv_read_off := rv_recv_off rv1\<rparr>, Ok unread_len)))"

definition rv_update_max_data :: "'b recv_buf \<Rightarrow> instant \<Rightarrow> 'b recv_buf \<times> unit qres" where
  "rv_update_max_data rv now =
     attempt rv (fc_update_max_data (rv_flow_control rv) now) (\<lambda>fc.
       (rv\<lparr>rv_flow_control := fc\<rparr>, Ok ()))"

definition rv_max_data_next :: "'b recv_buf \<Rightarrow> nat qres" where
  "rv_max_data_next rv = fc_max_data_next (rv_flow_control rv)"

definition rv_window :: "'b recv_buf \<Rightarrow> nat" where
  "rv_window rv = fc_window (rv_flow_control rv)"

definition rv_autotune_window :: "'b recv_buf \<Rightarrow> instant \<Rightarrow> duration \<Rightarrow> 'b recv_buf \<times> unit qres" where
  "rv_autotune_window rv now srtt =
     attempt rv (fc_autotune_window (rv_flow_control rv) now srtt) (\<lambda>fc.
       (rv\<lparr>rv_flow_control := fc\<rparr>, Ok ()))"

definition rv_should_send_max_data :: "'b recv_buf \<Rightarrow> bool qres" where
  "rv_should_send_max_data rv =
     (if rv_fin_off rv = None then fc_should_send_max_data (rv_flow_control rv) else Ok False)"

definition rv_is_shutdown :: "'b recv_buf \<Rightarrow> bool" where
  "rv_is_shutdown rv \<longleftrightarrow> rv_shutdown_flag rv"

section \<open>Chunks as a piece of the stream\<close>

text \<open>
  Every proof below is relative to a ghost stream \<open>c\<close>: the byte the peer has put at each
  offset. \<open>cover\<close> is the set of buffered offsets.
\<close>

definition chunk_rng :: "'b range_buf \<Rightarrow> nat set" where
  "chunk_rng b = {rb_off b..<rb_max_off b}"

definition lcover :: "'b range_buf list \<Rightarrow> nat set" where
  "lcover bs = (\<Union>b \<in> set bs. chunk_rng b)"

definition cover :: "'b chunks \<Rightarrow> nat set" where
  "cover m = (\<Union>e \<in> set m. chunk_rng (snd e))"

text \<open>
  The chunks are disjoint, lie between the read and the received offset, carry the bytes of
  the stream, and are empty only at the final offset \<open>E\<close>.
\<close>

definition chunks_ok :: "(nat \<Rightarrow> 'b) \<Rightarrow> nat \<Rightarrow> nat \<Rightarrow> nat option \<Rightarrow> 'b chunks \<Rightarrow> bool" where
  "chunks_ok c ro hi E m \<longleftrightarrow> bm_sorted m \<and>
     (\<forall>e \<in> set m. fst e = rb_max_off (snd e) \<and> ro \<le> rb_off (snd e) \<and> fst e \<le> hi \<and>
        rb_agrees c (snd e) \<and> (rb_off (snd e) = fst e \<longrightarrow> E = Some (fst e))) \<and>
     (\<forall>e \<in> set m. \<forall>e' \<in> set m. fst e < fst e' \<longrightarrow> fst e \<le> rb_off (snd e'))"

definition apart :: "'b range_buf \<Rightarrow> 'b range_buf \<Rightarrow> bool" where
  "apart b x \<longleftrightarrow> rb_max_off x \<le> rb_off b \<or> rb_max_off b \<le> rb_off x"

text \<open>What the inner loop guarantees about the piece to store and the pieces to re-examine.\<close>

definition kept_ok ::
    "(nat \<Rightarrow> 'b) \<Rightarrow> 'b range_buf list \<Rightarrow> 'b range_buf \<Rightarrow> 'b range_buf \<Rightarrow> 'b range_buf list \<Rightarrow> bool" where
  "kept_ok c bs buf b rest \<longleftrightarrow> rb_agrees c b \<and> rb_off buf \<le> rb_off b \<and> rb_max_off b \<le> rb_max_off buf \<and>
     (rb_off buf < rb_max_off buf \<longrightarrow> rb_off b < rb_max_off b) \<and>
     (\<forall>x \<in> set bs. apart b x \<and> (rb_max_off x = rb_max_off b \<longrightarrow> rb_off b < rb_max_off b)) \<and>
     chunk_rng buf \<subseteq> lcover bs \<union> chunk_rng b \<union> lcover rest \<and>
     (rb_max_off buf = rb_max_off b \<or> (\<exists>r \<in> set rest. rb_max_off r = rb_max_off buf))"

definition scan_ok ::
    "(nat \<Rightarrow> 'b) \<Rightarrow> 'b range_buf list \<Rightarrow> 'b range_buf \<Rightarrow> 'b range_buf option \<Rightarrow> 'b range_buf list \<Rightarrow> bool" where
  "scan_ok c bs buf kept rest \<longleftrightarrow>
     (\<forall>p \<in> set rest. rb_off p < rb_max_off p \<and> rb_agrees c p \<and> rb_off buf \<le> rb_off p \<and>
        rb_max_off p \<le> rb_max_off buf) \<and>
     (case kept of
        None \<Rightarrow> chunk_rng buf \<subseteq> lcover bs \<union> lcover rest \<and>
          (\<exists>x \<in> set bs \<union> set rest. rb_max_off buf \<le> rb_max_off x)
      | Some b \<Rightarrow> kept_ok c bs buf b rest)"

lemma lcover_simps [simp]: "lcover [] = {}" "lcover (b # bs) = chunk_rng b \<union> lcover bs"
  "lcover (bs @ bs') = lcover bs \<union> lcover bs'"
  by (auto simp: lcover_def)

lemma cover_simps [simp]: "cover [] = {}" "cover (e # m) = chunk_rng (snd e) \<union> cover m"
  by (auto simp: cover_def)

lemma lcover_snd: "lcover (map snd m) = cover m"
  by (auto simp: lcover_def cover_def)

lemma chunks_ok_Nil [simp]: "chunks_ok c ro hi E []"
  by (simp add: chunks_ok_def)

lemma chunks_ok_hi: "chunks_ok c ro hi E m \<Longrightarrow> hi \<le> hi' \<Longrightarrow> chunks_ok c ro hi' E m"
  unfolding chunks_ok_def by (meson le_trans)

subsection \<open>The inner loop\<close>

lemma scan_ok_advance:
  assumes "scan_ok c bs buf' kept rest" "rb_off buf' = rb_max_off b" "rb_max_off buf' = rb_max_off buf"
    "rb_off b \<le> rb_off buf" "rb_off buf \<le> rb_max_off b" "rb_max_off b < rb_max_off buf"
  shows "scan_ok c (b # bs) buf kept rest"
proof -
  have "chunk_rng buf \<subseteq> chunk_rng b \<union> chunk_rng buf'"
    using assms(2-5) by (auto simp: chunk_rng_def)
  then show ?thesis
    using assms by (cases kept) (auto simp: scan_ok_def kept_ok_def apart_def)
qed

lemma scan_ok_split:
  assumes "scan_ok c bs buf1 kept rest" "rb_off buf1 = rb_off buf" "rb_max_off buf1 = rb_off b"
    "rb_off p = rb_off b" "rb_max_off p = rb_max_off buf" "rb_agrees c p"
    "rb_off buf < rb_off b" "rb_off b < rb_max_off buf"
  shows "scan_ok c (b # bs) buf kept (p # rest)"
proof -
  have "chunk_rng buf \<subseteq> chunk_rng buf1 \<union> chunk_rng p"
    using assms(2-5) by (auto simp: chunk_rng_def)
  then show ?thesis
    using assms by (cases kept) (auto simp: scan_ok_def kept_ok_def apart_def)
qed

lemma scan_ok_skip:
  assumes "scan_ok c bs buf kept rest"
    "rb_max_off b < rb_off buf \<or> (rb_max_off b = rb_off buf \<and> rb_off buf < rb_max_off buf) \<or>
     (rb_max_off buf = rb_off b \<and> rb_off buf < rb_off b) \<or> rb_max_off buf < rb_off b"
  shows "scan_ok c (b # bs) buf kept rest"
  using assms rb_off_le_max[of b] rb_off_le_max[of buf]
  by (cases kept) (auto simp: scan_ok_def kept_ok_def apart_def)

lemma scan_ok_none: "rb_agrees c buf \<Longrightarrow> scan_ok c [] buf (Some buf) []"
  by (simp add: scan_ok_def kept_ok_def)

lemma scan_ok_break:
  assumes "rb_agrees c buf" "\<forall>x \<in> set bs. rb_max_off buf < rb_off x"
  shows "scan_ok c bs buf (Some buf) []"
  using assms(2)
proof (induction bs)
  case Nil
  show ?case by (rule scan_ok_none[OF assms(1)])
next
  case (Cons b bs)
  then show ?case by (intro scan_ok_skip) auto
qed

definition chain :: "'b range_buf list \<Rightarrow> bool" where
  "chain bs \<longleftrightarrow> sorted_wrt (\<lambda>x y. rb_max_off x \<le> rb_off y \<and> rb_max_off x < rb_max_off y) bs"

lemma chain_Cons: "chain (b # bs) \<longleftrightarrow>
    (\<forall>y \<in> set bs. rb_max_off b \<le> rb_off y \<and> rb_max_off b < rb_max_off y) \<and> chain bs"
  by (simp add: chain_def)

lemma scan_overlap_spec:
  assumes "chain bs" "\<forall>b \<in> set bs. rb_off buf \<le> rb_max_off b" "rb_agrees c buf"
  shows "\<exists>kept rest. scan_overlap bs buf tmp = Ok (kept, tmp @ rest) \<and> scan_ok c bs buf kept rest"
  using assms
proof (induction bs arbitrary: buf tmp)
  case Nil
  then show ?case using scan_ok_none by fastforce
next
  case (Cons b bs)
  have ch: "chain bs" "\<And>y. y \<in> set bs \<Longrightarrow> rb_max_off b \<le> rb_off y \<and> rb_max_off b < rb_max_off y"
    and ob: "rb_off buf \<le> rb_max_off b" using Cons.prems by (auto simp: chain_Cons)
  consider (brk) "rb_off b > rb_max_off buf"
    | (dup) "rb_off b \<le> rb_max_off buf" "rb_off b \<le> rb_off buf" "rb_max_off buf \<le> rb_max_off b"
    | (adv) "rb_off b \<le> rb_off buf" "rb_off buf < rb_max_off b" "rb_max_off b < rb_max_off buf"
    | (spl) "rb_off buf < rb_off b" "rb_off b < rb_max_off buf"
    | (els) "rb_off b \<le> rb_max_off buf" "\<not> (rb_off b \<le> rb_off buf \<and> rb_max_off buf \<le> rb_max_off b)"
      "\<not> (rb_off b \<le> rb_off buf \<and> rb_off buf < rb_max_off b)"
      "\<not> (rb_off buf < rb_off b \<and> rb_off b < rb_max_off buf)" by linarith
  then show ?case
  proof cases
    case brk
    then have "\<forall>x \<in> set (b # bs). rb_max_off buf < rb_off x"
      using ch(2) order.strict_trans2[OF brk order.trans[OF rb_off_le_max[of b]]] by auto
    then show ?thesis using brk scan_ok_break[OF Cons.prems(3)] by fastforce
  next
    case dup
    then have "scan_ok c (b # bs) buf None []" by (auto simp: scan_ok_def chunk_rng_def)
    then show ?thesis using dup by fastforce
  next
    case adv
    then have "rb_max_off b - rb_off buf \<le> rb_len buf" by (simp add: rb_max_off_def)
    then obtain buf' where a: "rb_advance buf (rb_max_off b - rb_off buf) = Ok buf'"
      using rb_advance_Ok by blast
    note sp = rb_advance_spec[OF a]
    have o: "rb_off buf' = rb_max_off b" using sp(1) ob by simp
    obtain kept rest where r: "scan_overlap bs buf' tmp = Ok (kept, tmp @ rest)" "scan_ok c bs buf' kept rest"
      using Cons.IH[of buf' tmp] ch o sp(6)[OF Cons.prems(3)] by (metis less_imp_le)
    have "scan_ok c (b # bs) buf kept rest"
      using r(2) o sp(2) adv(1) ob adv(3) by (rule scan_ok_advance)
    moreover have "scan_overlap (b # bs) buf tmp = Ok (kept, tmp @ rest)" using adv a r(1) by auto
    ultimately show ?thesis by blast
  next
    case spl
    then have "rb_off b - rb_off buf \<le> rb_len buf" by (simp add: rb_max_off_def)
    then obtain buf1 p where a: "rb_split_off buf (rb_off b - rb_off buf) = Ok (buf1, p)"
      using rb_split_off_Ok by blast
    note sp = rb_split_off_spec[OF a]
    have o: "rb_off buf1 = rb_off buf" "rb_max_off buf1 = rb_off b" "rb_off p = rb_off b"
      "rb_max_off p = rb_max_off buf" using sp(1-4) spl by simp_all
    obtain kept rest where r: "scan_overlap bs buf1 (tmp @ [p]) = Ok (kept, (tmp @ [p]) @ rest)"
      "scan_ok c bs buf1 kept rest"
      using Cons.IH[of buf1 "tmp @ [p]"] ch(1) Cons.prems(2) o(1) sp(8)[OF Cons.prems(3)] by auto
    have "scan_ok c (b # bs) buf kept (p # rest)"
      using r(2) o _ spl by (rule scan_ok_split) (use sp(8)[OF Cons.prems(3)] in simp)
    moreover have "scan_overlap (b # bs) buf tmp = Ok (kept, tmp @ p # rest)" using spl a r(1) by auto
    ultimately show ?thesis by blast
  next
    case els
    obtain kept rest where r: "scan_overlap bs buf tmp = Ok (kept, tmp @ rest)" "scan_ok c bs buf kept rest"
      using Cons.IH[of buf tmp] ch(1) Cons.prems(2,3) by auto
    have "scan_ok c (b # bs) buf kept rest"
      using r(2) by (rule scan_ok_skip) (use els ob rb_off_le_max[of b] rb_off_le_max[of buf] in linarith)
    moreover have "scan_overlap (b # bs) buf tmp = Ok (kept, tmp @ rest)" using els r(1) by auto
    ultimately show ?thesis by blast
  qed
qed

subsection \<open>The outer loop\<close>

lemma chunks_ok_chain: "chunks_ok c ro hi E m \<Longrightarrow> chain (map snd m)"
  unfolding chunks_ok_def chain_def bm_sorted_wrt sorted_wrt_map
  by (elim conjE) (erule sorted_wrt_mono_rel[rotated], simp)

lemma chain_filter: "chain (map snd m) \<Longrightarrow> chain (map snd (filter P m))"
  by (simp add: chain_def sorted_wrt_map sorted_wrt_filter)

lemma scan_ok_more:
  assumes "scan_ok c bs buf kept rest" "set bs \<subseteq> set bs'"
    "\<forall>x \<in> set bs' - set bs. rb_max_off x < rb_off buf"
  shows "scan_ok c bs' buf kept rest"
proof -
  have "lcover bs \<subseteq> lcover bs'" using assms(2) by (auto simp: lcover_def)
  moreover have "apart b x" "rb_max_off x \<noteq> rb_max_off b"
    if "rb_off buf \<le> rb_off b" "x \<in> set bs' - set bs" for b x
  proof -
    have "rb_max_off x < rb_off b" using bspec[OF assms(3) that(2)] that(1) by simp
    then show "apart b x" "rb_max_off x \<noteq> rb_max_off b"
      using rb_off_le_max[of b] by (simp_all add: apart_def)
  qed
  ultimately show ?thesis
    using assms(1,2) by (cases kept) (auto simp: scan_ok_def kept_ok_def)
qed

lemma store_scan:
  assumes ok: "chunks_ok c ro hi E m" and ag: "rb_agrees c buf"
  shows "\<exists>kept rest. (if rb_off buf < hi \<or> rb_is_empty buf
      then scan_overlap (map snd (bm_from (rb_off buf) m)) buf tmp else Ok (Some buf, tmp)) =
      Ok (kept, tmp @ rest) \<and> scan_ok c (map snd m) buf kept rest"
proof (cases "rb_off buf < hi \<or> rb_is_empty buf")
  case True
  let ?bs = "map snd (bm_from (rb_off buf) m)"
  have keys: "\<forall>e \<in> set m. fst e = rb_max_off (snd e)" using ok by (simp add: chunks_ok_def)
  have "chain ?bs" unfolding bm_from_def by (rule chain_filter[OF chunks_ok_chain[OF ok]])
  moreover have "\<forall>b \<in> set ?bs. rb_off buf \<le> rb_max_off b" using keys by (auto simp: bm_from_def)
  ultimately obtain kept rest where r: "scan_overlap ?bs buf tmp = Ok (kept, tmp @ rest)"
    "scan_ok c ?bs buf kept rest" using scan_overlap_spec[OF _ _ ag] by blast
  have "scan_ok c (map snd m) buf kept rest"
  proof (rule scan_ok_more[OF r(2)])
    show "set ?bs \<subseteq> set (map snd m)" by (auto simp: bm_from_def)
    show "\<forall>x \<in> set (map snd m) - set ?bs. rb_max_off x < rb_off buf"
      using keys by (fastforce simp: bm_from_def)
  qed
  then show ?thesis using True r(1) by auto
next
  case False
  then have "\<forall>x \<in> set (map snd m). rb_max_off x \<le> rb_off buf" "rb_off buf < rb_max_off buf"
    using ok by (fastforce simp: chunks_ok_def rb_is_empty_def rb_max_off_def)+
  then have "scan_ok c (map snd m) buf (Some buf) []"
    using ag by (auto simp: scan_ok_def kept_ok_def apart_def)
  then show ?thesis using False by auto
qed

lemma store_insert:
  assumes ok: "chunks_ok c ro hi E m" and k: "kept_ok c (map snd m) buf b rest"
    and ro: "ro \<le> rb_off buf" and e: "rb_off buf = rb_max_off buf \<Longrightarrow> E = Some (rb_max_off buf)"
  shows "chunks_ok c ro (max hi (rb_max_off b)) E (bm_insert (rb_max_off b) b m)"
    and "cover (bm_insert (rb_max_off b) b m) = cover m \<union> chunk_rng b"
proof -
  let ?K = "rb_max_off b"
  have s: "bm_sorted m" using ok by (simp add: chunks_ok_def)
  have ents: "set (bm_insert ?K b m) = insert (?K, b) {x \<in> set m. fst x \<noteq> ?K}"
    by (rule set_bm_insert[OF s])
  have b: "rb_agrees c b" "ro \<le> rb_off b" "rb_off b = ?K \<longrightarrow> E = Some ?K"
    using k ro e rb_off_le_max[of buf] rb_off_le_max[of b]
    by (auto simp: kept_ok_def)
  have ap: "fst x = rb_max_off (snd x)" "fst x \<le> rb_off b \<or> ?K \<le> rb_off (snd x)" 
    "fst x = ?K \<Longrightarrow> rb_off (snd x) = fst x"
    if "x \<in> set m" for x
    using k ok that rb_off_le_max[of "snd x"] rb_off_le_max[of b]
    by (fastforce simp: kept_ok_def chunks_ok_def apart_def)+
  have "fst x \<le> rb_off (snd y)"
    if xy: "x \<in> insert (?K, b) {x \<in> set m. fst x \<noteq> ?K}" "y \<in> insert (?K, b) {x \<in> set m. fst x \<noteq> ?K}"
      "fst x < fst y" for x y
  proof -
    consider "x \<in> set m" "y \<in> set m" | "x = (?K, b)" "y \<in> set m" | "x \<in> set m" "y = (?K, b)"
      using xy by auto
    then show ?thesis
    proof cases
      case 1
      then show ?thesis using ok xy(3) unfolding chunks_ok_def by blast
    next
      case 2
      then show ?thesis using ap(2)[OF 2(2)] xy(3) rb_off_le_max[of b] by simp
    next
      case 3
      then show ?thesis using ap(1,2)[OF 3(1)] xy(3) rb_off_le_max[of "snd x"] by simp
    qed
  qed
  then show "chunks_ok c ro (max hi ?K) E (bm_insert ?K b m)"
    unfolding chunks_ok_def ents using s ok b by (auto simp: chunks_ok_def)
  have "chunk_rng (snd x) = {}" if "x \<in> set m" "fst x = ?K" for x
    using ap(1,3)[OF that(1)] that(2) by (simp add: chunk_rng_def)
  then show "cover (bm_insert ?K b m) = cover m \<union> chunk_rng b"
    unfolding cover_def ents by fastforce
qed

text \<open>A piece waiting in the queue of \<open>write\<close>.\<close>

definition queued_ok :: "(nat \<Rightarrow> 'b) \<Rightarrow> nat \<Rightarrow> nat option \<Rightarrow> 'b range_buf \<Rightarrow> bool" where
  "queued_ok c ro E t \<longleftrightarrow> rb_agrees c t \<and> ro \<le> rb_max_off t \<and>
     (rb_off t < rb_max_off t \<longrightarrow> ro < rb_max_off t) \<and>
     (rb_off t = rb_max_off t \<longrightarrow> E = Some (rb_max_off t))"

definition top_of :: "nat \<Rightarrow> nat set \<Rightarrow> nat \<Rightarrow> bool" where
  "top_of hi S v \<longleftrightarrow> v \<in> insert hi S \<and> (\<forall>s \<in> insert hi S. s \<le> v)"

lemma top_of_singleton: "top_of hi {a} v \<longleftrightarrow> v = max hi a"
  by (auto simp: top_of_def)

lemma top_of_absorb:
  assumes t: "top_of h (S \<union> R) v" and h: "hi \<le> h" "h \<le> max hi a"
    and R: "\<forall>r \<in> R. r \<le> a" "a \<le> h \<or> (\<exists>r \<in> R. a \<le> r)"
  shows "top_of hi (insert a S) v"
proof -
  have all: "s \<le> v" if "s \<in> insert h (S \<union> R)" for s using t that unfolding top_of_def by blast
  have av: "a \<le> v" "hi \<le> v" "\<forall>s \<in> S. s \<le> v"
    using R(2) h(1) all by (meson UnI1 UnI2 insertI1 insertI2 le_trans)+
  have "v = h \<or> v \<in> S \<or> v \<in> R" using t by (auto simp: top_of_def)
  then have "v \<in> insert hi (insert a S)"
    using av(1,2) h(2) R(1) by (fastforce simp: max_def split: if_splits)
  then show ?thesis using av by (simp add: top_of_def)
qed

lemma trim_spec:
  assumes "queued_ok c ro E t"
  obtains buf where "(if ro > rb_off t then rb_advance t (ro - rb_off t) else Ok t) = Ok buf"
    "rb_agrees c buf" "ro \<le> rb_off buf" "rb_max_off buf = rb_max_off t"
    "rb_off buf = rb_max_off buf \<Longrightarrow> E = Some (rb_max_off buf)"
    "chunk_rng buf = chunk_rng t - {..<ro}"
proof (cases "ro > rb_off t")
  case True
  then have "ro - rb_off t \<le> rb_len t" using assms by (auto simp: queued_ok_def rb_max_off_def)
  then obtain buf where a: "rb_advance t (ro - rb_off t) = Ok buf" using rb_advance_Ok by blast
  note sp = rb_advance_spec[OF a]
  have "chunk_rng buf = chunk_rng t - {..<ro}" using sp(1,2) True by (auto simp: chunk_rng_def)
  moreover have "rb_off buf = rb_max_off buf \<Longrightarrow> E = Some (rb_max_off buf)" "ro \<le> rb_off buf"
    using sp(1,2) True assms rb_off_le_max[of t] by (auto simp: queued_ok_def)
  ultimately show ?thesis
    using sp(2,6) a True assms that[of buf] by (simp add: queued_ok_def)
next
  case False
  then have "chunk_rng t = chunk_rng t - {..<ro}" by (auto simp: chunk_rng_def)
  then show ?thesis using False assms that[of t] by (simp add: queued_ok_def)
qed

lemma write_loop_spec:
  assumes "chunks_ok c ro hi E m" "\<forall>t \<in> set tmp. queued_ok c ro E t"
  shows "\<exists>m' hi'. write_loop ro sd m hi tmp = Ok (m', hi') \<and> chunks_ok c ro hi' E m' \<and>
    top_of hi (rb_max_off ` set tmp) hi' \<and> (sd \<longrightarrow> m' = m) \<and>
    (\<not> sd \<longrightarrow> cover m' = cover m \<union> (lcover tmp - {..<ro}))"
  using assms
proof (induction ro sd m hi tmp rule: write_loop.induct)
  case (1 ro sd m hi)
  then show ?case by (simp add: top_of_def)
next
  case (2 ro sd m hi t tmp)
  obtain buf where b: "(if ro > rb_off t then rb_advance t (ro - rb_off t) else Ok t) = Ok buf"
    "rb_agrees c buf" "ro \<le> rb_off buf" "rb_max_off buf = rb_max_off t"
    "rb_off buf = rb_max_off buf \<Longrightarrow> E = Some (rb_max_off buf)"
    "chunk_rng buf = chunk_rng t - {..<ro}"
    using "2.prems"(2) by (auto elim: trim_spec)
  obtain kept rest where k: "(if rb_off buf < hi \<or> rb_is_empty buf
      then scan_overlap (map snd (bm_from (rb_off buf) m)) buf tmp else Ok (Some buf, tmp)) =
      Ok (kept, tmp @ rest)" "scan_ok c (map snd m) buf kept rest"
    using store_scan[OF "2.prems"(1) b(2)] by blast
  have rest: "\<forall>p \<in> set rest. rb_max_off p \<le> rb_max_off t \<and> queued_ok c ro E p" "lcover rest \<subseteq> chunk_rng buf"
    using k(2) b(3,4) by (fastforce simp: scan_ok_def queued_ok_def lcover_def chunk_rng_def)+
  have q: "\<forall>p \<in> set (tmp @ rest). queued_ok c ro E p" using rest(1) "2.prems"(2) by auto
  have mhi: "\<forall>x \<in> set (map snd m). rb_max_off x \<le> hi" using "2.prems"(1) by (auto simp: chunks_ok_def)
  show ?case
  proof (cases kept)
    case None
    have step: "write_loop ro sd m hi (t # tmp) = write_loop ro sd m hi (tmp @ rest)"
      using None by (simp only: write_loop.simps b(1) k(1) rbind.simps prod.case option.case)
    have dup: "chunk_rng buf \<subseteq> cover m \<union> lcover rest"
      "rb_max_off t \<le> hi \<or> (\<exists>x \<in> set rest. rb_max_off t \<le> rb_max_off x)"
      using k(2) None mhi b(4) by (fastforce simp: scan_ok_def lcover_snd)+
    obtain m' hi' where r: "write_loop ro sd m hi (tmp @ rest) = Ok (m', hi')" "chunks_ok c ro hi' E m'"
      "top_of hi (rb_max_off ` set (tmp @ rest)) hi'" "sd \<longrightarrow> m' = m"
      "\<not> sd \<longrightarrow> cover m' = cover m \<union> (lcover (tmp @ rest) - {..<ro})"
      using "2.IH"(1)[OF b(1) k(1) refl None "2.prems"(1) q] by blast
    have "top_of hi (rb_max_off ` set (t # tmp)) hi'"
      using r(3) dup(2) rest(1) top_of_absorb[of hi "rb_max_off ` set tmp" "rb_max_off ` set rest" hi']
      by (simp add: image_Un)
    moreover have "cover m \<union> (lcover (tmp @ rest) - {..<ro}) = cover m \<union> (lcover (t # tmp) - {..<ro})"
      using dup(1) rest(2) b(6) by auto
    ultimately show ?thesis using r step by metis
  next
    case (Some x)
    let ?m = "if sd then m else bm_insert (rb_max_off x) x m" and ?hi = "max hi (rb_max_off x)"
    have step: "write_loop ro sd m hi (t # tmp) = write_loop ro sd ?m ?hi (tmp @ rest)"
      using Some by (simp only: write_loop.simps b(1) k(1) rbind.simps prod.case option.case)
    have kx: "kept_ok c (map snd m) buf x rest" using k(2) Some by (simp add: scan_ok_def)
    have "chunks_ok c ro ?hi E ?m"
      using store_insert(1)[OF "2.prems"(1) kx b(3,5)] "2.prems"(1) by (auto intro: chunks_ok_hi)
    then obtain m' hi' where r: "write_loop ro sd ?m ?hi (tmp @ rest) = Ok (m', hi')" "chunks_ok c ro hi' E m'"
      "top_of ?hi (rb_max_off ` set (tmp @ rest)) hi'" "sd \<longrightarrow> m' = ?m"
      "\<not> sd \<longrightarrow> cover m' = cover ?m \<union> (lcover (tmp @ rest) - {..<ro})"
      using "2.IH"(2)[OF b(1) k(1) refl Some _ q] by blast
    have xt: "rb_max_off x \<le> rb_max_off t" "rb_max_off x = rb_max_off t \<or> (\<exists>r \<in> set rest. rb_max_off r = rb_max_off t)"
      using kx b(4) by (auto simp: kept_ok_def)
    have "rb_max_off t \<le> ?hi \<or> (\<exists>r \<in> rb_max_off ` set rest. rb_max_off t \<le> r)"
      using xt(2) by (auto intro: bexI[rotated])
    then have top: "top_of hi (rb_max_off ` set (t # tmp)) hi'"
      using r(3) xt(1) rest(1)
        top_of_absorb[of ?hi "rb_max_off ` set tmp" "rb_max_off ` set rest" hi' hi "rb_max_off t"]
      by (simp add: image_Un)
    have sub: "chunk_rng x \<subseteq> chunk_rng buf" "chunk_rng buf \<subseteq> cover m \<union> chunk_rng x \<union> lcover rest"
      using kx by (auto simp: kept_ok_def chunk_rng_def lcover_snd)
    have "cover m' = cover m \<union> (lcover (t # tmp) - {..<ro})" if "\<not> sd"
      using r(5) that store_insert(2)[OF "2.prems"(1) kx b(3,5)] sub rest(2) b(6) by auto
    moreover have "sd \<longrightarrow> m' = m" using r(4) by simp
    ultimately show ?thesis using r(1,2) top step by metis
  qed
qed

section \<open>The invariant of the receive buffer\<close>

declare write_loop.simps [simp del]

definition rv_fc_ok :: "flow_control \<Rightarrow> bool" where
  "rv_fc_ok fc \<longleftrightarrow> fc_max_data fc \<le> fc_read_off fc + fc_window fc \<and>
     fc_window fc \<le> fc_max_window fc \<and> fc_max_data fc \<le> u64_max"

definition rv_inv :: "(nat \<Rightarrow> 'b) \<Rightarrow> 'b recv_buf \<Rightarrow> bool" where
  "rv_inv c rv \<longleftrightarrow>
     chunks_ok c (rv_read_off rv) (rv_recv_off rv) (rv_fin_off rv) (rv_data rv) \<and>
     rv_read_off rv \<le> rv_recv_off rv \<and> rv_recv_off rv \<le> rv_max_data rv \<and>
     (\<forall>f. rv_fin_off rv = Some f \<longrightarrow> rv_recv_off rv \<le> f \<and> f \<le> rv_max_data rv) \<and>
     (rv_shutdown_flag rv \<longrightarrow> rv_data rv = []) \<and>
     fc_read_off (rv_flow_control rv) \<le> rv_read_off rv \<and> rv_fc_ok (rv_flow_control rv)"

lemma rv_inv_new: "w \<le> mw \<Longrightarrow> w \<le> u64_max \<Longrightarrow> rv_inv c (rv_new w mw)"
  by (simp add: rv_inv_def rv_new_def rv_max_data_def rv_fc_ok_def fc_new_def)

definition final_size_violation :: "'b recv_buf \<Rightarrow> nat \<Rightarrow> bool \<Rightarrow> bool" where
  "final_size_violation rv end_off fin \<longleftrightarrow>
     (\<exists>f. rv_fin_off rv = Some f \<and> (end_off > f \<or> fin \<and> f \<noteq> end_off)) \<or>
     fin \<and> end_off < rv_recv_off rv"

lemma rb_new_simps [simp]: "rb_off (rb_new d off fin) = off" "rb_fin (rb_new d off fin) = fin"
  "rb_max_off (rb_new d off fin) = off + length d" "rb_is_empty (rb_new d off fin) \<longleftrightarrow> d = []"
  "chunk_rng (rb_new d off fin) = {off..<off + length d}"
  by (simp_all add: rb_basic chunk_rng_def)

lemma chunks_ok_fin: "chunks_ok c ro hi None m \<Longrightarrow> chunks_ok c ro hi E m"
  unfolding chunks_ok_def by (metis option.distinct(1))

subsection \<open>Writing\<close>

lemma rv_write_eq:
  "rv_write rv off d fin =
    (let end_off = off + length d;
         rv1 = (if fin then rv\<lparr>rv_fin_off := Some end_off\<rparr> else rv)
     in if end_off > rv_max_data rv then (rv, Err FlowControlError)
        else if final_size_violation rv end_off fin then (rv, Err FinalSizeError)
        else if rv_is_fin rv then (rv, Ok ())
        else if d = [] \<and> \<not> fin \<or> end_off \<le> rv_read_off rv \<and> d \<noteq> [] then (rv1, Ok ())
        else attempt rv1
          (write_loop (rv_read_off rv) (rv_shutdown_flag rv) (rv_data rv) (rv_recv_off rv) [rb_new d off fin])
          (\<lambda>(m, hi). (rv1\<lparr>rv_data := m, rv_recv_off := hi\<rparr>, Ok ())))"
  unfolding rv_write_def Let_def final_size_violation_def by (cases "rv_fin_off rv") auto

text \<open>The fields a write leaves alone.\<close>

definition rv_frame :: "'b recv_buf \<Rightarrow> nat \<times> nat option \<times> bool \<times> flow_control \<times> string" where
  "rv_frame rv = (rv_read_off rv, rv_error rv, rv_shutdown_flag rv, rv_flow_control rv, rv_trace_id rv)"

text \<open>An accepted write: what it stores and where the received offset ends up.\<close>

definition rv_write_post ::
    "(nat \<Rightarrow> 'b) \<Rightarrow> 'b recv_buf \<Rightarrow> nat \<Rightarrow> 'b list \<Rightarrow> bool \<Rightarrow> 'b recv_buf \<Rightarrow> bool" where
  "rv_write_post c rv off d fin rv' \<longleftrightarrow> rv_inv c rv' \<and>
     rv_frame rv' = rv_frame rv \<and>
     rv_fin_off rv' = (if fin then Some (off + length d) else rv_fin_off rv) \<and>
     rv_recv_off rv' = (if d = [] \<and> \<not> fin then rv_recv_off rv
                        else max (rv_recv_off rv) (off + length d)) \<and>
     (\<not> rv_shutdown_flag rv \<longrightarrow>
        cover (rv_data rv') = cover (rv_data rv) \<union> ({off..<off + length d} - {..<rv_read_off rv}))"

lemma rv_write_accept:
  assumes inv: "rv_inv c rv" and ag: "rb_agrees c (rb_new d off fin)"
    and lim: "off + length d \<le> rv_max_data rv" and nv: "\<not> final_size_violation rv (off + length d) fin"
  shows "\<exists>rv'. rv_write rv off d fin = (rv', Ok ()) \<and> rv_write_post c rv off d fin rv'"
proof -
  let ?top = "off + length d"
  let ?rv1 = "if fin then rv\<lparr>rv_fin_off := Some ?top\<rparr> else rv"
  have viol: "\<And>f. rv_fin_off rv = Some f \<Longrightarrow> ?top \<le> f \<and> (fin \<longrightarrow> f = ?top)"
    "fin \<Longrightarrow> rv_recv_off rv \<le> ?top" using nv by (auto simp: final_size_violation_def)
  note eq = rv_write_eq[of rv off d fin]
  have eE: "rv_fin_off ?rv1 = rv_fin_off rv \<or> rv_fin_off rv = None"
    using viol(1) by (cases "rv_fin_off rv") auto
  have ck: "chunks_ok c (rv_read_off rv) (rv_recv_off rv) (rv_fin_off ?rv1) (rv_data rv)"
    using inv eE chunks_ok_fin unfolding rv_inv_def by metis
  have inv1: "rv_inv c ?rv1" using inv ck lim viol(2) by (auto simp: rv_inv_def rv_max_data_def)
  consider (fin) "rv_is_fin rv" | (skip) "\<not> rv_is_fin rv" "d = [] \<and> \<not> fin \<or> rv_read_off rv \<ge> ?top \<and> d \<noteq> []"
    | (store) "\<not> rv_is_fin rv" "\<not> (d = [] \<and> \<not> fin)" "\<not> (rv_read_off rv \<ge> ?top \<and> d \<noteq> [])" by blast
  then show ?thesis
  proof cases
    case fin
    then have "rv_write rv off d fin = (rv, Ok ())" using eq lim nv by simp
    moreover have "?top \<le> rv_read_off rv" "fin \<Longrightarrow> rv_fin_off rv = Some ?top"
      using viol(1) fin by (auto simp: rv_is_fin_def)
    ultimately show ?thesis using inv by (auto simp: rv_write_post_def rv_inv_def rv_frame_def)
  next
    case skip
    then have "rv_write rv off d fin = (?rv1, Ok ())" using eq lim nv by (simp add: Let_def)
    moreover have "{off..<?top} - {..<rv_read_off rv} = {}" "d \<noteq> [] \<Longrightarrow> ?top \<le> rv_recv_off rv"
      using skip(2) inv by (auto simp: rv_inv_def)
    ultimately show ?thesis using inv1 skip(2) by (auto simp: rv_write_post_def rv_frame_def)
  next
    case store
    have fr: "fin \<Longrightarrow> rv_read_off rv \<le> ?top" using viol(2) inv by (fastforce simp: rv_inv_def)
    then have q: "\<forall>t \<in> set [rb_new d off fin]. queued_ok c (rv_read_off rv) (rv_fin_off ?rv1) t"
      using ag store(2,3) by (cases "d = []") (auto simp: queued_ok_def)
    obtain m' hi' where r: "write_loop (rv_read_off rv) (rv_shutdown_flag rv) (rv_data rv)
        (rv_recv_off rv) [rb_new d off fin] = Ok (m', hi')"
      "chunks_ok c (rv_read_off rv) hi' (rv_fin_off ?rv1) m'" "hi' = max (rv_recv_off rv) ?top"
      "rv_shutdown_flag rv \<longrightarrow> m' = rv_data rv"
      "\<not> rv_shutdown_flag rv \<longrightarrow> cover m' = cover (rv_data rv) \<union> ({off..<?top} - {..<rv_read_off rv})"
      using write_loop_spec[OF ck q, of "rv_shutdown_flag rv"] by (auto simp: top_of_singleton)
    let ?rv' = "?rv1\<lparr>rv_data := m', rv_recv_off := hi'\<rparr>"
    have "rv_write rv off d fin = (?rv', Ok ())"
      using eq lim nv store r(1) by (auto simp: Let_def)
    moreover have "?top \<le> f" if "rv_fin_off rv = Some f" for f
      using nv that by (auto simp: final_size_violation_def)
    then have "rv_inv c ?rv'" using inv1 r(2-4) lim by (auto simp: rv_inv_def rv_max_data_def)
    ultimately show ?thesis using r(3,5) store(2) by (auto simp: rv_write_post_def rv_frame_def)
  qed
qed

lemma rv_write_cases:
  assumes "rv_inv c rv" "rb_agrees c (rb_new d off fin)"
  obtains (reject) e where "rv_write rv off d fin = (rv, Err e)"
      "e = FlowControlError \<and> rv_max_data rv < off + length d \<or>
       e = FinalSizeError \<and> final_size_violation rv (off + length d) fin"
    | (accept) rv' where "rv_write rv off d fin = (rv', Ok ())" "rv_write_post c rv off d fin rv'"
      "off + length d \<le> rv_max_data rv" "\<not> final_size_violation rv (off + length d) fin"
proof (cases "off + length d \<le> rv_max_data rv \<and> \<not> final_size_violation rv (off + length d) fin")
  case True
  then show ?thesis using rv_write_accept[OF assms] accept by blast
next
  case False
  then show ?thesis using reject rv_write_eq[of rv off d fin] by (auto simp: Let_def split: if_splits)
qed

lemma rv_write_inv:
  assumes "rv_inv c rv" "rb_agrees c (rb_new d off fin)"
  shows "rv_inv c (fst (rv_write rv off d fin)) \<and> snd (rv_write rv off d fin) \<noteq> Panic"
  using assms
proof (cases rule: rv_write_cases)
  case accept
  then show ?thesis by (simp add: rv_write_post_def)
qed (use assms(1) in simp_all)

subsection \<open>Reading\<close>

lemma chunks_ok_Cons:
  assumes "chunks_ok c ro hi E ((k, b) # m)"
  shows "k = rb_max_off b" "ro \<le> rb_off b" "rb_agrees c b" "k \<le> hi" "chunks_ok c k hi E m"
    "\<forall>x \<in> cover m. k \<le> x"
proof -
  have nxt: "k \<le> rb_off (snd e)" if "e \<in> set m" for e
    using assms that unfolding chunks_ok_def bm_sorted_Cons by (metis fst_conv list.set_intros)
  show "k = rb_max_off b" "ro \<le> rb_off b" "rb_agrees c b" "k \<le> hi"
    using assms by (auto simp: chunks_ok_def)
  show "chunks_ok c k hi E m"
    using assms nxt unfolding chunks_ok_def bm_sorted_Cons by (metis list.set_intros(2))
  show "\<forall>x \<in> cover m. k \<le> x" using nxt by (fastforce simp: cover_def chunk_rng_def)
qed

lemma chunks_ok_consume:
  assumes ok: "chunks_ok c ro hi E ((k, b) # m)" and o: "rb_off b = ro" and n: "n < rb_len b"
    and b': "rb_consume b n = Ok b'"
  shows "chunks_ok c (ro + n) hi E ((k, b') # m)" "chunk_rng b' = chunk_rng b - {..<ro + n}"
proof -
  have adv: "rb_advance b n = Ok b'" using b' by (simp add: rb_advance_def rb_consume_def)
  note sp = rb_advance_spec[OF adv] and cs = chunks_ok_Cons[OF ok]
  have lt: "rb_off b' < rb_max_off b'" using sp(1,2) n by (simp add: rb_max_off_def)
  have nxt: "k \<le> rb_off (snd e) \<and> k < fst e" if "e \<in> set m" for e
    using ok that unfolding chunks_ok_def bm_sorted_Cons by (metis fst_conv list.set_intros)
  have rest: "\<forall>e \<in> set m. ro + n \<le> rb_off (snd e)"
    using nxt sp(1,2) lt o cs(1) by (metis dual_order.trans less_imp_le)
  have "bm_sorted m" using ok unfolding chunks_ok_def bm_sorted_Cons by blast
  then have "bm_sorted ((k, b') # m)" using nxt unfolding bm_sorted_Cons by simp
  moreover have "fst e \<le> rb_off (snd e')"
    if e: "e \<in> set ((k, b') # m)" "e' \<in> set ((k, b') # m)" "fst e < fst e'" for e e'
  proof (cases "e \<in> set m \<and> e' \<in> set m")
    case True
    then show ?thesis using cs(5) e(3) unfolding chunks_ok_def by blast
  next
    case False
    then show ?thesis using e nxt[of e] nxt[of e'] by auto
  qed
  moreover have "\<forall>e \<in> set m. fst e = rb_max_off (snd e) \<and> fst e \<le> hi \<and> rb_agrees c (snd e) \<and>
      (rb_off (snd e) = fst e \<longrightarrow> E = Some (fst e))" using cs(5) unfolding chunks_ok_def by blast
  moreover have "k = rb_max_off b' \<and> ro + n \<le> rb_off b' \<and> k \<le> hi \<and> rb_agrees c b' \<and> rb_off b' \<noteq> k"
    using cs(1,3,4) sp(1,2,6) lt o by simp
  ultimately show "chunks_ok c (ro + n) hi E ((k, b') # m)"
    unfolding chunks_ok_def using rest by (metis fst_conv set_ConsD snd_conv)
  show "chunk_rng b' = chunk_rng b - {..<ro + n}"
    using sp(1,2) o by (auto simp: chunk_rng_def)
qed

lemma read_loop_spec:
  assumes "chunks_ok c ro hi E m"
  shows "\<exists>m' n. read_loop m ro cap out = Ok (m', ro + n, out @ map c [ro..<ro + n]) \<and> n \<le> cap \<and>
    {ro..<ro + n} \<subseteq> cover m \<and> cover m' = cover m - {..<ro + n} \<and> chunks_ok c (ro + n) hi E m' \<and>
    (n = cap \<or> ro + n \<notin> cover m)"
  using assms
proof (induction m ro cap out rule: read_loop.induct)
  case (1 ro cap out)
  then show ?case by (intro exI[of _ "[]"] exI[of _ 0]) simp
next
  case (2 k b m ro cap out)
  note cs = chunks_ok_Cons[OF "2.prems"]
  consider (stop) "\<not> (0 < cap \<and> rb_off b = ro)" | (part) "0 < cap" "rb_off b = ro" "cap < rb_len b"
    | (full) "0 < cap" "rb_off b = ro" "rb_len b \<le> cap" by linarith
  then show ?case
  proof cases
    case stop
    have cov: "\<forall>x \<in> cover ((k, b) # m). rb_off b \<le> x"
      using cs(1,6) rb_off_le_max[of b] by (fastforce simp: chunk_rng_def)
    then have "cap = 0 \<or> ro \<notin> cover ((k, b) # m)" using stop cs(2) by fastforce
    moreover have "cover ((k, b) # m) = cover ((k, b) # m) - {..<ro}" using cov cs(2) by fastforce
    ultimately show ?thesis using stop "2.prems"
      by (intro exI[of _ "(k, b) # m"] exI[of _ 0]) (auto simp: chunks_ready_def)
  next
    case part
    obtain b' where b': "rb_consume b cap = Ok b'" using part(3) by (simp add: rb_consume_def)
    have "take cap (rb_data b) = map c [ro..<ro + cap]"
      using cs(3) part(2,3) by (simp add: rb_agrees_def take_map rb_max_off_def)
    moreover have "{ro..<ro + cap} \<subseteq> chunk_rng b" "cover m = cover m - {..<ro + cap}"
      using part(2,3) cs(1,6) by (fastforce simp: chunk_rng_def rb_max_off_def)+
    ultimately show ?thesis using part b' chunks_ok_consume[OF "2.prems" part(2,3) b']
      by (intro exI[of _ "(k, b') # m"] exI[of _ cap]) (auto simp: chunks_ready_def Let_def)
  next
    case full
    let ?n = "rb_len b"
    have k: "k = ro + ?n" using cs(1) full(2) by (simp add: rb_max_off_def)
    have dat: "rb_data b = map c [ro..<ro + ?n]"
      using cs(3) full(2) by (simp add: rb_agrees_def rb_max_off_def)
    have rng: "chunk_rng b = {ro..<ro + ?n}" using full(2) by (simp add: chunk_rng_def rb_max_off_def)
    have c: "0 < cap \<and> chunks_ready ((k, b) # m) ro" using full by (simp add: chunks_ready_def)
    obtain m' n where r: "read_loop m (ro + ?n) (cap - ?n) (out @ rb_data b) =
        Ok (m', ro + ?n + n, (out @ rb_data b) @ map c [ro + ?n..<ro + ?n + n])" "n \<le> cap - ?n"
      "{ro + ?n..<ro + ?n + n} \<subseteq> cover m" "cover m' = cover m - {..<ro + ?n + n}"
      "chunks_ok c (ro + ?n + n) hi E m'" "n = cap - ?n \<or> ro + ?n + n \<notin> cover m"
      using "2.IH"[OF c refl refl] cs(5) k full(3) by (auto simp: rb_len_def)
    have "read_loop ((k, b) # m) ro cap out = Ok (m', ro + (?n + n), out @ map c [ro..<ro + (?n + n)])"
    proof -
      have "map c [ro..<ro + (?n + n)] = rb_data b @ map c [ro + ?n..<ro + ?n + n]"
        using upt_add_eq_append[of ro "ro + ?n" n] dat by (metis add.assoc le_add1 map_append)
      then show ?thesis using r(1) c full(3) by (simp add: Let_def add.assoc rb_len_def)
    qed
    moreover have "{ro..<ro + (?n + n)} = {ro..<ro + ?n} \<union> {ro + ?n..<ro + ?n + n}" by auto
    then have "cover m' = cover ((k, b) # m) - {..<ro + (?n + n)}" "{ro..<ro + (?n + n)} \<subseteq> cover ((k, b) # m)"
      using r(3,4) rng by auto
    moreover have "?n + n \<le> cap" "?n + n = cap \<or> ro + (?n + n) \<notin> cover ((k, b) # m)"
      using r(2,6) full(3) rng by (auto simp: add.assoc)
    moreover have "chunks_ok c (ro + (?n + n)) hi E m'" using r(5) by (simp add: add.assoc)
    ultimately show ?thesis by blast
  qed
qed

definition rv_read_post ::
    "(nat \<Rightarrow> 'b) \<Rightarrow> 'b recv_buf \<Rightarrow> nat \<Rightarrow> 'b recv_buf \<Rightarrow> 'b list \<Rightarrow> bool" where
  "rv_read_post c rv cap rv' out \<longleftrightarrow>
     (let ro = rv_read_off rv; n = length out in
      rv_inv c rv' \<and> out = map c [ro..<ro + n] \<and> n \<le> cap \<and> rv_read_off rv' = ro + n \<and>
      rv_recv_off rv' = rv_recv_off rv \<and> rv_fin_off rv' = rv_fin_off rv \<and>
      rv_error rv' = None \<and> rv_shutdown_flag rv' = rv_shutdown_flag rv \<and>
      {ro..<ro + n} \<subseteq> cover (rv_data rv) \<and>
      (n = cap \<or> ro + n \<notin> cover (rv_data rv)) \<and> cover (rv_data rv') = cover (rv_data rv) - {..<ro + n})"

lemma cover_bound: "chunks_ok c ro hi E m \<Longrightarrow> x \<in> cover m \<Longrightarrow> ro \<le> x \<and> x < hi"
  unfolding chunks_ok_def cover_def chunk_rng_def by fastforce

lemma rv_read_accept:
  assumes inv: "rv_inv c rv" and rdy: "rv_ready rv" and err: "rv_error rv = None"
  shows "\<exists>rv' out. rv_read rv cap = (rv', Ok (out, rv_is_fin rv')) \<and> rv_read_post c rv cap rv' out"
proof -
  let ?ro = "rv_read_off rv" and ?hi = "rv_recv_off rv"
  have ok: "chunks_ok c ?ro ?hi (rv_fin_off rv) (rv_data rv)" using inv by (simp add: rv_inv_def)
  obtain m' n where r: "read_loop (rv_data rv) ?ro cap [] = Ok (m', ?ro + n, map c [?ro..<?ro + n])"
    "n \<le> cap" "{?ro..<?ro + n} \<subseteq> cover (rv_data rv)" "cover m' = cover (rv_data rv) - {..<?ro + n}"
    "chunks_ok c (?ro + n) ?hi (rv_fin_off rv) m'" "n = cap \<or> ?ro + n \<notin> cover (rv_data rv)"
    using read_loop_spec[OF ok, of cap "[]"] by auto
  have hi: "?ro + n \<le> ?hi"
  proof (cases n)
    case 0
    then show ?thesis using inv by (simp add: rv_inv_def)
  next
    case (Suc k)
    then have "?ro + k \<in> cover (rv_data rv)" using r(3) by auto
    then show ?thesis using cover_bound[OF ok] Suc by fastforce
  qed
  let ?fc = "rv_flow_control rv"
  have "fc_read_off ?fc + n \<le> u64_max" using inv hi by (auto simp: rv_inv_def rv_fc_ok_def rv_max_data_def)
  then have fc: "fc_increase_read_off ?fc n = Ok (?fc\<lparr>fc_read_off := fc_read_off ?fc + n\<rparr>)"
    by (simp add: fc_increase_read_off_def)
  let ?rv' = "rv\<lparr>rv_data := m', rv_read_off := ?ro + n,
    rv_flow_control := ?fc\<lparr>fc_read_off := fc_read_off ?fc + n\<rparr>\<rparr>"
  have read: "rv_read rv cap = (?rv', Ok (map c [?ro..<?ro + n], rv_is_fin ?rv'))"
    using rdy err r(1) fc by (simp add: rv_read_def Let_def)
  have "rv_shutdown_flag rv \<Longrightarrow> rv_data rv = []" using inv by (simp add: rv_inv_def)
  then have "\<not> rv_shutdown_flag rv" using rdy by (auto simp: rv_ready_def chunks_ready_def)
  then have "rv_inv c ?rv'" using inv r(5) hi by (auto simp: rv_inv_def rv_max_data_def rv_fc_ok_def)
  then have "rv_read_post c rv cap ?rv' (map c [?ro..<?ro + n])"
    using r(2,3,4,6) err by (simp add: rv_read_post_def)
  then show ?thesis using read by blast
qed

lemma rv_read_inv:
  assumes "rv_inv c rv"
  shows "rv_inv c (fst (rv_read rv cap)) \<and> snd (rv_read rv cap) \<noteq> Panic"
proof (cases "rv_ready rv \<and> rv_error rv = None")
  case True
  then show ?thesis using rv_read_accept[OF assms, of cap] by (auto simp: rv_read_post_def Let_def)
next
  case False
  then show ?thesis using assms by (auto simp: rv_read_def rv_inv_def rv_max_data_def)
qed

subsection \<open>Reset and shutdown\<close>

text \<open>Chunks without bytes are the empty chunk at the final offset.\<close>

lemma chunks_ok_no_bytes:
  assumes "chunks_ok c ro hi (Some f) m" "cover m = {}"
  shows "chunks_ok c f hi (Some f) m"
proof -
  have "rb_off (snd e) = fst e \<and> fst e = f" if e: "e \<in> set m" for e
  proof -
    have "chunk_rng (snd e) = {}" using assms(2) e by (auto simp: cover_def)
    then have "rb_off (snd e) = fst e"
      using assms(1) e rb_off_le_max[of "snd e"] unfolding chunks_ok_def chunk_rng_def by fastforce
    then show ?thesis using assms(1) e unfolding chunks_ok_def by fastforce
  qed
  then show ?thesis using assms(1) unfolding chunks_ok_def by (metis order_refl)
qed

lemma rv_reset_accept:
  assumes inv: "rv_inv c rv" and fin: "\<forall>f. rv_fin_off rv = Some f \<longrightarrow> f = final"
    and hi: "rv_recv_off rv \<le> final" and lim: "final \<le> rv_max_data rv" and err: "rv_error rv = None"
  shows "\<exists>rv'. rv_reset rv e final = (rv', Ok (final - rv_recv_off rv)) \<and> rv_inv c rv' \<and>
    rv_is_complete rv' \<and> rv_error rv' = Some e \<and> rv_recv_off rv' = final \<and> rv_fin_off rv' = Some final \<and>
    cover (rv_data rv') = {} \<and> rv_flow_control rv' = rv_flow_control rv"
proof -
  let ?rv1 = "rv\<lparr>rv_error := Some e, rv_data := []\<rparr>"
  have inv1: "rv_inv c ?rv1" using inv by (simp add: rv_inv_def rv_max_data_def)
  have "\<not> final_size_violation ?rv1 (final + length []) True"
    using fin hi by (auto simp: final_size_violation_def)
  moreover have "rb_agrees c (rb_new [] final True)" by (simp add: rb_agrees_def rb_basic)
  ultimately obtain rv2 where w: "rv_write ?rv1 final [] True = (rv2, Ok ())"
    "rv_write_post c ?rv1 final [] True rv2"
    using rv_write_accept[OF inv1, of "[]" final True] lim by (auto simp: rv_max_data_def)
  have p: "rv_inv c rv2" "rv_fin_off rv2 = Some final" "rv_recv_off rv2 = final"
    "rv_frame rv2 = rv_frame ?rv1" "\<not> rv_shutdown_flag rv \<longrightarrow> cover (rv_data rv2) = {}"
    using w(2) hi by (auto simp: rv_write_post_def)
  have fr: "rv_shutdown_flag rv2 = rv_shutdown_flag rv" "rv_error rv2 = Some e"
    "rv_flow_control rv2 = rv_flow_control rv" "rv_read_off rv2 = rv_read_off rv"
    using p(4) by (simp_all add: rv_frame_def)
  have cov: "cover (rv_data rv2) = {}" using p(1,5) fr(1) by (cases "rv_shutdown_flag rv") (simp_all add: rv_inv_def)
  let ?rv' = "rv2\<lparr>rv_read_off := final\<rparr>"
  have "rv_reset rv e final = (?rv', Ok (final - rv_recv_off rv))"
    using fin hi err w(1) by (auto simp: rv_reset_def Let_def split: option.splits)
  moreover have "chunks_ok c final final (Some final) (rv_data rv2)"
    using p(1-3) cov chunks_ok_no_bytes by (metis rv_inv_def)
  then have "rv_inv c ?rv'" using p(1-3) fr(4) by (auto simp: rv_inv_def rv_max_data_def)
  ultimately show ?thesis using p fr cov by (auto simp: rv_is_complete_def)
qed

lemma rv_reset_inv:
  assumes inv: "rv_inv c rv"
  shows "rv_inv c (fst (rv_reset rv e final)) \<and> snd (rv_reset rv e final) \<noteq> Panic"
proof (cases "(\<forall>f. rv_fin_off rv = Some f \<longrightarrow> f = final) \<and> rv_recv_off rv \<le> final \<and> rv_error rv = None")
  case True
  show ?thesis
  proof (cases "final \<le> rv_max_data rv")
    case lim: True
    then show ?thesis using True rv_reset_accept[OF inv, of final e] by auto
  next
    case False
    let ?rv1 = "rv\<lparr>rv_error := Some e, rv_data := []\<rparr>"
    have "rv_write ?rv1 final [] True = (?rv1, Err FlowControlError)"
      using False by (simp add: rv_write_def Let_def rv_max_data_def)
    then have "rv_reset rv e final = (?rv1, Err FlowControlError)"
      using True by (auto simp: rv_reset_def Let_def split: option.splits)
    then show ?thesis using inv by (simp add: rv_inv_def rv_max_data_def)
  qed
next
  case False
  then show ?thesis using inv by (auto simp: rv_reset_def Let_def split: option.splits)
qed

lemma rv_shutdown_inv:
  assumes "rv_inv c rv"
  shows "rv_inv c (fst (rv_shutdown rv)) \<and> snd (rv_shutdown rv) \<noteq> Panic"
  using assms by (auto simp: rv_shutdown_def rv_inv_def rv_max_data_def Let_def sub64_def)

lemma rv_update_max_data_inv:
  assumes "rv_inv c rv"
  shows "rv_inv c (fst (rv_update_max_data rv now))"
  using assms
  by (auto simp: rv_update_max_data_def rv_inv_def rv_max_data_def rv_fc_ok_def fc_defs
      dest: order_trans split: attempt_split)

lemma rv_autotune_inv:
  assumes "rv_inv c rv"
  shows "rv_inv c (fst (rv_autotune_window rv now srtt))"
  using assms
  by (auto simp: rv_autotune_window_def rv_inv_def rv_max_data_def rv_fc_ok_def fc_defs
      split: attempt_split option.splits if_splits)

section \<open>Every sequence of operations\<close>

text \<open>
  The calls the stream manager makes on a receive buffer; \<open>rv_step\<close> hands out the bytes
  given to the application.
\<close>

datatype 'b rv_op =
    RvWrite nat "'b list" bool
  | RvRead nat
  | RvReset nat nat
  | RvShutdown
  | RvUpdateMaxData instant
  | RvAutotune instant duration

fun rv_step :: "'b rv_op \<Rightarrow> 'b recv_buf \<Rightarrow> 'b recv_buf \<times> 'b list" where
  "rv_step (RvWrite off d fin) rv = (fst (rv_write rv off d fin), [])"
| "rv_step (RvRead cap) rv =
     (case rv_read rv cap of (rv', Ok (out, _)) \<Rightarrow> (rv', out) | (rv', _) \<Rightarrow> (rv', []))"
| "rv_step (RvReset e final) rv = (fst (rv_reset rv e final), [])"
| "rv_step RvShutdown rv = (fst (rv_shutdown rv), [])"
| "rv_step (RvUpdateMaxData now) rv = (fst (rv_update_max_data rv now), [])"
| "rv_step (RvAutotune now srtt) rv = (fst (rv_autotune_window rv now srtt), [])"

text \<open>The peer's frames carry the bytes of the stream \<open>c\<close>.\<close>

fun rv_legal :: "(nat \<Rightarrow> 'b) \<Rightarrow> 'b rv_op \<Rightarrow> bool" where
  "rv_legal c (RvWrite off d fin) \<longleftrightarrow> d = map c [off..<off + length d]"
| "rv_legal c _ \<longleftrightarrow> True"

text \<open>A stream that has been reset or shut down delivers nothing any more.\<close>

definition rv_dead :: "'b recv_buf \<Rightarrow> bool" where
  "rv_dead rv \<longleftrightarrow> rv_error rv \<noteq> None \<or> rv_shutdown_flag rv"

definition rv_emits :: "(nat \<Rightarrow> 'b) \<Rightarrow> 'b recv_buf \<Rightarrow> 'b list \<Rightarrow> 'b recv_buf \<Rightarrow> bool" where
  "rv_emits c rv out rv' \<longleftrightarrow>
     out = map c [rv_read_off rv..<rv_read_off rv + length out] \<and>
     (rv_dead rv \<longrightarrow> out = [] \<and> rv_dead rv') \<and>
     (\<not> rv_dead rv' \<longrightarrow> rv_read_off rv' = rv_read_off rv + length out) \<and>
     (\<forall>f. rv_fin_off rv = Some f \<longrightarrow> rv_fin_off rv' = Some f) \<and>
     rv_recv_off rv \<le> rv_recv_off rv' \<and> rv_max_data rv \<le> rv_max_data rv' \<and>
     rv_read_off rv + length out \<le> rv_recv_off rv' \<and>
     fc_max_window (rv_flow_control rv') = fc_max_window (rv_flow_control rv)"

lemma rv_step_read: "fst (rv_step (RvRead cap) rv) = fst (rv_read rv cap)"
  by (auto split: prod.split res.split)

lemma rv_legal_agrees: "rv_legal c (RvWrite off d fin) \<longleftrightarrow> rb_agrees c (rb_new d off fin)"
  by (simp add: rb_agrees_def rb_basic)

lemma rv_step_inv:
  assumes "rv_inv c rv" "rv_legal c oper"
  shows "rv_inv c (fst (rv_step oper rv))"
proof (cases oper)
  case (RvWrite off d fin)
  then show ?thesis using rv_write_inv[OF assms(1)] assms(2) by (simp only: rv_legal_agrees rv_step.simps fst_conv)
next
  case (RvRead cap)
  then show ?thesis using rv_read_inv[OF assms(1)] by (simp only: rv_step_read)
qed (use assms(1) rv_reset_inv[THEN conjunct1] rv_shutdown_inv[THEN conjunct1] rv_update_max_data_inv rv_autotune_inv in simp_all)

lemma rv_emits_write:
  assumes "rv_inv c rv" "d = map c [off..<off + length d]"
  shows "rv_emits c rv [] (fst (rv_write rv off d fin))"
proof -
  have "rb_agrees c (rb_new d off fin)" using assms(2) by (simp add: rb_agrees_def rb_basic)
  with assms(1) show ?thesis
  proof (cases rule: rv_write_cases)
    case (accept rv')
    then show ?thesis
      by (auto simp: rv_emits_def rv_write_post_def rv_frame_def rv_dead_def rv_max_data_def
          final_size_violation_def rv_inv_def)
  qed (use assms(1) in \<open>simp add: rv_emits_def rv_inv_def\<close>)
qed

lemma rv_emits_read:
  assumes inv: "rv_inv c rv"
  shows "rv_emits c rv (snd (rv_step (RvRead cap) rv)) (fst (rv_step (RvRead cap) rv))"
proof (cases "rv_ready rv \<and> rv_error rv = None")
  case True
  then obtain rv' out where r: "rv_read rv cap = (rv', Ok (out, rv_is_fin rv'))" "rv_read_post c rv cap rv' out"
    using rv_read_accept[OF inv, of cap] by blast
  have "rv_max_data rv \<le> rv_max_data rv' \<and> fc_max_window (rv_flow_control rv') = fc_max_window (rv_flow_control rv)"
    using r(1) True by (auto simp: rv_read_def Let_def attempt_Ok fc_defs rv_max_data_def split: prod.splits)
  moreover have "\<not> rv_dead rv" using inv True
    by (auto simp: rv_dead_def rv_inv_def rv_ready_def chunks_ready_def)
  moreover have "rv_read_off rv' \<le> rv_recv_off rv'" using r(2) by (simp add: rv_read_post_def Let_def rv_inv_def)
  ultimately show ?thesis using r by (simp add: rv_emits_def rv_read_post_def Let_def)
next
  case False
  then show ?thesis using inv by (auto simp: rv_read_def rv_emits_def rv_dead_def rv_max_data_def rv_inv_def)
qed

lemma rv_emits_reset:
  assumes inv: "rv_inv c rv"
  shows "rv_emits c rv [] (fst (rv_reset rv e final))"
proof -
  let ?rv1 = "rv\<lparr>rv_error := Some e, rv_data := []\<rparr>"
  have inv1: "rv_inv c ?rv1" using inv by (simp add: rv_inv_def rv_max_data_def)
  have "rv_emits c ?rv1 [] (fst (rv_write ?rv1 final [] True))"
    by (rule rv_emits_write[OF inv1]) simp
  then show ?thesis
    using inv
    by (auto simp: rv_reset_def Let_def rv_emits_def rv_dead_def rv_max_data_def rv_inv_def
        split: option.splits prod.splits attempt_split)
qed

lemma rv_emits_shutdown: "rv_inv c rv \<Longrightarrow> rv_emits c rv [] (fst (rv_shutdown rv))"
  by (auto simp: rv_shutdown_def rv_emits_def rv_dead_def rv_max_data_def rv_inv_def Let_def
      split: attempt_split)

lemma rv_emits_fc:
  assumes "rv_inv c rv"
  shows "rv_emits c rv [] (fst (rv_update_max_data rv now))" "rv_emits c rv [] (fst (rv_autotune_window rv now srtt))"
  using assms
  by (auto simp: rv_update_max_data_def rv_autotune_window_def rv_emits_def rv_dead_def rv_max_data_def
      rv_inv_def rv_fc_ok_def fc_defs split: attempt_split option.splits if_splits)

lemma rv_step_emits:
  assumes "rv_inv c rv" "rv_legal c oper"
  shows "rv_emits c rv (snd (rv_step oper rv)) (fst (rv_step oper rv))"
proof (cases oper)
  case (RvRead cap)
  then show ?thesis using rv_emits_read[OF assms(1)] by blast
qed (use assms rv_emits_write rv_emits_reset rv_emits_shutdown rv_emits_fc in simp_all)

lemma rv_emits_trans:
  assumes "rv_emits c s out s'" "rv_emits c s' out' s''"
  shows "rv_emits c s (out @ out') s''"
proof (cases "rv_dead s'")
  case True
  then show ?thesis using assms by (auto simp: rv_emits_def)
next
  case False
  then have "rv_read_off s' = rv_read_off s + length out" using assms(1) by (simp add: rv_emits_def)
  moreover have "out @ out' = map c [rv_read_off s..<rv_read_off s + length out + length out']"
    using assms calculation unfolding rv_emits_def by (metis le_add1 map_append upt_add_eq_append)
  ultimately show ?thesis using assms False by (auto simp: rv_emits_def add.assoc)
qed

lemma rv_step_draining:
  assumes "rv_inv c rv" "rv_shutdown_flag rv" "rv_legal c oper" "\<forall>e final. oper \<noteq> RvReset e final"
  shows "rv_shutdown_flag (fst (rv_step oper rv)) \<and> rv_read_off (fst (rv_step oper rv)) = rv_read_off rv \<and>
    snd (rv_step oper rv) = []"
proof (cases oper)
  case (RvWrite off d fin)
  have "rb_agrees c (rb_new d off fin)" using assms(3) RvWrite by (simp only: rv_legal_agrees)
  with assms(1) show ?thesis
    by (cases rule: rv_write_cases) (use assms(2) RvWrite in \<open>auto simp: rv_write_post_def rv_frame_def\<close>)
next
  case (RvRead cap)
  then show ?thesis using assms(1,2) by (simp add: rv_inv_def rv_read_def rv_ready_def chunks_ready_def)
qed (use assms(2,4) in \<open>auto simp: rv_shutdown_def rv_update_max_data_def rv_autotune_window_def
  split: attempt_split\<close>)

interpretation rv: op_machine rv_step "rv_legal c" "rv_inv c" "rv_emits c" for c :: "nat \<Rightarrow> 'b"
proof
  show "rv_emits c s [] s" if "rv_inv c s" for s :: "'b recv_buf"
    using that by (simp add: rv_emits_def rv_inv_def)
qed (fact rv_step_inv rv_step_emits rv_emits_trans)+

lemma rv_run_draining:
  "rv_inv c rv \<Longrightarrow> rv_shutdown_flag rv \<Longrightarrow>
    \<forall>oper \<in> set ops. rv_legal c oper \<and> (\<forall>e final. oper \<noteq> RvReset e final) \<Longrightarrow>
    rv_read_off (fst (run_ops rv_step rv ops)) = rv_read_off rv \<and> snd (run_ops rv_step rv ops) = []"
proof (induction ops arbitrary: rv)
  case (Cons oper ops)
  then show ?case using rv_step_inv[OF Cons.prems(1), of oper] rv_step_draining[OF Cons.prems(1,2), of oper]
    by (simp add: split_beta)
qed simp

section \<open>Properties\<close>

text \<open>Evaluation on concrete inputs.\<close>

lemmas rv_eval = rv_new_def fc_new_def rv_write_def rv_read_def rv_max_data_def rv_is_fin_def rv_ready_def
  chunks_ready_def rb_basic rb_advance_def rb_consume_def rb_split_off_def bm_from_def write_loop.simps
  fc_increase_read_off_def add64_def u64_max_def upt_rec

text \<open>
  C5: Reassembly is exact. Start with a fresh receive buffer whose initial window is at most
  its maximum window, and feed it any sequence of operations (frames in any order, duplicated
  and overlapping, reads of any size, resets, shutdowns, window updates) whose frames carry the
  bytes of one stream \<open>c\<close>. The bytes handed to the application, in order, are exactly
  the first bytes of \<open>c\<close>; while the stream is neither reset nor shut down there are
  exactly \<open>read_off\<close> of them, and the buffer never holds more than flow control allows.
\<close>

theorem recv_stream_exact:
  fixes c :: "nat \<Rightarrow> 'b"
  assumes "w \<le> mw" "w \<le> u64_max" "\<forall>oper \<in> set ops. rv_legal c oper"
  defines "res \<equiv> run_ops rv_step (rv_new w mw) ops"
  shows "snd res = map c [0..<length (snd res)] \<and>
    (\<not> rv_dead (fst res) \<longrightarrow> rv_read_off (fst res) = length (snd res)) \<and>
    rv_read_off (fst res) \<le> rv_recv_off (fst res) \<and> rv_recv_off (fst res) \<le> rv_max_data (fst res)"
proof -
  have "rv_inv c (fst res) \<and> rv_emits c (rv_new w mw) (snd res) (fst res)"
    unfolding res_def using rv.run_ok[OF rv_inv_new[OF assms(1,2)] assms(3)] .
  then show ?thesis by (simp add: rv_emits_def rv_inv_def rv_new_def)
qed

theorem recv_stream_exact_witness:
  "snd (run_ops rv_step (rv_new 100 200)
      [RvWrite 3 [3, 4, 5 :: nat] True, RvWrite 0 [0, 1, 2, 3] False, RvRead 4, RvRead 10]) =
    map (\<lambda>i. i) [0..<6]"
  using recv_stream_exact[of 100 200
      "[RvWrite 3 [3, 4, 5 :: nat] True, RvWrite 0 [0, 1, 2, 3] False, RvRead 4, RvRead 10]" "\<lambda>i. i"]
  by (simp add: rv_eval)

text \<open>
  C9: No byte is lost or invented by an accepted frame: in a well-formed buffer that is not
  shut down, \<open>write\<close> succeeds exactly when the frame respects the flow control limit and
  the final size, it never panics, and afterwards the buffered offsets are those buffered
  before together with the unread part of the frame. A rejected frame leaves the buffer
  unchanged.
\<close>

theorem recv_write_complete:
  assumes "rv_inv c rv" "\<not> rv_shutdown_flag rv" "d = map c [off..<off + length d]"
  shows "case rv_write rv off d fin of
      (rv', Ok _) \<Rightarrow> off + length d \<le> rv_max_data rv \<and> \<not> final_size_violation rv (off + length d) fin \<and>
        rv_inv c rv' \<and> rv_read_off rv' = rv_read_off rv \<and>
        cover (rv_data rv') = cover (rv_data rv) \<union> ({off..<off + length d} - {..<rv_read_off rv})
    | (rv', Err e) \<Rightarrow> rv' = rv \<and>
        (e = FlowControlError \<and> rv_max_data rv < off + length d \<or>
         e = FinalSizeError \<and> final_size_violation rv (off + length d) fin)
    | (rv', Panic) \<Rightarrow> False"
proof -
  have "rb_agrees c (rb_new d off fin)" using assms(3) by (simp add: rb_agrees_def rb_basic)
  with assms(1) show ?thesis
    by (cases rule: rv_write_cases) (use assms(2) in \<open>auto simp: rv_write_post_def rv_frame_def\<close>)
qed

lemma rv_inv_demo:
  "rv_inv (\<lambda>i. i) (fst (rv_write (rv_new 100 200) 3 [3, 4, 5] True))"
  using rv_write_inv[OF rv_inv_new[of 100 200 "\<lambda>i. i"], of "[3, 4, 5]" 3 True]
  by (simp add: rb_agrees_def rv_eval)

theorem recv_write_complete_witness:
  "case rv_write (fst (rv_write (rv_new 100 200) 3 [3, 4, 5 :: nat] True)) 0 [0, 1, 2, 3] False of
     (rv', Ok _) \<Rightarrow> cover (rv_data rv') = {0..<6} | _ \<Rightarrow> False"
proof -
  let ?rv = "fst (rv_write (rv_new 100 200) 3 [3, 4, 5 :: nat] True)"
  have "\<not> rv_shutdown_flag ?rv" "snd (rv_write ?rv 0 [0, 1, 2, 3] False) = Ok ()" "rv_read_off ?rv = 0"
    "map (\<lambda>e. (rb_off (snd e), rb_max_off (snd e))) (rv_data ?rv) = [(3, 6)]" by (simp_all add: rv_eval)
  moreover have "cover (rv_data ?rv) = {3..<6}"
    using calculation(4) by (auto simp: cover_def chunk_rng_def)
  ultimately show ?thesis
    using recv_write_complete[OF rv_inv_demo, of "[0, 1, 2, 3]" 0 False]
    by (auto split: prod.splits res.splits simp: upt_rec)
qed

text \<open>
  C20: A read hands out the longest contiguous run. On a well-formed buffer with data at the
  read offset and no reset pending, \<open>read\<close> into a buffer of \<open>cap\<close> bytes
  succeeds; it returns the stream bytes from the read offset on, as many as are contiguously
  available or as fit; the read offset advances by exactly that number; the flag says whether
  the final offset has been reached; and a call with room for a byte either makes progress or
  reports the end of the stream.
\<close>

theorem recv_read_maximal:
  assumes "rv_inv c rv" "rv_ready rv" "rv_error rv = None"
  shows "\<exists>rv' out. rv_read rv cap = (rv', Ok (out, rv_fin_off rv = Some (rv_read_off rv'))) \<and> rv_inv c rv' \<and>
    rv_read_off rv' = rv_read_off rv + length out \<and> length out \<le> cap \<and>
    out = map c [rv_read_off rv..<rv_read_off rv + length out] \<and>
    (length out = cap \<or> rv_read_off rv' \<notin> cover (rv_data rv)) \<and>
    (0 < cap \<longrightarrow> out \<noteq> [] \<or> rv_fin_off rv = Some (rv_read_off rv'))"
proof -
  obtain rv' out where r: "rv_read rv cap = (rv', Ok (out, rv_is_fin rv'))" "rv_read_post c rv cap rv' out"
    using rv_read_accept[OF assms] by blast
  have f: "rv_is_fin rv' \<longleftrightarrow> rv_fin_off rv = Some (rv_read_off rv')"
    using r(2) by (simp add: rv_is_fin_def rv_read_post_def Let_def)
  have "rv_fin_off rv = Some (rv_read_off rv)" if "rv_read_off rv \<notin> cover (rv_data rv)"
  proof -
    obtain k b m where d: "rv_data rv = (k, b) # m" "rb_off b = rv_read_off rv"
      using assms(2) by (auto simp: rv_ready_def chunks_ready_def split: list.splits)
    have "chunks_ok c (rv_read_off rv) (rv_recv_off rv) (rv_fin_off rv) ((k, b) # m)"
      using assms(1) d(1) by (simp add: rv_inv_def)
    moreover have "rb_off b = rb_max_off b"
      using that d rb_off_le_max[of b] by (auto simp: chunk_rng_def)
    ultimately show ?thesis using d(2) by (auto simp: chunks_ok_def)
  qed
  then have "out \<noteq> [] \<or> rv_fin_off rv = Some (rv_read_off rv')" if "0 < cap"
    using r(2) that by (auto simp: rv_read_post_def Let_def)
  then show ?thesis using r f by (auto simp: rv_read_post_def Let_def)
qed

lemma rv_inv_demo2:
  "rv_inv (\<lambda>i. i) (fst (rv_write (rv_new 100 200) 0 [0, 1, 2, 3] False))"
  using rv_write_inv[OF rv_inv_new[of 100 200 "\<lambda>i. i"], of "[0, 1, 2, 3]" 0 False]
  by (simp add: rb_agrees_def rv_eval)

theorem recv_read_maximal_witness:
  "\<exists>rv'. rv_read (fst (rv_write (rv_new 100 200) 0 [0, 1, 2, 3 :: nat] False)) 3 = (rv', Ok ([0, 1, 2], False)) \<and>
    rv_inv (\<lambda>i. i) rv'"
proof -
  let ?rv = "fst (rv_write (rv_new 100 200) 0 [0, 1, 2, 3 :: nat] False)"
  have "rv_ready ?rv" "rv_error ?rv = None" "snd (rv_read ?rv 3) = Ok ([0, 1, 2], False)" by (simp_all add: rv_eval)
  then show ?thesis using recv_read_maximal[OF rv_inv_demo2, of 3] by fastforce
qed

text \<open>
  C24: The final size is immutable and binding. Once a well-formed buffer knows the final size
  of the stream, no sequence of frames, reads, resets and shutdowns changes it or moves an offset beyond it. In every
  state that follows, a STREAM frame that ends behind it or announces another one is refused with FinalSizeError
  (with FlowControlError when it also exceeds the stream's limit), a RESET_STREAM with another
  final size is refused with FinalSizeError, and the refusal leaves the buffer as it was.
\<close>

theorem recv_final_size_fixed:
  fixes c :: "nat \<Rightarrow> 'b"
  assumes "rv_inv c rv" "\<forall>oper \<in> set ops. rv_legal c oper" "rv_fin_off rv = Some f"
  defines "res \<equiv> run_ops rv_step rv ops"
  shows "rv_fin_off (fst res) = Some f \<and> rv_recv_off (fst res) \<le> f \<and>
    rv_read_off rv + length (snd res) \<le> f \<and>
    (\<forall>off d fin. off + length d > f \<or> fin \<and> off + length d \<noteq> f \<longrightarrow>
       rv_write (fst res) off d fin =
         (fst res, Err (if off + length d > rv_max_data (fst res) then FlowControlError else FinalSizeError))) \<and>
    (\<forall>e final. final \<noteq> f \<longrightarrow> rv_reset (fst res) e final = (fst res, Err FinalSizeError))"
proof -
  have i: "rv_inv c (fst res)" and e: "rv_emits c rv (snd res) (fst res)"
    unfolding res_def using rv.run_ok[OF assms(1,2)] by blast+
  have "rv_fin_off (fst res) = Some f" "rv_read_off rv + length (snd res) \<le> rv_recv_off (fst res)"
    using e assms(3) by (simp_all add: rv_emits_def)
  then show ?thesis using i by (auto simp: rv_inv_def rv_write_def rv_reset_def rb_basic)
qed

theorem recv_final_size_fixed_witness:
  "let rv = fst (run_ops rv_step (fst (rv_write (rv_new 100 200) 3 [3, 4, 5 :: nat] True))
       [RvWrite 6 [6] False, RvWrite 0 [0, 1, 2] False, RvRead 9])
   in rv_fin_off rv = Some 6 \<and> rv_recv_off rv \<le> 6 \<and> snd (rv_write rv 4 [4] True) = Err FinalSizeError \<and>
      snd (rv_write rv 200 [] False) = Err FlowControlError \<and> snd (rv_reset rv 0 9) = Err FinalSizeError"
proof -
  let ?ops = "[RvWrite 6 [6] False, RvWrite 0 [0, 1, 2] False, RvRead 9] :: nat rv_op list"
  let ?start = "fst (rv_write (rv_new 100 200) 3 [3, 4, 5 :: nat] True)"
  define rv where "rv = fst (run_ops rv_step ?start ?ops)"
  have "\<forall>oper \<in> set ?ops. rv_legal (\<lambda>i. i) oper" "rv_fin_off ?start = Some 6" by (simp_all add: rv_eval)
  note fixed = recv_final_size_fixed[OF rv_inv_demo this, folded rv_def]
  have "snd (rv_write rv off d fin) = Err (if off + length d > rv_max_data rv then FlowControlError else FinalSizeError)"
    if "off + length d > 6 \<or> fin \<and> off + length d \<noteq> 6" for off d fin using fixed that by auto
  from this[of 4 "[4]" True] this[of 200 "[]" False]
  have "snd (rv_write rv 4 [4] True) = Err (if 5 > rv_max_data rv then FlowControlError else FinalSizeError)"
    "snd (rv_write rv 200 [] False) = Err (if 200 > rv_max_data rv then FlowControlError else FinalSizeError)" by simp_all
  moreover have "rv_max_data rv = 100" unfolding rv_def by (simp add: rv_eval)
  moreover have "snd (rv_reset rv 0 9) = Err FinalSizeError" using fixed by simp
  ultimately show ?thesis using fixed unfolding rv_def[symmetric] by (simp add: Let_def)
qed

text \<open>
  C25: A reset ends the receive side. If the final size of a RESET_STREAM frame is consistent
  with what was received and with flow control, \<open>reset\<close> succeeds, returns the number of
  bytes the connection still has to account for, discards all data, completes the receive
  side, and the next read reports the error code to the application.
\<close>

theorem recv_reset_completes:
  assumes "rv_inv c rv" "rv_error rv = None" "\<not> rv_shutdown_flag rv" "\<not> rv_is_fin rv"
    "final \<le> rv_max_data rv" "\<not> final_size_violation rv final True"
  shows "\<exists>rv'. rv_reset rv e final = (rv', Ok (final - rv_recv_off rv)) \<and> rv_inv c rv' \<and>
    rv_is_complete rv' \<and> cover (rv_data rv') = {} \<and> snd (rv_read rv' cap) = Err (StreamReset e)"
proof -
  have fin: "\<forall>f. rv_fin_off rv = Some f \<longrightarrow> f = final" "rv_recv_off rv \<le> final"
    using assms(6) by (auto simp: final_size_violation_def)
  then obtain rv' where r: "rv_reset rv e final = (rv', Ok (final - rv_recv_off rv))" "rv_inv c rv'"
    "rv_is_complete rv'" "rv_error rv' = Some e" "cover (rv_data rv') = {}"
    using rv_reset_accept[OF assms(1) fin assms(5,2)] by blast
  have "rv_read_off rv \<le> final" using fin(2) assms(1) by (simp add: rv_inv_def)
  then have "rv_write (rv\<lparr>rv_error := Some e, rv_data := []\<rparr>) final [] True =
      (rv\<lparr>rv_error := Some e, rv_fin_off := Some final, rv_data := [(final, rb_new [] final True)],
        rv_recv_off := max (rv_recv_off rv) final\<rparr>, Ok ())"
    using assms(3-6)
    by (simp add: rv_write_eq Let_def rv_max_data_def rv_is_fin_def final_size_violation_def
        write_loop.simps bm_from_def)
  then have "rv_ready rv'"
    using r(1) fin assms(2)
    by (auto simp: rv_reset_def Let_def rv_ready_def chunks_ready_def split: option.splits if_splits)
  then have "snd (rv_read rv' cap) = Err (StreamReset e)" using r(4) by (simp add: rv_read_def)
  then show ?thesis using r by blast
qed

theorem recv_reset_completes_witness:
  "\<exists>rv'. rv_reset (fst (rv_write (rv_new 100 200) 0 [0, 1, 2, 3 :: nat] False)) 7 9 = (rv', Ok 5) \<and>
    rv_is_complete rv' \<and> snd (rv_read rv' 1) = Err (StreamReset 7)"
proof -
  let ?rv = "fst (rv_write (rv_new 100 200) 0 [0, 1, 2, 3 :: nat] False)"
  have "rv_error ?rv = None" "\<not> rv_shutdown_flag ?rv" "\<not> rv_is_fin ?rv" "9 \<le> rv_max_data ?rv"
    "\<not> final_size_violation ?rv 9 True" "9 - rv_recv_off ?rv = 5"
    by (simp_all add: rv_eval final_size_violation_def)
  then show ?thesis using recv_reset_completes[OF rv_inv_demo2, of 9 7 1] by auto
qed

text \<open>
  C26: What completes a receive side that was shut down. From \<open>shutdown\<close> on nothing is handed to the
  application and the read offset stays where the received data ended. Without a RESET_STREAM, in any sequence of
  frames, reads and window updates, the receive side is complete exactly when the stream turns out to end there:
  as soon as the peer's data goes further it never completes, although all of it is discarded.
\<close>

theorem recv_shutdown_completion:
  fixes c :: "nat \<Rightarrow> 'b"
  assumes "rv_inv c rv0" "rv_shutdown rv0 = (rv, Ok n)"
    "\<forall>oper \<in> set ops. rv_legal c oper \<and> (\<forall>e final. oper \<noteq> RvReset e final)"
  defines "res \<equiv> run_ops rv_step rv ops"
  shows "snd res = [] \<and> rv_read_off (fst res) = rv_recv_off rv0 \<and>
    (rv_is_complete (fst res) \<longleftrightarrow> rv_fin_off (fst res) = Some (rv_recv_off rv0)) \<and>
    (rv_recv_off (fst res) > rv_recv_off rv0 \<longrightarrow> \<not> rv_is_complete (fst res))"
proof -
  have rv: "rv_inv c rv" "rv_shutdown_flag rv" "rv_read_off rv = rv_recv_off rv0"
    using rv_shutdown_inv[THEN conjunct1, OF assms(1)] assms(2) by (auto simp: rv_shutdown_def Let_def split: if_splits attempt_splits)
  have ops: "\<forall>oper \<in> set ops. rv_legal c oper" using assms(3) by blast
  have "rv_inv c (fst res)" unfolding res_def using rv.run_inv[OF rv(1) ops] .
  moreover have "snd res = []" "rv_read_off (fst res) = rv_read_off rv"
    unfolding res_def using rv_run_draining[OF rv(1,2) assms(3)] by simp_all
  ultimately show ?thesis using rv(3) by (auto simp: rv_is_complete_def rv_inv_def)
qed

theorem recv_shutdown_completion_witness:
  "let rv = fst (rv_shutdown (rv_new 100 200)) in
   \<not> rv_is_complete (fst (run_ops rv_step rv [RvWrite 0 [0, 1 :: nat] True, RvRead 5])) \<and>
   rv_is_complete (fst (run_ops rv_step rv [RvRead 5, RvWrite 0 [] True]))"
proof -
  let ?rv = "fst (rv_shutdown (rv_new 100 200)) :: nat recv_buf"
  have s: "rv_shutdown (rv_new 100 200) = (?rv, Ok 0)" by (simp add: rv_eval rv_shutdown_def sub64_def)
  have i: "rv_inv (\<lambda>i. i) (rv_new 100 200 :: nat recv_buf)" "rv_recv_off (rv_new 100 200 :: nat recv_buf) = 0"
    using rv_inv_new[of 100 200 "\<lambda>i. i"] by (simp_all add: u64_max_def rv_new_def)
  have iff: "rv_is_complete (fst (run_ops rv_step ?rv ops)) \<longleftrightarrow> rv_fin_off (fst (run_ops rv_step ?rv ops)) = Some 0"
    if "\<forall>oper \<in> set ops. rv_legal (\<lambda>i. i) oper \<and> (\<forall>e final. oper \<noteq> RvReset e final)" for ops
    using recv_shutdown_completion[OF i(1) s that] i(2) by simp
  have "rv_fin_off (fst (run_ops rv_step ?rv [RvWrite 0 [0, 1] True, RvRead 5])) = Some 2"
    "rv_fin_off (fst (run_ops rv_step ?rv [RvRead 5, RvWrite 0 [] True])) = Some 0" by code_simp+
  then show ?thesis unfolding Let_def by (subst (1 2) iff) (simp_all add: upt_rec del: run_ops.simps)
qed

end
