(* ===== verification/Range_Set.thy ===== *)
theory Range_Set
  imports Btree_Map Quic_Error
begin

text \<open>
  \<open>RangeSet\<close> of \<open>src/src/ranges.rs\<close>: a set of \<open>u64\<close> values kept as a map from the
  start of each range to its (exclusive) end, with a bound on the number of ranges.
  The first part is the code; the second the representation invariant, the set a
  \<open>RangeSet\<close> stands for, and the effect of every operation on it; the third states the
  contract as a locale for the components that keep range sets (send buffers, stream
  concurrency) and interprets it.
\<close>

section \<open>The code\<close>

type_synonym range = "nat \<times> nat"

definition range_is_empty :: "range \<Rightarrow> bool" where
  "range_is_empty r \<longleftrightarrow> \<not> fst r < snd r"

definition range_contains :: "range \<Rightarrow> nat \<Rightarrow> bool" where
  "range_contains r x \<longleftrightarrow> fst r \<le> x \<and> x < snd r"

record range_set =
  rs_set :: "(nat, nat) bmap"
  rs_capacity :: nat

definition rs_new :: "nat \<Rightarrow> range_set" where
  "rs_new cap = \<lparr>rs_set = [], rs_capacity = cap\<rparr>"

definition rs_default :: range_set where
  "rs_default = rs_new usize_max"

text \<open>Find the closest range that begins at or before, at or after, after \<open>elem\<close>.\<close>

definition prev_to :: "(nat, nat) bmap \<Rightarrow> nat \<Rightarrow> range option" where
  "prev_to m elem = bm_last (bm_upto elem m)"

definition next_to :: "(nat, nat) bmap \<Rightarrow> nat \<Rightarrow> range option" where
  "next_to m elem = bm_first (bm_from elem m)"

definition next_after :: "(nat, nat) bmap \<Rightarrow> nat \<Rightarrow> range option" where
  "next_after m elem = bm_first (bm_after elem m)"

text \<open>The \<open>while let\<close> loop of \<open>insert\<close>: absorb following ranges that touch.\<close>

function insert_absorb :: "nat \<Rightarrow> nat \<Rightarrow> (nat, nat) bmap \<Rightarrow> nat \<times> (nat, nat) bmap" where
  "insert_absorb start end m =
     (case next_to m start of
        None \<Rightarrow> (end, m)
      | Some r \<Rightarrow>
          if fst r > end then (end, m)
          else insert_absorb start (max (snd r) end) (bm_remove (fst r) m))"
  by pat_completeness auto

lemma next_to_in_set: "next_to m x = Some r \<Longrightarrow> r \<in> set m"
  unfolding next_to_def by (drule bm_first_SomeD) (simp add: bm_from_def)

termination insert_absorb
  by (relation "measure (\<lambda>(_, _, m). length m)")
    (auto intro: length_bm_remove_less dest: next_to_in_set)

declare insert_absorb.simps [simp del]

definition rs_len :: "range_set \<Rightarrow> nat" where
  "rs_len s = length (rs_set s)"

definition rs_is_empty :: "range_set \<Rightarrow> bool" where
  "rs_is_empty s \<longleftrightarrow> rs_set s = []"

text \<open>The tail of \<open>insert\<close>, after the preceding range has been looked at.\<close>

definition insert_from :: "nat \<Rightarrow> range \<Rightarrow> (nat, nat) bmap \<Rightarrow> (nat, nat) bmap" where
  "insert_from cap r m =
     (let (end, m1) = insert_absorb (fst r) (snd r) m;
          m2 = (if length m1 \<ge> cap then bm_pop_first m1 else m1)
      in bm_insert (fst r) end m2)"

definition rs_insert :: "range_set \<Rightarrow> range \<Rightarrow> range_set" where
  "rs_insert s rng =
     (if range_is_empty rng then s
      else case prev_to (rs_set s) (fst rng) of
        None \<Rightarrow> s\<lparr>rs_set := insert_from (rs_capacity s) rng (rs_set s)\<rparr>
      | Some r \<Rightarrow>
          if snd r \<ge> snd rng then s
          else if snd r \<ge> fst rng then
            s\<lparr>rs_set := insert_from (rs_capacity s) (fst r, snd rng)
                         (bm_remove (fst r) (rs_set s))\<rparr>
          else s\<lparr>rs_set := insert_from (rs_capacity s) rng (rs_set s)\<rparr>)"

definition rs_add_elem :: "range_set \<Rightarrow> nat \<Rightarrow> range_set qres" where
  "rs_add_elem s elem = rbind (add64 elem 1) (\<lambda>end. Ok (rs_insert s (elem, end)))"

text \<open>The \<open>while let\<close> loop of \<open>remove\<close>.\<close>

function remove_following :: "nat \<Rightarrow> nat \<Rightarrow> (nat, nat) bmap \<Rightarrow> (nat, nat) bmap" where
  "remove_following start end m =
     (case next_to m start of
        None \<Rightarrow> m
      | Some r \<Rightarrow>
          if fst r > end then m
          else if snd r > end then bm_insert end (snd r) (bm_remove (fst r) m)
          else remove_following start end (bm_remove (fst r) m))"
  by pat_completeness auto
termination
  by (relation "measure (\<lambda>(_, _, m). length m)")
    (auto intro: length_bm_remove_less dest: next_to_in_set)

declare remove_following.simps [simp del]

definition rs_remove :: "range_set \<Rightarrow> range \<Rightarrow> range_set" where
  "rs_remove s rng =
     (if rs_is_empty s \<or> range_is_empty rng then s
      else case prev_to (rs_set s) (fst rng) of
        None \<Rightarrow> s\<lparr>rs_set := remove_following (fst rng) (snd rng) (rs_set s)\<rparr>
      | Some r \<Rightarrow>
          if snd r > fst rng then
            (let m1 = bm_remove (fst r) (rs_set s);
                 m2 = (if fst r < fst rng then bm_insert (fst r) (fst rng) m1 else m1);
                 m3 = (if snd r > snd rng then bm_insert (snd rng) (snd r) m2 else m2)
             in if snd r \<ge> snd rng then s\<lparr>rs_set := m3\<rparr>
                else s\<lparr>rs_set := remove_following (fst rng) (snd rng) m3\<rparr>)
          else s\<lparr>rs_set := remove_following (fst rng) (snd rng) (rs_set s)\<rparr>)"

definition rs_remove_elem :: "range_set \<Rightarrow> nat \<Rightarrow> range_set qres" where
  "rs_remove_elem s elem = rbind (add64 elem 1) (\<lambda>end. Ok (rs_remove s (elem, end)))"

text \<open>The \<open>for\<close> loop of \<open>remove_until\<close> over the ranges collected beforehand.\<close>

fun remove_until_loop :: "nat \<Rightarrow> range list \<Rightarrow> range_set \<Rightarrow> range_set qres" where
  "remove_until_loop elem [] s = Ok s"
| "remove_until_loop elem (r # rs) s =
     (let s1 = s\<lparr>rs_set := bm_remove (fst r) (rs_set s)\<rparr>
      in rbind (add64 elem 1) (\<lambda>start.
           remove_until_loop elem rs
             (if snd r > start then rs_insert s1 (start, snd r) else s1)))"

definition rs_remove_until :: "range_set \<Rightarrow> nat \<Rightarrow> range_set qres" where
  "rs_remove_until s elem = remove_until_loop elem (bm_upto elem (rs_set s)) s"

definition rs_clear :: "range_set \<Rightarrow> range_set" where
  "rs_clear s = s\<lparr>rs_set := []\<rparr>"

definition rs_filter :: "range_set \<Rightarrow> range \<Rightarrow> range option" where
  "rs_filter s rng =
     (if rs_is_empty s then Some rng
      else
        case (case prev_to (rs_set s) (fst rng) of
                None \<Rightarrow> Some (fst rng)
              | Some r \<Rightarrow>
                  if snd r \<ge> snd rng then None
                  else if snd r > fst rng then Some (snd r)
                  else Some (fst rng)) of
          None \<Rightarrow> None
        | Some new_start \<Rightarrow>
            Some (new_start,
                  case next_after (rs_set s) (fst rng) of
                    None \<Rightarrow> snd rng
                  | Some r \<Rightarrow> if fst r < snd rng then fst r else snd rng))"

definition rs_iter :: "range_set \<Rightarrow> range list" where
  "rs_iter s = rs_set s"

definition rs_min :: "range_set \<Rightarrow> nat option" where
  "rs_min s = map_option fst (bm_first (rs_iter s))"

definition rs_max :: "range_set \<Rightarrow> nat option" where
  "rs_max s = map_option (\<lambda>r. snd r - 1) (bm_last (rs_iter s))"

definition rs_contains :: "range_set \<Rightarrow> nat \<Rightarrow> bool" where
  "rs_contains s elem \<longleftrightarrow>
     (case prev_to (rs_set s) elem of Some r \<Rightarrow> range_contains r elem | None \<Rightarrow> False) \<or>
     (case next_to (rs_set s) elem of Some r \<Rightarrow> range_contains r elem | None \<Rightarrow> False)"

definition rs_peek_min :: "range_set \<Rightarrow> range option" where
  "rs_peek_min s = bm_first (rs_set s)"

definition rs_pop_min :: "range_set \<Rightarrow> range_set \<times> range option" where
  "rs_pop_min s =
     (case rs_peek_min s of
        None \<Rightarrow> (s, None)
      | Some r \<Rightarrow> (s\<lparr>rs_set := bm_remove (fst r) (rs_set s)\<rparr>, Some r))"

text \<open>\<open>PartialEq<Range<u64>>\<close>; \<open>unwrap\<close> is reached only when there is one range.\<close>

definition rs_eq_range :: "range_set \<Rightarrow> range \<Rightarrow> bool" where
  "rs_eq_range s r \<longleftrightarrow> rs_len s = 1 \<and> rs_peek_min s = Some r"

text \<open>\<open>Flatten\<close>: iteration over the elements from the front or from the back.\<close>

record flatten_iter =
  fl_set :: "range list"
  fl_next :: nat
  fl_end :: nat

definition rs_flatten :: "range_set \<Rightarrow> flatten_iter" where
  "rs_flatten s = \<lparr>fl_set = rs_set s, fl_next = 0, fl_end = 0\<rparr>"

definition flatten_next :: "flatten_iter \<Rightarrow> flatten_iter \<times> nat option" where
  "flatten_next it =
     (if fl_next it = fl_end it then
        (case fl_set it of
           [] \<Rightarrow> (it, None)
         | r # rs \<Rightarrow> (\<lparr>fl_set = rs, fl_next = fst r + 1, fl_end = snd r\<rparr>, Some (fst r)))
      else (it\<lparr>fl_next := fl_next it + 1\<rparr>, Some (fl_next it)))"

definition flatten_next_back :: "flatten_iter \<Rightarrow> flatten_iter \<times> nat option" where
  "flatten_next_back it =
     (if fl_next it = fl_end it then
        (if fl_set it = [] then (it, None)
         else let r = last (fl_set it) in
           (\<lparr>fl_set = butlast (fl_set it), fl_next = fst r, fl_end = snd r - 1\<rparr>, Some (snd r - 1)))
      else (it\<lparr>fl_end := fl_end it - 1\<rparr>, Some (fl_end it - 1)))"


section \<open>Representation invariant and the set of elements\<close>

text \<open>
  Ranges are non-empty, within \<open>u64\<close>, and separated by at least one missing value:
  touching ranges are merged.
\<close>

definition rs_ok :: "(nat, nat) bmap \<Rightarrow> bool" where
  "rs_ok m \<longleftrightarrow> bm_sorted m \<and> (\<forall>r \<in> set m. fst r < snd r \<and> snd r \<le> u64_max) \<and>
     (\<forall>r \<in> set m. \<forall>r' \<in> set m. fst r < fst r' \<longrightarrow> snd r < fst r')"

definition rs_elems :: "(nat, nat) bmap \<Rightarrow> nat set" where
  "rs_elems m = (\<Union>r \<in> set m. {fst r..<snd r})"

lemma rs_elems_iff: "x \<in> rs_elems m \<longleftrightarrow> (\<exists>r \<in> set m. fst r \<le> x \<and> x < snd r)"
  by (auto simp: rs_elems_def)

lemma rs_ok_sorted [simp, dest]: "rs_ok m \<Longrightarrow> bm_sorted m"
  by (simp add: rs_ok_def)

lemma rs_ok_Nil [simp]: "rs_ok []"
  by (simp add: rs_ok_def)

lemma rs_elems_Nil [simp]: "rs_elems [] = {}"
  by (simp add: rs_elems_def)

lemma rs_elems_Cons [simp]: "rs_elems (r # m) = {fst r..<snd r} \<union> rs_elems m"
  by (auto simp: rs_elems_def)

lemma rs_ok_filter [simp]: "rs_ok m \<Longrightarrow> rs_ok (filter P m)"
  by (auto simp: rs_ok_def)

lemma rs_ok_remove [simp]: "rs_ok m \<Longrightarrow> rs_ok (bm_remove k m)"
  by (simp add: bm_remove_def)

lemma rs_ok_tl: "rs_ok m \<Longrightarrow> rs_ok (tl m)"
  by (cases m) (auto simp: rs_ok_def bm_sorted_Cons)

lemma rs_ok_Cons:
  "rs_ok (r # m) \<longleftrightarrow> fst r < snd r \<and> snd r \<le> u64_max \<and> (\<forall>r' \<in> set m. snd r < fst r') \<and> rs_ok m"
  by (auto simp: rs_ok_def bm_sorted_Cons intro: less_trans)

lemma rs_ok_insert:
  assumes "rs_ok m" "a < b" "b \<le> u64_max" "\<forall>r \<in> set m. snd r < a \<or> b < fst r"
  shows "rs_ok (bm_insert a b m)"
  using assms by (fastforce simp: rs_ok_def set_bm_insert)

lemma rs_elems_insert_fresh:
  assumes "bm_sorted m" "\<forall>r \<in> set m. fst r \<noteq> a"
  shows "rs_elems (bm_insert a b m) = rs_elems m \<union> {a..<b}"
  using assms by (auto simp: rs_elems_def set_bm_insert)

lemma rs_elems_remove:
  assumes "rs_ok m" "r \<in> set m"
  shows "rs_elems (bm_remove (fst r) m) = rs_elems m - {fst r..<snd r}"
proof -
  have sep: "{fst r'..<snd r'} \<inter> {fst r..<snd r} = {}" if "r' \<in> set m" "fst r' \<noteq> fst r" for r'
    using assms that unfolding rs_ok_def
    by (metis (no_types, lifting) disjoint_iff atLeastLessThan_iff le_less_trans less_asym'
        less_imp_le nat_neq_iff)
  have same: "r' = r" if "r' \<in> set m" "fst r' = fst r" for r'
    using assms that bm_entry_unique by blast
  show ?thesis
  proof (rule set_eqI, rule iffI)
    fix x
    assume "x \<in> rs_elems (bm_remove (fst r) m)"
    then obtain r' where r': "r' \<in> set m" "fst r' \<noteq> fst r" "x \<in> {fst r'..<snd r'}"
      by (auto simp: rs_elems_def set_bm_remove)
    then have "x \<notin> {fst r..<snd r}" using sep[OF r'(1,2)] by blast
    moreover have "x \<in> rs_elems m" using r' unfolding rs_elems_def by blast
    ultimately show "x \<in> rs_elems m - {fst r..<snd r}" by blast
  next
    fix x
    assume x: "x \<in> rs_elems m - {fst r..<snd r}"
    then obtain r' where r': "r' \<in> set m" "x \<in> {fst r'..<snd r'}"
      by (auto simp: rs_elems_def)
    then have "fst r' \<noteq> fst r" using x same by blast
    then show "x \<in> rs_elems (bm_remove (fst r) m)" using r'
      unfolding rs_elems_def set_bm_remove by blast
  qed
qed

lemma rs_elems_remove_Un:
  "rs_ok m \<Longrightarrow> r \<in> set m \<Longrightarrow> rs_elems m = rs_elems (bm_remove (fst r) m) \<union> {fst r..<snd r}"
  by (auto simp: rs_elems_remove rs_elems_iff)

lemma prev_to_Some:
  "bm_sorted m \<Longrightarrow> prev_to m x = Some r \<longleftrightarrow>
    r \<in> set m \<and> fst r \<le> x \<and> (\<forall>r' \<in> set m. fst r' \<le> x \<longrightarrow> fst r' \<le> fst r)"
  by (simp add: prev_to_def bm_upto_def bm_last_filter_Some)

lemma prev_to_None: "prev_to m x = None \<longleftrightarrow> (\<forall>r \<in> set m. x < fst r)"
  by (simp add: prev_to_def bm_upto_empty)

lemma next_to_Some:
  "bm_sorted m \<Longrightarrow> next_to m x = Some r \<longleftrightarrow>
    r \<in> set m \<and> x \<le> fst r \<and> (\<forall>r' \<in> set m. x \<le> fst r' \<longrightarrow> fst r \<le> fst r')"
  by (simp add: next_to_def bm_from_def bm_first_filter_Some)

lemma next_to_None: "next_to m x = None \<longleftrightarrow> (\<forall>r \<in> set m. fst r < x)"
  by (simp add: next_to_def bm_from_empty)

lemma next_after_Some:
  "bm_sorted m \<Longrightarrow> next_after m x = Some r \<longleftrightarrow>
    r \<in> set m \<and> x < fst r \<and> (\<forall>r' \<in> set m. x < fst r' \<longrightarrow> fst r \<le> fst r')"
  by (simp add: next_after_def bm_after_def bm_first_filter_Some)

lemma next_after_None: "next_after m x = None \<longleftrightarrow> (\<forall>r \<in> set m. fst r \<le> x)"
  by (simp add: next_after_def bm_after_empty)

lemmas neighbour_specs =
  prev_to_Some prev_to_None next_to_Some next_to_None next_after_Some next_after_None

subsection \<open>Insertion\<close>

lemma insert_absorb_spec:
  assumes "rs_ok m" "a < b" "b \<le> u64_max" "\<forall>r \<in> set m. fst r < a \<longrightarrow> snd r < a"
    and "insert_absorb a b m = (b', m')"
  shows "b \<le> b' \<and> b' \<le> u64_max \<and> m' = filter (\<lambda>r. fst r < a \<or> b' < fst r) m \<and>
    rs_elems m \<union> {a..<b} = rs_elems m' \<union> {a..<b'}"
  using assms
proof (induction a b m rule: insert_absorb.induct)
  case (1 a b m)
  note eq = insert_absorb.simps[of a b m]
  have srt: "bm_sorted m" using "1.prems"(1) by blast
  show ?case
  proof (cases "next_to m a")
    case None
    then have "b' = b" "m' = m" using "1.prems"(5) eq by auto
    moreover have "filter (\<lambda>r. fst r < a \<or> b < fst r) m = m"
      using None by (simp add: next_to_None filter_id_conv)
    ultimately show ?thesis using "1.prems"(3) by simp
  next
    case (Some r)
    then have r: "r \<in> set m" "a \<le> fst r" "\<forall>r' \<in> set m. a \<le> fst r' \<longrightarrow> fst r \<le> fst r'"
      using srt by (auto simp: next_to_Some)
    show ?thesis
    proof (cases "fst r > b")
      case True
      then have "b' = b" "m' = m" using "1.prems"(5) eq Some by auto
      moreover have "filter (\<lambda>r. fst r < a \<or> b < fst r) m = m"
        using True r(3) by (auto simp: filter_id_conv intro: less_le_trans)
      ultimately show ?thesis using "1.prems"(3) by simp
    next
      case False
      let ?m = "bm_remove (fst r) m" and ?b = "max (snd r) b"
      have rb: "fst r < snd r" "snd r \<le> u64_max" using "1.prems"(1) r(1) by (auto simp: rs_ok_def)
      have "insert_absorb a ?b ?m = (b', m')" using "1.prems"(5) eq Some False by simp
      then have IH: "?b \<le> b' \<and> b' \<le> u64_max \<and> m' = filter (\<lambda>r. fst r < a \<or> b' < fst r) ?m \<and>
          rs_elems ?m \<union> {a..<?b} = rs_elems m' \<union> {a..<b'}"
        using "1.IH"[OF Some False] "1.prems" rb by (auto simp: set_bm_remove)
      have "filter (\<lambda>r. fst r < a \<or> b' < fst r) ?m = filter (\<lambda>r. fst r < a \<or> b' < fst r) m"
        using IH r(2) False unfolding bm_remove_def by (auto intro!: filter_cong)
      moreover note rs_elems_remove_Un[OF "1.prems"(1) r(1)]
      moreover have "{fst r..<snd r} \<union> {a..<b} = {a..<?b}"
        using r rb False by auto
      ultimately show ?thesis using IH by (simp add: Un_assoc)
    qed
  qed
qed

lemma insert_from_spec:
  assumes "rs_ok m" "a < b" "b \<le> u64_max" "\<forall>r \<in> set m. fst r < a \<longrightarrow> snd r < a"
  shows "rs_ok (insert_from cap (a, b) m) \<and>
    (rs_elems (insert_from cap (a, b) m) = rs_elems m \<union> {a..<b} \<or>
     cap \<le> length m \<and> (\<exists>e \<in> set m. {fst e..<snd e} \<inter> {a..<b} = {} \<and>
       rs_elems (insert_from cap (a, b) m) = rs_elems m \<union> {a..<b} - {fst e..<snd e}))"
proof -
  obtain b' m1 where ab: "insert_absorb a b m = (b', m1)" by fastforce
  note sp = insert_absorb_spec[OF assms ab]
  then have m1: "m1 = filter (\<lambda>r. fst r < a \<or> b' < fst r) m" and bb: "b \<le> b'" "b' \<le> u64_max"
    and el: "rs_elems m \<union> {a..<b} = rs_elems m1 \<union> {a..<b'}" by auto
  have ok1: "rs_ok m1" using assms(1) m1 by simp
  have sep: "\<forall>r \<in> set m1. snd r < a \<or> b' < fst r" using m1 assms(4) by auto
  show ?thesis
  proof (cases "cap \<le> length m1 \<and> m1 \<noteq> []")
    case False
    then have res: "insert_from cap (a, b) m = bm_insert a b' m1"
      using ab by (auto simp: insert_from_def bm_pop_first_def)
    have fr: "\<forall>r \<in> set m1. fst r \<noteq> a"
      using m1 bb assms(2) by fastforce
    have "rs_elems (insert_from cap (a, b) m) = rs_elems m \<union> {a..<b}"
      using rs_elems_insert_fresh[OF rs_ok_sorted[OF ok1] fr, of b'] el res by simp
    moreover have "rs_ok (insert_from cap (a, b) m)"
      using rs_ok_insert[OF ok1 _ bb(2) sep] res assms(2) bb by simp
    ultimately show ?thesis by blast
  next
    case True
    then obtain e m2 where m2: "m1 = e # m2" by (cases m1) auto
    have res: "insert_from cap (a, b) m = bm_insert a b' m2"
      using ab True m2 by (simp add: insert_from_def bm_pop_first_def)
    have ok2: "rs_ok m2" and sep2: "\<forall>r \<in> set m2. snd r < a \<or> b' < fst r"
      using ok1 sep m2 by (auto simp: rs_ok_Cons)
    have "set m2 \<subseteq> set m1" using m2 by auto
    then have fr: "\<forall>r \<in> set m2. fst r \<noteq> a" using m1 bb assms(2) by fastforce
    have "e \<in> set m1" using m2 by simp
    then have e: "e \<in> set m" using m1 by simp
    have dis: "{fst e..<snd e} \<inter> {a..<b'} = {}" using sep m2 by auto
    have "rs_elems m2 \<inter> {fst e..<snd e} = {}"
      using ok1 m2 by (fastforce simp: rs_ok_Cons rs_elems_iff)
    then have "rs_elems m2 \<union> {a..<b'} = rs_elems m1 \<union> {a..<b'} - {fst e..<snd e}"
      using dis m2 by auto
    then have "rs_elems (insert_from cap (a, b) m) = rs_elems m \<union> {a..<b} - {fst e..<snd e}"
      using rs_elems_insert_fresh[OF rs_ok_sorted[OF ok2] fr, of b'] el res by simp
    moreover have "{fst e..<snd e} \<inter> {a..<b} = {}" using dis bb by auto
    moreover have "cap \<le> length m" using True m1 length_filter_le le_trans by blast
    moreover have "rs_ok (insert_from cap (a, b) m)"
      using rs_ok_insert[OF ok2 _ bb(2) sep2] res assms(2) bb by simp
    ultimately show ?thesis using e by blast
  qed
qed


definition rs_inv :: "range_set \<Rightarrow> bool" where
  "rs_inv s \<longleftrightarrow> rs_ok (rs_set s)"

definition rs_alpha :: "range_set \<Rightarrow> nat set" where
  "rs_alpha s = rs_elems (rs_set s)"

lemma rs_capacity_insert [simp]: "rs_capacity (rs_insert s r) = rs_capacity s"
  by (simp add: rs_insert_def split: option.split)

text \<open>The preceding range decides whether the new one is covered, extended or separate.\<close>

lemma prev_to_covers:
  assumes "rs_ok m" "prev_to m a = Some r" "b \<le> snd r"
  shows "{a..<b} \<subseteq> rs_elems m"
proof -
  have "r \<in> set m" "fst r \<le> a" using assms(1,2) prev_to_Some[of m a r] by (auto simp: rs_ok_def)
  then show ?thesis using assms(3) by (auto simp: rs_elems_iff intro!: bexI[of _ r])
qed

lemma prev_to_gap:
  assumes "rs_ok m" "prev_to m a = Some r" "r' \<in> set m" "fst r' < a" "r' \<noteq> r"
  shows "snd r' < fst r"
proof -
  have r: "r \<in> set m" "fst r' \<le> fst r" using assms by (auto simp: prev_to_Some)
  then have "fst r' < fst r"
    using assms(1,3,5) bm_entry_unique[of m r' r] by (auto simp: le_less)
  then show ?thesis using assms(1,3) r(1) by (simp add: rs_ok_def)
qed

lemma rs_insert_spec:
  assumes "rs_ok (rs_set s)" "snd r \<le> u64_max"
  defines "m' \<equiv> rs_set (rs_insert s r)"
  shows "rs_ok m' \<and>
    (rs_elems m' = rs_elems (rs_set s) \<union> {fst r..<snd r} \<or>
     rs_capacity s \<le> rs_len s \<and> (\<exists>e \<in> set (rs_set s). {fst e..<snd e} \<inter> {fst r..<snd r} = {} \<and>
       rs_elems m' = rs_elems (rs_set s) \<union> {fst r..<snd r} - {fst e..<snd e}))"
proof (cases "fst r < snd r")
  case False
  then show ?thesis using assms(1) by (simp add: m'_def rs_insert_def range_is_empty_def)
next
  case True
  let ?m = "rs_set s"
  have ins: "rs_insert s r = (case prev_to ?m (fst r) of
        None \<Rightarrow> s\<lparr>rs_set := insert_from (rs_capacity s) r ?m\<rparr>
      | Some p \<Rightarrow> if snd p \<ge> snd r then s
          else if snd p \<ge> fst r then
            s\<lparr>rs_set := insert_from (rs_capacity s) (fst p, snd r) (bm_remove (fst p) ?m)\<rparr>
          else s\<lparr>rs_set := insert_from (rs_capacity s) r ?m\<rparr>)"
    using True by (simp add: rs_insert_def range_is_empty_def)
  have plain: ?thesis
    if "rs_insert s r = s\<lparr>rs_set := insert_from (rs_capacity s) r ?m\<rparr>"
      and "\<forall>q \<in> set ?m. fst q < fst r \<longrightarrow> snd q < fst r"
    using insert_from_spec[OF assms(1) True assms(2) that(2), of "rs_capacity s"] that(1)
    by (simp add: m'_def rs_len_def)
  show ?thesis
  proof (cases "prev_to ?m (fst r)")
    case None
    then have "rs_insert s r = s\<lparr>rs_set := insert_from (rs_capacity s) r ?m\<rparr>" using ins by simp
    then show ?thesis by (rule plain) (use None in \<open>auto simp: prev_to_None\<close>)
  next
    case (Some p)
    have p: "p \<in> set ?m" "fst p \<le> fst r" using Some assms(1) by (auto simp: prev_to_Some)
    have gap: "\<And>q. q \<in> set ?m \<Longrightarrow> fst q < fst r \<Longrightarrow> q \<noteq> p \<Longrightarrow> snd q < fst p"
      using prev_to_gap[OF assms(1) Some] by blast
    consider "snd r \<le> snd p" | "snd p < fst r" | "fst r \<le> snd p" "snd p < snd r" by linarith
    then show ?thesis
    proof cases
      case 1
      then have "m' = ?m" using ins Some by (simp add: m'_def)
      then show ?thesis using prev_to_covers[OF assms(1) Some 1] assms(1) by auto
    next
      case 2
      have "snd q < fst r" if "q \<in> set ?m" "fst q < fst r" for q
        using gap[OF that] 2 p(2) by (cases "q = p") auto
      then show ?thesis using ins Some 2 True by (intro plain) auto
    next
      case 3
      let ?m1 = "bm_remove (fst p) ?m"
      have pb: "fst p < snd p" using assms(1) p(1) by (auto simp: rs_ok_def)
      have res: "m' = insert_from (rs_capacity s) (fst p, snd r) ?m1"
        using ins Some 3 by (simp add: m'_def)
      have sep: "\<forall>q \<in> set ?m1. fst q < fst p \<longrightarrow> snd q < fst p"
      proof (intro ballI impI)
        fix q assume "q \<in> set ?m1" "fst q < fst p"
        then show "snd q < fst p" using gap[of q] p(2) by (auto simp: set_bm_remove simp del: split_paired_All)
      qed
      have lt: "fst p < snd r" using True p(2) by simp
      note sp = insert_from_spec[OF rs_ok_remove[OF assms(1)] lt assms(2) sep, of "rs_capacity s"]
      have "{fst p..<snd p} \<union> {fst r..<snd r} = {fst p..<snd r}" using p 3 pb by auto
      then have el: "rs_elems ?m1 \<union> {fst p..<snd r} = rs_elems ?m \<union> {fst r..<snd r}"
        using rs_elems_remove_Un[OF assms(1) p(1)] by blast
      have sub: "set ?m1 \<subseteq> set ?m" "length ?m1 \<le> length ?m"
        by (auto simp: set_bm_remove length_bm_remove_le)
      have dis: "{fst e..<snd e} \<inter> {fst r..<snd r} = {}"
        if "{fst e..<snd e} \<inter> {fst p..<snd r} = {}" for e :: range
      proof -
        have "{fst r..<snd r} \<subseteq> {fst p..<snd r}" using p(2) by auto
        then show ?thesis using that by blast
      qed
      show ?thesis
        using sp[folded res, unfolded el]
      proof (elim conjE disjE bexE)
        fix e
        assume e: "rs_ok m'" "rs_capacity s \<le> length ?m1" "e \<in> set ?m1"
          "{fst e..<snd e} \<inter> {fst p..<snd r} = {}"
          "rs_elems m' = rs_elems ?m \<union> {fst r..<snd r} - {fst e..<snd e}"
        have "rs_capacity s \<le> rs_len s" using e(2) sub(2) by (simp add: rs_len_def)
        moreover have "e \<in> set ?m" using e(3) sub(1) by blast
        ultimately show ?thesis using e(1,5) dis[OF e(4)] by blast
      qed simp
    qed
  qed
qed

subsection \<open>Removal\<close>

lemma remove_following_spec:
  assumes "rs_ok m" "a < b" "b \<le> u64_max" "\<forall>r \<in> set m. fst r < a \<longrightarrow> snd r \<le> a"
  shows "rs_ok (remove_following a b m) \<and> rs_elems (remove_following a b m) = rs_elems m - {a..<b}"
  using assms
proof (induction a b m rule: remove_following.induct)
  case (1 a b m)
  note eq = remove_following.simps[of a b m]
  have srt: "bm_sorted m" using "1.prems"(1) by blast
  have lo: "x \<notin> {a..<b}" if "r \<in> set m" "fst r < a" "x \<in> {fst r..<snd r}" for r x
    using "1.prems"(4) that by fastforce
  show ?case
  proof (cases "next_to m a")
    case None
    then have "rs_elems m \<inter> {a..<b} = {}"
      using lo by (auto simp: next_to_None rs_elems_def)
    then show ?thesis using None eq "1.prems"(1) by auto
  next
    case (Some r)
    then have r: "r \<in> set m" "a \<le> fst r" "\<forall>r' \<in> set m. a \<le> fst r' \<longrightarrow> fst r \<le> fst r'"
      using srt by (auto simp: next_to_Some)
    have rb: "fst r < snd r" "snd r \<le> u64_max" using "1.prems"(1) r(1) by (auto simp: rs_ok_def)
    let ?m = "bm_remove (fst r) m"
    have el: "rs_elems ?m = rs_elems m - {fst r..<snd r}" "{fst r..<snd r} \<subseteq> rs_elems m"
      using r(1) "1.prems"(1) by (auto simp: rs_elems_remove rs_elems_iff)
    consider "b < fst r" | "fst r \<le> b" "b < snd r" | "fst r \<le> b" "snd r \<le> b" by linarith
    then show ?thesis
    proof cases
      case 1
      have "x \<notin> {a..<b}" if "q \<in> set m" "x \<in> {fst q..<snd q}" for q x
      proof (cases "fst q < a")
        case False
        then have "fst r \<le> fst q" using r(3) that(1) by simp
        then show ?thesis using that(2) 1 by simp
      qed (use lo that in blast)
      then have "rs_elems m \<inter> {a..<b} = {}" unfolding rs_elems_def by blast
      then show ?thesis using Some eq 1 "1.prems"(1) by auto
    next
      case 2
      have res: "remove_following a b m = bm_insert b (snd r) ?m" using Some eq 2 by simp
      have sep: "snd q < b \<or> snd r < fst q" if "q \<in> set ?m" for q
      proof (cases "fst q < a")
        case True
        then have "snd q \<le> a" using "1.prems"(4) that by (simp add: set_bm_remove)
        then show ?thesis using "1.prems"(2) by simp
      next
        case False
        then have "fst r < fst q" using r(3) that by (simp add: set_bm_remove le_neq_trans)
        then show ?thesis using "1.prems"(1) r(1) that by (simp add: rs_ok_def set_bm_remove)
      qed
      have ok: "rs_ok ?m" using "1.prems"(1) by simp
      have fr: "\<forall>q \<in> set ?m. fst q \<noteq> b"
      proof
        fix q assume q: "q \<in> set ?m"
        then have "fst q < snd q" using ok by (simp add: rs_ok_def)
        then show "fst q \<noteq> b" using sep[OF q] 2(2) by auto
      qed
      have none: "rs_elems m \<inter> {a..<b} \<subseteq> {fst r..<snd r}"
      proof
        fix x assume "x \<in> rs_elems m \<inter> {a..<b}"
        then obtain q where q: "q \<in> set m" "x \<in> {fst q..<snd q}" "x \<in> {a..<b}"
          by (auto simp: rs_elems_def)
        have "fst q = fst r"
        proof (rule ccontr)
          assume "fst q \<noteq> fst r"
          have "a \<le> fst q" using lo[OF q(1) _ q(2)] q(3) by (meson not_le)
          then have "fst r < fst q" using r(3) q(1) \<open>fst q \<noteq> fst r\<close> by (simp add: le_neq_trans)
          then have "snd r < fst q" using "1.prems"(1) r(1) q(1) by (simp add: rs_ok_def)
          then show False using q(2,3) 2 by simp
        qed
        then show "x \<in> {fst r..<snd r}" using q bm_entry_unique[OF srt q(1) r(1)] by simp
      qed
      have "rs_elems (remove_following a b m) = rs_elems m - {a..<b}"
      proof -
        have "rs_elems ?m \<inter> {a..<b} = {}" using none el(1) by blast
        moreover have "{fst r..<snd r} - {a..<b} = {b..<snd r}" using r(2) 2 by auto
        ultimately show ?thesis
          unfolding res rs_elems_insert_fresh[OF rs_ok_sorted[OF ok] fr]
          using rs_elems_remove_Un[OF "1.prems"(1) r(1)] by blast
      qed
      then show ?thesis using rs_ok_insert[OF ok 2(2) rb(2)] sep res by simp
    next
      case 3
      then have res: "remove_following a b m = remove_following a b ?m" using Some eq by simp
      have "rs_ok (remove_following a b ?m) \<and>
          rs_elems (remove_following a b ?m) = rs_elems ?m - {a..<b}"
        using "1.IH"[OF Some] 3 "1.prems" by (auto simp: set_bm_remove)
      moreover have "rs_elems ?m - {a..<b} = rs_elems m - {a..<b}"
      proof -
        have "{fst r..<snd r} \<subseteq> {a..<b}" using 3 r(2) by auto
        then show ?thesis unfolding el(1) by blast
      qed
      ultimately show ?thesis by (simp only: res)
    qed
  qed
qed


lemma rs_capacity_remove [simp]: "rs_capacity (rs_remove s r) = rs_capacity s"
  by (simp add: rs_remove_def Let_def split: option.split)

text \<open>What is left of the preceding range \<open>p\<close> when \<open>{a..<b}\<close> is cut out of it.\<close>

lemma cut_spec:
  assumes "rs_ok m" "p \<in> set m" "fst p \<le> a" "a < snd p" "a < b" "b \<le> u64_max"
  defines "m1 \<equiv> bm_remove (fst p) m"
  defines "m2 \<equiv> (if fst p < a then bm_insert (fst p) a m1 else m1)"
  defines "m3 \<equiv> (if snd p > b then bm_insert b (snd p) m2 else m2)"
  shows "rs_ok m3" and "rs_elems m3 = rs_elems m1 \<union> ({fst p..<snd p} - {a..<b})"
    and "\<forall>r \<in> set m3. fst r < a \<longrightarrow> snd r \<le> a"
proof -
  have pb: "snd p \<le> u64_max" using assms(1,2) by (simp add: rs_ok_def)
  have ok1: "rs_ok m1" using assms(1) by (simp add: m1_def)
  have sep1: "snd q < fst p \<or> snd p < fst q" if "q \<in> set m1" for q
  proof -
    have q: "q \<in> set m" "fst q \<noteq> fst p" using that by (auto simp: m1_def set_bm_remove)
    then show ?thesis using assms(1,2) unfolding rs_ok_def by (meson nat_neq_iff)
  qed
  have ne1: "fst q < snd q" if "q \<in> set m1" for q using that ok1 by (simp add: rs_ok_def)
  have ok2: "rs_ok m2"
    using rs_ok_insert[OF ok1, of "fst p" a] sep1 assms(4) pb ok1 unfolding m2_def by fastforce
  have set2: "set m2 = (if fst p < a then insert (fst p, a) (set m1) else set m1)"
    using set_bm_insert[OF rs_ok_sorted[OF ok1]] by (auto simp: m2_def m1_def set_bm_remove)
  have el2: "rs_elems m2 = rs_elems m1 \<union> {fst p..<a}"
    using set2 by (auto simp: rs_elems_def)
  have sep2: "snd q < b \<or> snd p < fst q" if "q \<in> set m2" for q
    using that set2 sep1[of q] assms(3,5) by (auto split: if_splits)
  have fr2: "\<forall>q \<in> set m2. fst q \<noteq> b" if "b < snd p"
    using sep2 that ne1 set2 assms(5) by (fastforce split: if_splits)
  show "rs_ok m3" using rs_ok_insert[OF ok2 _ pb] sep2 ok2 unfolding m3_def by simp
  have cut: "{fst p..<snd p} - {a..<b} = {fst p..<a} \<union> {b..<snd p}"
    using assms(3,4,5) by auto
  show "rs_elems m3 = rs_elems m1 \<union> ({fst p..<snd p} - {a..<b})"
  proof (cases "b < snd p")
    case True
    then show ?thesis unfolding cut m3_def
      using rs_elems_insert_fresh[OF rs_ok_sorted[OF ok2] fr2, of "snd p"] el2 by auto
  next
    case False
    then show ?thesis unfolding cut m3_def using el2 by simp
  qed
  have set3: "set m3 \<subseteq> insert (b, snd p) (set m2)"
    using set_bm_insert[OF rs_ok_sorted[OF ok2]] by (auto simp: m3_def)
  show "\<forall>r \<in> set m3. fst r < a \<longrightarrow> snd r \<le> a"
  proof (intro ballI impI)
    fix r assume r: "r \<in> set m3" "fst r < a"
    then have "r \<in> set m2" using set3 assms(5) by auto
    then show "snd r \<le> a" using set2 sep1[of r] ne1[of r] r(2) assms(3,4) by (auto split: if_splits)
  qed
qed

lemma rs_remove_spec:
  assumes "rs_ok (rs_set s)" "snd r \<le> u64_max"
  shows "rs_ok (rs_set (rs_remove s r)) \<and>
    rs_elems (rs_set (rs_remove s r)) = rs_elems (rs_set s) - {fst r..<snd r}"
proof (cases "rs_is_empty s \<or> range_is_empty r")
  case True
  then show ?thesis using assms(1) by (auto simp: rs_remove_def rs_is_empty_def range_is_empty_def)
next
  case False
  let ?m = "rs_set s" and ?a = "fst r" and ?b = "snd r"
  have ab: "?a < ?b" using False by (simp add: range_is_empty_def)
  have plain: ?thesis
    if "rs_set (rs_remove s r) = remove_following ?a ?b ?m"
      and "\<forall>q \<in> set ?m. fst q < ?a \<longrightarrow> snd q \<le> ?a"
    using remove_following_spec[OF assms(1) ab assms(2) that(2)] that(1) by simp
  show ?thesis
  proof (cases "prev_to ?m ?a")
    case None
    then have "rs_set (rs_remove s r) = remove_following ?a ?b ?m"
      using False by (simp add: rs_remove_def)
    then show ?thesis by (rule plain) (use None in \<open>auto simp: prev_to_None\<close>)
  next
    case (Some p)
    have p: "p \<in> set ?m" "fst p \<le> ?a" using Some assms(1) by (auto simp: prev_to_Some)
    show ?thesis
    proof (cases "?a < snd p")
      case True
      note cut = cut_spec[OF assms(1) p True ab assms(2)]
      let ?m1 = "bm_remove (fst p) ?m"
      let ?m2 = "if fst p < ?a then bm_insert (fst p) ?a ?m1 else ?m1"
      let ?m3 = "if snd p > ?b then bm_insert ?b (snd p) ?m2 else ?m2"
      have res: "rs_set (rs_remove s r) =
          (if snd p \<ge> ?b then ?m3 else remove_following ?a ?b ?m3)"
        using False Some True by (simp add: rs_remove_def Let_def)
      have el: "rs_elems ?m3 - {?a..<?b} = rs_elems ?m - {?a..<?b}"
        unfolding cut(2) rs_elems_remove_Un[OF assms(1) p(1)] by blast
      show ?thesis
      proof (cases "snd p \<ge> ?b")
        case True
        have "rs_elems ?m1 \<inter> {?a..<?b} = {}"
          using True p rs_elems_remove[OF assms(1) p(1)] by auto
        then have "rs_elems ?m3 = rs_elems ?m3 - {?a..<?b}" unfolding cut(2) by blast
        then show ?thesis using cut(1) el res True by presburger
      next
        case False
        then show ?thesis
          using remove_following_spec[OF cut(1) ab assms(2) cut(3)] el res by presburger
      qed
    next
      case False2: False
      have "snd q \<le> ?a" if "q \<in> set ?m" "fst q < ?a" for q
        using prev_to_gap[OF assms(1) Some that] False2 p(2) by (cases "q = p") auto
      then show ?thesis using False Some False2
        by (intro plain) (auto simp: rs_remove_def)
    qed
  qed
qed


subsection \<open>Queries\<close>

lemma rs_contains_iff:
  assumes "rs_ok (rs_set s)"
  shows "rs_contains s x \<longleftrightarrow> x \<in> rs_elems (rs_set s)"
proof
  assume "rs_contains s x"
  then obtain r where "r \<in> set (rs_set s)" "range_contains r x"
    using assms by (auto simp: rs_contains_def prev_to_Some next_to_Some split: option.splits)
  then show "x \<in> rs_elems (rs_set s)" by (auto simp: rs_elems_iff range_contains_def)
next
  assume "x \<in> rs_elems (rs_set s)"
  then obtain r where r: "r \<in> set (rs_set s)" "fst r \<le> x" "x < snd r"
    by (auto simp: rs_elems_iff)
  then obtain p where p: "prev_to (rs_set s) x = Some p"
    by (cases "prev_to (rs_set s) x") (auto simp: prev_to_None)
  have "p = r"
  proof (rule ccontr)
    assume "p \<noteq> r"
    moreover have "fst r \<le> fst p" "p \<in> set (rs_set s)" "fst p \<le> x"
      using p r assms by (auto simp: prev_to_Some)
    ultimately have "snd r < fst p"
      using assms r(1) bm_entry_unique[of "rs_set s" r p] by (auto simp: rs_ok_def le_less)
    then show False using \<open>fst p \<le> x\<close> r(3) by simp
  qed
  then show "rs_contains s x" using p r by (simp add: rs_contains_def range_contains_def)
qed

lemma rs_elems_empty: "rs_ok m \<Longrightarrow> rs_elems m = {} \<longleftrightarrow> m = []"
  by (cases m) (auto simp: rs_ok_Cons)

lemma rs_min_Some:
  assumes "rs_ok (rs_set s)" "rs_min s = Some x"
  shows "x \<in> rs_elems (rs_set s)" and "\<And>y. y \<in> rs_elems (rs_set s) \<Longrightarrow> x \<le> y"
proof -
  obtain r m where m: "rs_set s = r # m" "x = fst r"
    using assms(2) by (cases "rs_set s") (auto simp: rs_min_def rs_iter_def bm_first_def)
  then have ok: "fst r < snd r" "\<forall>r' \<in> set m. snd r < fst r'"
    using assms(1) by (auto simp: rs_ok_Cons)
  then show "x \<in> rs_elems (rs_set s)" using m by simp
  show "x \<le> y" if "y \<in> rs_elems (rs_set s)" for y
    using that m ok by (fastforce simp: rs_elems_iff)
qed

lemma rs_min_None: "rs_min s = None \<longleftrightarrow> rs_set s = []"
  by (simp add: rs_min_def rs_iter_def)

lemma rs_max_Some:
  assumes "rs_ok (rs_set s)" "rs_max s = Some x"
  shows "x \<in> rs_elems (rs_set s) \<and> (\<forall>y \<in> rs_elems (rs_set s). y \<le> x)"
proof -
  have l: "rs_set s \<noteq> []" "x = snd (last (rs_set s)) - 1"
    using assms(2) by (auto simp: rs_max_def rs_iter_def bm_last_def split: if_splits)
  let ?r = "last (rs_set s)"
  have r: "?r \<in> set (rs_set s)" using l(1) by simp
  have le: "snd q \<le> snd ?r" if "q \<in> set (rs_set s)" for q
  proof (cases "q = ?r")
    case False
    then have "fst q < fst ?r"
      using last_filter_eq[of "\<lambda>e e'. fst e < fst e'" "rs_set s" "\<lambda>_. True" q] assms(1) l(1) that
      by (auto simp: rs_ok_def bm_sorted_wrt)
    then have "snd q < fst ?r" "fst ?r < snd ?r" using assms(1) r that by (auto simp: rs_ok_def)
    then show ?thesis by simp
  qed simp
  have "fst ?r < snd ?r" using assms(1) r by (simp add: rs_ok_def)
  then have "x \<in> rs_elems (rs_set s)" using l r by (auto simp: rs_elems_iff intro!: bexI[of _ ?r])
  moreover have "y \<le> x" if y: "y \<in> rs_elems (rs_set s)" for y
  proof -
    obtain q where "q \<in> set (rs_set s)" "y < snd q" using y by (auto simp: rs_elems_iff)
    then show ?thesis using le[of q] l(2) by simp
  qed
  ultimately show ?thesis by blast
qed

lemma rs_pop_min_spec:
  assumes "rs_ok (rs_set s)" "rs_pop_min s = (s', Some r)"
  shows "rs_ok (rs_set s')" "rs_capacity s' = rs_capacity s" "fst r < snd r" "snd r \<le> u64_max"
    and "rs_elems (rs_set s) = {fst r..<snd r} \<union> rs_elems (rs_set s')"
    and "\<forall>y \<in> rs_elems (rs_set s'). snd r < y"
proof -
  obtain m where m: "rs_set s = r # m"
    using assms(2) by (cases "rs_set s") (auto simp: rs_pop_min_def rs_peek_min_def bm_first_def)
  have ok: "fst r < snd r" "snd r \<le> u64_max" "\<forall>r' \<in> set m. snd r < fst r'" "rs_ok m"
    using assms(1) m by (auto simp: rs_ok_Cons)
  have "s' = s\<lparr>rs_set := bm_remove (fst r) (r # m)\<rparr>"
    using assms(2) m by (simp add: rs_pop_min_def rs_peek_min_def bm_first_def)
  moreover have "bm_remove (fst r) (r # m) = m"
    using ok by (fastforce simp: bm_remove_def filter_id_conv)
  ultimately have s': "s' = s\<lparr>rs_set := m\<rparr>" by simp
  then show "rs_ok (rs_set s')" "rs_capacity s' = rs_capacity s" "fst r < snd r" "snd r \<le> u64_max"
    "rs_elems (rs_set s) = {fst r..<snd r} \<union> rs_elems (rs_set s')"
    using ok m by auto
  show "\<forall>y \<in> rs_elems (rs_set s'). snd r < y" using ok s' by (fastforce simp: rs_elems_iff)
qed

lemma rs_pop_min_None: "rs_pop_min s = (s', None) \<longleftrightarrow> s' = s \<and> rs_set s = []"
  by (auto simp: rs_pop_min_def rs_peek_min_def bm_first_def split: list.splits)

text \<open>Canonical form: equality of representations is equality of sets.\<close>

lemma rs_ok_unique:
  assumes "rs_ok m" "rs_ok m'" "rs_elems m = rs_elems m'"
  shows "m = m'"
  using assms
proof (induction m arbitrary: m')
  case Nil
  then show ?case using rs_elems_empty[of m'] by simp
next
  case (Cons r m)
  have "rs_elems m' \<noteq> {}" using Cons.prems by (auto simp: rs_ok_Cons)
  then obtain q n where m': "m' = q # n" by (cases m') auto
  have r: "fst r < snd r" "\<forall>x \<in> rs_elems m. snd r < x" "rs_ok m"
    using Cons.prems(1) by (auto simp: rs_ok_Cons rs_elems_iff) fastforce
  have q: "fst q < snd q" "\<forall>x \<in> rs_elems n. snd q < x" "rs_ok n"
    using Cons.prems(2) m' by (auto simp: rs_ok_Cons rs_elems_iff) fastforce
  have eq: "x \<in> {fst r..<snd r} \<or> x \<in> rs_elems m \<longleftrightarrow> x \<in> {fst q..<snd q} \<or> x \<in> rs_elems n" for x
    using Cons.prems(3) m' by (metis Un_iff rs_elems_Cons)
  have "fst r = fst q"
    using eq[of "fst r"] eq[of "fst q"] r(1,2) q(1,2) by fastforce
  moreover have "snd r = snd q"
    using eq[of "snd r"] eq[of "snd q"] r(1,2) q(1,2) calculation
    by (metis atLeastLessThan_iff less_irrefl less_imp_le linorder_neqE_nat)
  ultimately have "r = q" by (simp add: prod_eq_iff)
  moreover have "x \<in> rs_elems m \<longleftrightarrow> x \<in> rs_elems n" for x
    using eq[of x] r(2) q(2) \<open>r = q\<close> by fastforce
  then have "rs_elems m = rs_elems n" by blast
  ultimately show ?case using Cons.IH r(3) q(3) m' by simp
qed

lemma rs_eq_range_iff:
  assumes "rs_ok (rs_set s)" "fst r < snd r" "snd r \<le> u64_max"
  shows "rs_eq_range s r \<longleftrightarrow> rs_elems (rs_set s) = {fst r..<snd r}"
proof -
  have "rs_eq_range s r \<longleftrightarrow> rs_set s = [r]"
    by (cases "rs_set s") (auto simp: rs_eq_range_def rs_len_def rs_peek_min_def bm_first_def)
  also have "\<dots> \<longleftrightarrow> rs_elems (rs_set s) = rs_elems [r]"
    using rs_ok_unique[OF assms(1), of "[r]"] assms by (auto simp: rs_ok_Cons)
  finally show ?thesis by simp
qed

text \<open>Ranges are separated, so there are at most \<open>2 ^ 63\<close> of them: fewer than \<open>usize::MAX\<close>.\<close>

lemma rs_ok_length:
  assumes "rs_ok m" "\<forall>r \<in> set m. l \<le> fst r \<and> snd r \<le> hi" "m \<noteq> []"
  shows "2 * length m + l \<le> hi + 1"
  using assms
proof (induction m arbitrary: l)
  case (Cons r m)
  have r: "fst r < snd r" "snd r \<le> hi" "\<forall>q \<in> set m. snd r < fst q" "rs_ok m" "l \<le> fst r"
    using Cons.prems by (auto simp: rs_ok_Cons)
  show ?case
  proof (cases "m = []")
    case True
    then show ?thesis using r by simp
  next
    case False
    have "\<forall>q \<in> set m. fst r + 2 \<le> fst q \<and> snd q \<le> hi" using r Cons.prems(2) by fastforce
    then show ?thesis using Cons.IH[OF r(4) _ False, of "fst r + 2"] r(5) by simp
  qed
qed simp

lemma rs_ok_length_lt: "rs_ok m \<Longrightarrow> length m < usize_max"
  using rs_ok_length[of m 0 u64_max] by (cases "m = []") (auto simp: rs_ok_def u64_max_def usize_max_def)

lemma rs_insert_unbounded:
  assumes "rs_ok (rs_set s)" "rs_capacity s = usize_max" "snd r \<le> u64_max"
  shows "rs_elems (rs_set (rs_insert s r)) = rs_elems (rs_set s) \<union> {fst r..<snd r}"
  using rs_insert_spec[OF assms(1,3)] rs_ok_length_lt[OF assms(1)] assms(2)
  by (auto simp: rs_len_def)


text \<open>\<open>filter\<close> returns the first maximal subrange that is not covered.\<close>

lemma rs_filter_start:
  assumes "rs_ok m" "a < b"
  defines "st \<equiv> (case prev_to m a of None \<Rightarrow> Some a
      | Some r \<Rightarrow> if snd r \<ge> b then None else if snd r > a then Some (snd r) else Some a)"
  shows "st = None \<Longrightarrow> {a..<b} \<subseteq> rs_elems m"
    and "st = Some c \<Longrightarrow> a \<le> c \<and> c < b \<and> {a..<c} \<subseteq> rs_elems m \<and>
      (\<forall>r \<in> set m. fst r \<le> a \<longrightarrow> snd r \<le> c)"
proof -
  show "st = None \<Longrightarrow> {a..<b} \<subseteq> rs_elems m"
    using prev_to_covers[OF assms(1)] by (auto simp: st_def split: option.splits if_splits)
  assume c: "st = Some c"
  show "a \<le> c \<and> c < b \<and> {a..<c} \<subseteq> rs_elems m \<and> (\<forall>r \<in> set m. fst r \<le> a \<longrightarrow> snd r \<le> c)"
  proof (cases "prev_to m a")
    case None
    then have "\<forall>r \<in> set m. a < fst r" by (simp add: prev_to_None)
    then show ?thesis using None c assms(2) by (auto simp: st_def)
  next
    case (Some p)
    have p: "p \<in> set m" "fst p \<le> a" "\<forall>r \<in> set m. fst r \<le> a \<longrightarrow> fst r \<le> fst p"
      using Some assms(1) by (auto simp: prev_to_Some)
    have "snd r \<le> snd p" if "r \<in> set m" "fst r \<le> a" for r
    proof (cases "r = p")
      case False
      then have "fst r < fst p" using p that assms(1) bm_entry_unique[of m r p] by (auto simp: le_less)
      then have "snd r < fst p" "fst p < snd p" using assms(1) p(1) that by (auto simp: rs_ok_def)
      then show ?thesis by simp
    qed simp
    moreover have "{a..<snd p} \<subseteq> rs_elems m" using prev_to_covers[OF assms(1) Some] by blast
    ultimately show ?thesis using Some c assms(2) by (fastforce simp: st_def split: if_splits)
  qed
qed

lemma rs_filter_end:
  assumes "rs_ok m" "a < b"
  defines "d \<equiv> (case next_after m a of None \<Rightarrow> b | Some r \<Rightarrow> if fst r < b then fst r else b)"
  shows "a < d \<and> d \<le> b \<and> (d < b \<longrightarrow> d \<in> rs_elems m) \<and> (\<forall>r \<in> set m. a < fst r \<longrightarrow> d \<le> fst r \<or> b \<le> fst r)"
proof (cases "next_after m a")
  case None
  then have "\<forall>r \<in> set m. fst r \<le> a" by (simp add: next_after_None)
  then show ?thesis using None assms(2) by (auto simp: d_def)
next
  case (Some q)
  then have q: "q \<in> set m" "a < fst q" "\<forall>r \<in> set m. a < fst r \<longrightarrow> fst q \<le> fst r"
    using assms(1) by (auto simp: next_after_Some)
  then have "fst q \<in> rs_elems m" using assms(1) by (auto simp: rs_ok_def rs_elems_iff intro!: bexI[of _ q])
  then show ?thesis using Some q assms(2) by (auto simp: d_def)
qed

lemma rs_filter_None:
  assumes "rs_ok (rs_set s)" "fst r < snd r" "rs_filter s r = None"
  shows "{fst r..<snd r} \<subseteq> rs_elems (rs_set s)"
  using rs_filter_start(1)[OF assms(1,2)] assms(3)
  by (auto simp: rs_filter_def split: option.splits if_splits)

lemma rs_filter_Some:
  assumes "rs_ok (rs_set s)" "fst r < snd r" "rs_filter s r = Some (c, d)"
  shows "fst r \<le> c \<and> c < d \<and> d \<le> snd r \<and> {fst r..<c} \<subseteq> rs_elems (rs_set s) \<and>
    {c..<d} \<inter> rs_elems (rs_set s) = {} \<and> (d < snd r \<longrightarrow> d \<in> rs_elems (rs_set s))"
proof (cases "rs_is_empty s")
  case True
  then show ?thesis using assms by (auto simp: rs_filter_def rs_is_empty_def)
next
  case False
  let ?m = "rs_set s"
  have c: "(case prev_to ?m (fst r) of None \<Rightarrow> Some (fst r)
      | Some p \<Rightarrow> if snd p \<ge> snd r then None else if snd p > fst r then Some (snd p) else Some (fst r))
      = Some c"
    and d: "d = (case next_after ?m (fst r) of None \<Rightarrow> snd r
      | Some p \<Rightarrow> if fst p < snd r then fst p else snd r)"
    using assms(3) False by (auto simp: rs_filter_def split: option.splits)
  note st = rs_filter_start(2)[OF assms(1,2) c]
  note en = rs_filter_end[OF assms(1,2), folded d]
  have "x \<notin> rs_elems ?m" if "x \<in> {c..<d}" for x
  proof
    assume "x \<in> rs_elems ?m"
    then obtain q where q: "q \<in> set ?m" "fst q \<le> x" "x < snd q" by (auto simp: rs_elems_iff)
    then show False using st en that by (cases "fst q \<le> fst r") fastforce+
  qed
  moreover have "c < d"
  proof (rule ccontr)
    assume "\<not> c < d"
    then have "d < snd r" using st by simp
    then obtain n where n: "next_after ?m (fst r) = Some n" "fst n = d"
      using d by (auto split: option.splits if_splits)
    then have nn: "n \<in> set ?m" "fst r < fst n" using assms(1) by (auto simp: next_after_Some)
    show False
    proof (cases "prev_to ?m (fst r)")
      case None
      then show False using c \<open>\<not> c < d\<close> n nn by simp
    next
      case (Some p)
      then have pp: "p \<in> set ?m" "fst p \<le> fst r" using assms(1) by (auto simp: prev_to_Some)
      have "c = snd p \<or> c = fst r" using c Some by (auto split: if_splits)
      moreover have "snd p < fst n" using assms(1) pp nn by (simp add: rs_ok_def)
      ultimately show False using \<open>\<not> c < d\<close> n nn by auto
    qed
  qed
  ultimately show ?thesis using st en by auto
qed


subsection \<open>Removing a prefix\<close>

lemma remove_until_loop_spec:
  assumes "rs_ok (rs_set s)" "elem < u64_max" "rs_len s \<le> rs_capacity s"
    and "rs = bm_upto elem (rs_set s)"
  shows "\<exists>s'. remove_until_loop elem rs s = Ok s' \<and> rs_ok (rs_set s') \<and>
    rs_capacity s' = rs_capacity s \<and> rs_elems (rs_set s') = rs_elems (rs_set s) - {..elem}"
  using assms
proof (induction elem rs s rule: remove_until_loop.induct)
  case (1 elem s)
  then have "\<forall>r \<in> set (rs_set s). elem < fst r" using bm_upto_empty by metis
  then have "rs_elems (rs_set s) \<inter> {..elem} = {}" by (fastforce simp: rs_elems_iff)
  then show ?case using 1 by auto
next
  case (2 elem r rs s)
  let ?m = "rs_set s" and ?s1 = "s\<lparr>rs_set := bm_remove (fst r) (rs_set s)\<rparr>"
  have srt: "bm_sorted ?m" and r: "r \<in> set ?m" "fst r \<le> elem"
    using "2.prems"(1,4) by (auto simp: bm_upto_def dest!: Cons_eq_filterD)
  have "bm_sorted (r # rs)" using srt "2.prems"(4) by (simp add: bm_upto_def)
  then have gt: "\<forall>q \<in> set rs. fst r < fst q" by (simp add: bm_sorted_Cons)
  have ok1: "rs_ok (rs_set ?s1)" using "2.prems"(1) by simp
  have len1: "rs_len ?s1 < rs_capacity ?s1"
    using length_bm_remove_less[OF r(1) refl] "2.prems"(3) by (simp add: rs_len_def)
  have el1: "rs_elems (rs_set ?s1) = rs_elems ?m - {fst r..<snd r}"
    using rs_elems_remove[OF "2.prems"(1) r(1)] by simp
  have rs1: "rs = bm_upto elem (rs_set ?s1)"
  proof -
    have "bm_upto elem (bm_remove (fst r) ?m) = bm_remove (fst r) (bm_upto elem ?m)"
      by (simp add: bm_upto_def bm_remove_def conj_commute)
    also have "\<dots> = rs" using "2.prems"(4)[symmetric] gt
      by (fastforce simp: bm_remove_def filter_id_conv)
    finally show ?thesis by simp
  qed
  have step: "remove_until_loop elem (r # rs) s = remove_until_loop elem rs
      (if snd r > elem + 1 then rs_insert ?s1 (elem + 1, snd r) else ?s1)"
    using "2.prems"(2) by (simp add: Let_def add64_def)
  show ?case
  proof (cases "snd r > elem + 1")
    case False
    have "\<exists>s'. remove_until_loop elem rs ?s1 = Ok s' \<and> rs_ok (rs_set s') \<and>
        rs_capacity s' = rs_capacity ?s1 \<and>
        rs_elems (rs_set s') = rs_elems (rs_set ?s1) - {..elem}"
      using "2.IH"[of ?s1 "elem + 1"] ok1 "2.prems"(2) len1 rs1 False by simp
    moreover have "{fst r..<snd r} \<subseteq> {..elem}" using False by auto
    then have "rs_elems (rs_set ?s1) - {..elem} = rs_elems ?m - {..elem}" unfolding el1 by blast
    ultimately show ?thesis using step False by simp
  next
    case True
    have "rs = []"
    proof (rule ccontr)
      assume "rs \<noteq> []"
      then obtain q where q: "q \<in> set rs" by (cases rs) auto
      then have "q \<in> set ?m" "fst q \<le> elem" using "2.prems"(4)[symmetric] rs1
        by (auto simp: bm_upto_def bm_remove_def)
      moreover have "snd r < fst q"
        using "2.prems"(1) r(1) gt q calculation by (simp add: rs_ok_def)
      ultimately show False using True by simp
    qed
    let ?s2 = "rs_insert ?s1 (elem + 1, snd r)"
    have ub: "snd r \<le> u64_max" using "2.prems"(1) r(1) by (simp add: rs_ok_def)
    have sp: "rs_ok (rs_set ?s2)" "rs_elems (rs_set ?s2) = rs_elems (rs_set ?s1) \<union> {elem + 1..<snd r}"
      using rs_insert_spec[OF ok1, of "(elem + 1, snd r)"] ub len1 by auto
    have hi: "rs_elems (rs_set ?s1) \<inter> {..elem} = {}"
    proof -
      have "\<forall>q \<in> set (rs_set ?s1). elem < fst q" using rs1 \<open>rs = []\<close> bm_upto_empty by metis
      then show ?thesis by (fastforce simp: rs_elems_iff)
    qed
    have "rs_elems ?m = rs_elems (rs_set ?s1) \<union> {fst r..<snd r}"
      using rs_elems_remove_Un[OF "2.prems"(1) r(1)] by simp
    moreover have "{fst r..<snd r} - {..elem} = {elem + 1..<snd r}" using r(2) True by auto
    ultimately have "rs_elems (rs_set ?s2) = rs_elems ?m - {..elem}"
      unfolding sp(2) using hi by blast
    then show ?thesis using step True sp(1) \<open>rs = []\<close> by simp
  qed
qed

lemma rs_remove_until_spec:
  assumes "rs_ok (rs_set s)" "elem < u64_max" "rs_len s \<le> rs_capacity s"
  shows "\<exists>s'. rs_remove_until s elem = Ok s' \<and> rs_ok (rs_set s') \<and>
    rs_capacity s' = rs_capacity s \<and> rs_elems (rs_set s') = rs_elems (rs_set s) - {..elem}"
  using remove_until_loop_spec[OF assms refl] by (simp add: rs_remove_until_def)

subsection \<open>Iteration over the elements\<close>

text \<open>\<open>collect\<close> on \<open>Flatten\<close>: one call of \<open>next\<close> per unit of fuel.\<close>

fun flatten_collect :: "nat \<Rightarrow> flatten_iter \<Rightarrow> nat list" where
  "flatten_collect 0 it = []"
| "flatten_collect (Suc n) it =
     (case flatten_next it of (it', None) \<Rightarrow> [] | (it', Some x) \<Rightarrow> x # flatten_collect n it')"

lemma flatten_collect_eq:
  assumes "fl_next it \<le> fl_end it" "\<forall>r \<in> set (fl_set it). fst r < snd r"
    and "(fl_end it - fl_next it) + (\<Sum>r \<leftarrow> fl_set it. snd r - fst r) \<le> n"
  shows "flatten_collect n it =
    [fl_next it..<fl_end it] @ concat (map (\<lambda>r. [fst r..<snd r]) (fl_set it))"
  using assms
proof (induction n it rule: flatten_collect.induct)
  case (1 it)
  then have "fl_set it = []" by (cases "fl_set it") auto
  then show ?case using 1 by simp
next
  case (2 n it)
  show ?case
  proof (cases "fl_next it = fl_end it")
    case False
    then have nx: "flatten_next it = (it\<lparr>fl_next := fl_next it + 1\<rparr>, Some (fl_next it))"
      by (simp add: flatten_next_def)
    have "flatten_collect n (it\<lparr>fl_next := fl_next it + 1\<rparr>) =
        [fl_next it + 1..<fl_end it] @ concat (map (\<lambda>r. [fst r..<snd r]) (fl_set it))"
      using "2.IH"[OF nx[symmetric] refl] "2.prems" False by simp
    then show ?thesis using nx False "2.prems"(1) by (simp add: upt_conv_Cons)
  next
    case True
    show ?thesis
    proof (cases "fl_set it")
      case Nil
      then show ?thesis using True by (simp add: flatten_next_def)
    next
      case (Cons r rs)
      let ?it = "\<lparr>fl_set = rs, fl_next = fst r + 1, fl_end = snd r\<rparr>"
      have nx: "flatten_next it = (?it, Some (fst r))"
        using True Cons by (simp add: flatten_next_def)
      have "fst r < snd r" using "2.prems"(2) Cons by simp
      then show ?thesis using "2.IH"[OF nx[symmetric] refl] "2.prems" nx True Cons
        by (simp add: upt_conv_Cons)
    qed
  qed
qed

lemma concat_ranges_sorted:
  "rs_ok m \<Longrightarrow> sorted_wrt (<) (concat (map (\<lambda>r. [fst r..<snd r]) m)) \<and>
    set (concat (map (\<lambda>r. [fst r..<snd r]) m)) = rs_elems m"
proof (induction m)
  case (Cons r m)
  then have "\<forall>x \<in> rs_elems m. snd r < x" by (fastforce simp: rs_ok_Cons rs_elems_iff)
  then show ?case using Cons by (auto simp: rs_ok_Cons sorted_wrt_append)
qed simp

lemma rs_flatten_collect:
  assumes "rs_ok (rs_set s)" "(\<Sum>r \<leftarrow> rs_set s. snd r - fst r) \<le> n"
  shows "sorted_wrt (<) (flatten_collect n (rs_flatten s))"
    and "set (flatten_collect n (rs_flatten s)) = rs_elems (rs_set s)"
  using flatten_collect_eq[of "rs_flatten s" n] concat_ranges_sorted[OF assms(1)] assms
  by (auto simp: rs_flatten_def rs_ok_def)

text \<open>
  Taking elements from both ends is not what \<open>DoubleEndedIterator\<close> promises: the back
  end continues inside the range the front has opened.
\<close>

lemma flatten_mixed_ends:
  "snd (flatten_next_back (fst (flatten_next
      (rs_flatten \<lparr>rs_set = [(1, 3), (5, 7)], rs_capacity = usize_max\<rparr>)))) = Some 2"
  by (simp add: rs_flatten_def flatten_next_def flatten_next_back_def)


section \<open>The contract\<close>

text \<open>
  What the clients rely on: an operation keeps the invariant, its effect on the set of
  elements, and that a set has one representation. \<open>seg\<close> is the set of a range.
\<close>

definition seg :: "range \<Rightarrow> nat set" where
  "seg r = {fst r..<snd r}"

locale interval_set =
  fixes empty :: 's
    and ins :: "'s \<Rightarrow> range \<Rightarrow> 's"
    and del :: "'s \<Rightarrow> range \<Rightarrow> 's"
    and clear :: "'s \<Rightarrow> 's"
    and has :: "'s \<Rightarrow> nat \<Rightarrow> bool"
    and pop :: "'s \<Rightarrow> 's \<times> range option"
    and least :: "'s \<Rightarrow> nat option"
    and elems :: "'s \<Rightarrow> nat set"
    and invar :: "'s \<Rightarrow> bool"
  assumes invar_empty: "invar empty"
    and invar_ins: "invar s \<Longrightarrow> snd r \<le> u64_max \<Longrightarrow> invar (ins s r)"
    and invar_del: "invar s \<Longrightarrow> snd r \<le> u64_max \<Longrightarrow> invar (del s r)"
    and invar_clear: "invar s \<Longrightarrow> invar (clear s)"
    and elems_empty: "elems empty = {}"
    and elems_clear: "elems (clear s) = {}"
    and elems_ins: "invar s \<Longrightarrow> snd r \<le> u64_max \<Longrightarrow> elems (ins s r) = elems s \<union> seg r"
    and elems_del: "invar s \<Longrightarrow> snd r \<le> u64_max \<Longrightarrow> elems (del s r) = elems s - seg r"
    and has_iff: "invar s \<Longrightarrow> has s x \<longleftrightarrow> x \<in> elems s"
    and least_None: "invar s \<Longrightarrow> least s = None \<longleftrightarrow> elems s = {}"
    and least_Some: "invar s \<Longrightarrow> least s = Some x \<Longrightarrow> x \<in> elems s \<and> (\<forall>y \<in> elems s. x \<le> y)"
    and pop_None: "pop s = (s', None) \<Longrightarrow> s' = s \<and> (invar s \<longrightarrow> elems s = {})"
    and pop_Some: "invar s \<Longrightarrow> pop s = (s', Some r) \<Longrightarrow>
      invar s' \<and> elems s = seg r \<union> elems s' \<and> least s = Some (fst r) \<and>
      fst r < snd r \<and> snd r \<le> u64_max \<and> (\<forall>y \<in> elems s'. snd r < y)"
    and canonical: "invar s \<Longrightarrow> invar s' \<Longrightarrow> elems s = elems s' \<Longrightarrow> s = s'"
begin

lemma ins_commute:
  "invar s \<Longrightarrow> snd r \<le> u64_max \<Longrightarrow> snd q \<le> u64_max \<Longrightarrow> ins (ins s r) q = ins (ins s q) r"
  by (rule canonical) (auto simp: invar_ins elems_ins)

lemma ins_absorb:
  "invar s \<Longrightarrow> snd r \<le> u64_max \<Longrightarrow> seg r \<subseteq> elems s \<Longrightarrow> ins s r = s"
  by (rule canonical) (auto simp: invar_ins elems_ins)

lemma del_fresh:
  "invar s \<Longrightarrow> snd r \<le> u64_max \<Longrightarrow> seg r \<inter> elems s = {} \<Longrightarrow> del s r = s"
  by (rule canonical) (auto simp: invar_del elems_del)

lemma del_ins:
  "invar s \<Longrightarrow> snd r \<le> u64_max \<Longrightarrow> seg r \<inter> elems s = {} \<Longrightarrow> del (ins s r) r = s"
  by (rule canonical) (auto simp: invar_del invar_ins elems_del elems_ins)

lemma least_eqI:
  assumes "invar s" "x \<in> elems s" "\<forall>y \<in> elems s. x \<le> y"
  shows "least s = Some x"
proof (cases "least s")
  case None
  then show ?thesis using least_None[OF assms(1)] assms(2) by simp
next
  case (Some y)
  then show ?thesis using least_Some[OF assms(1) Some] assms(2,3) by (simp add: le_antisym)
qed

lemma least_le: "invar s \<Longrightarrow> least s = Some x \<Longrightarrow> y \<in> elems s \<Longrightarrow> x \<le> y"
  using least_Some by blast

end

definition rs_uinv :: "range_set \<Rightarrow> bool" where
  "rs_uinv s \<longleftrightarrow> rs_ok (rs_set s) \<and> rs_capacity s = usize_max"

interpretation rs: interval_set
  rs_default rs_insert rs_remove rs_clear rs_contains rs_pop_min rs_min rs_alpha rs_uinv
proof (unfold_locales, goal_cases)
  case (2 s r)
  then show ?case using rs_insert_spec[of s r] by (simp add: rs_uinv_def)
next
  case (3 s r)
  then show ?case using rs_remove_spec[of s r] by (simp add: rs_uinv_def)
next
  case (7 s r)
  then show ?case using rs_insert_unbounded[of s r] by (simp add: rs_uinv_def rs_alpha_def seg_def)
next
  case (8 s r)
  then show ?case using rs_remove_spec[of s r] by (simp add: rs_uinv_def rs_alpha_def seg_def)
next
  case (9 s x)
  then show ?case by (simp add: rs_uinv_def rs_alpha_def rs_contains_iff)
next
  case (10 s)
  then show ?case by (simp add: rs_uinv_def rs_alpha_def rs_elems_empty rs_min_None)
next
  case (11 s x)
  then show ?case using rs_min_Some[of s x] by (simp add: rs_uinv_def rs_alpha_def)
next
  case (12 s s')
  then show ?case by (simp add: rs_pop_min_None rs_alpha_def)
next
  case (13 s s' r)
  then have "rs_min s = Some (fst r)"
    by (cases r) (auto simp: rs_pop_min_def rs_peek_min_def rs_min_def rs_iter_def split: option.splits)
  then show ?case using rs_pop_min_spec[OF _ 13(2)] 13(1)
    by (simp add: rs_uinv_def rs_alpha_def seg_def)
next
  case (14 s s')
  then have "rs_set s = rs_set s'" using rs_ok_unique by (simp add: rs_uinv_def rs_alpha_def)
  then show ?case using 14 by (simp add: rs_uinv_def)
qed (simp_all add: rs_uinv_def rs_default_def rs_new_def rs_clear_def rs_alpha_def)

lemmas rs_specs = rs.invar_empty rs.invar_ins rs.invar_del rs.invar_clear rs.elems_empty
  rs.elems_clear rs.elems_ins rs.elems_del rs.has_iff

lemma seg_iff [simp]: "x \<in> seg (a, b) \<longleftrightarrow> a \<le> x \<and> x < b"
  by (simp add: seg_def)

lemma rs_uinv_is_empty: "rs_uinv s \<Longrightarrow> rs_is_empty s \<longleftrightarrow> rs_alpha s = {}"
  by (simp add: rs_uinv_def rs_is_empty_def rs_alpha_def rs_elems_empty)


section \<open>Refinement of sets of numbers\<close>

text \<open>
  Every sequence of updates on a \<open>RangeSet\<close> without a capacity bound is the sequence of the
  corresponding updates on the set of its elements, and the observers agree with that set.
\<close>

datatype rs_op = RsInsert range | RsAddElem nat | RsRemove range | RsRemoveElem nat | RsRemoveUntil nat | RsClear | RsPopMin

fun rs_exec :: "rs_op \<Rightarrow> range_set \<Rightarrow> range_set qres" where
  "rs_exec (RsInsert r) s = Ok (rs_insert s r)"
| "rs_exec (RsAddElem x) s = rs_add_elem s x"
| "rs_exec (RsRemove r) s = Ok (rs_remove s r)"
| "rs_exec (RsRemoveElem x) s = rs_remove_elem s x"
| "rs_exec (RsRemoveUntil x) s = rs_remove_until s x"
| "rs_exec RsClear s = Ok (rs_clear s)"
| "rs_exec RsPopMin s = Ok (fst (rs_pop_min s))"

definition first_run :: "nat set \<Rightarrow> nat set" where
  "first_run A = {x \<in> A. \<forall>y. (\<exists>m \<in> A. (\<forall>z \<in> A. m \<le> z) \<and> m \<le> y) \<and> y \<le> x \<longrightarrow> y \<in> A}"

fun set_exec :: "rs_op \<Rightarrow> nat set \<Rightarrow> nat set" where
  "set_exec (RsInsert r) A = A \<union> {fst r..<snd r}"
| "set_exec (RsAddElem x) A = insert x A"
| "set_exec (RsRemove r) A = A - {fst r..<snd r}"
| "set_exec (RsRemoveElem x) A = A - {x}"
| "set_exec (RsRemoveUntil x) A = A - {..x}"
| "set_exec RsClear A = {}"
| "set_exec RsPopMin A = A - first_run A"

fun rs_op_bounded :: "rs_op \<Rightarrow> bool" where
  "rs_op_bounded (RsInsert r) \<longleftrightarrow> snd r \<le> u64_max"
| "rs_op_bounded (RsAddElem x) \<longleftrightarrow> x < u64_max"
| "rs_op_bounded (RsRemove r) \<longleftrightarrow> snd r \<le> u64_max"
| "rs_op_bounded (RsRemoveElem x) \<longleftrightarrow> x < u64_max"
| "rs_op_bounded (RsRemoveUntil x) \<longleftrightarrow> x < u64_max"
| "rs_op_bounded _ \<longleftrightarrow> True"

lemma first_run_pop:
  assumes "A = {a..<b} \<union> B" "a < b" "\<forall>y \<in> B. b < y"
  shows "A - first_run A = B"
proof -
  have m: "(\<exists>m \<in> A. (\<forall>z \<in> A. m \<le> z) \<and> m \<le> y) \<longleftrightarrow> a \<le> y" for y
    using assms by (auto intro!: bexI[of _ a])
  have "x \<in> A \<and> (\<forall>y. a \<le> y \<and> y \<le> x \<longrightarrow> y \<in> A) \<longleftrightarrow> a \<le> x \<and> x < b" for x
  proof (cases "x < b")
    case False
    then have "a \<le> b \<and> b \<le> x" "b \<notin> A" using assms by auto
    then show ?thesis using False by blast
  qed (use assms in auto)
  then have "first_run A = {a..<b}" unfolding first_run_def m by (simp only: set_eq_iff mem_Collect_eq atLeastLessThan_iff) simp
  then show ?thesis using assms by (simp add: Un_Diff) (auto simp: less_imp_not_less)
qed

lemma rs_exec_refines:
  assumes inv: "rs_uinv s" and b: "rs_op_bounded oper"
  shows "\<exists>s'. rs_exec oper s = Ok s' \<and> rs_uinv s' \<and> rs_alpha s' = set_exec oper (rs_alpha s)"
proof (cases oper)
  case (RsRemoveUntil x)
  have "rs_len s \<le> rs_capacity s" using inv rs_ok_length_lt[of "rs_set s"] by (simp add: rs_uinv_def rs_len_def)
  then show ?thesis using inv b RsRemoveUntil rs_remove_until_spec[of s x] by (auto simp: rs_uinv_def rs_alpha_def)
next
  case RsPopMin
  show ?thesis
  proof (cases "rs_pop_min s")
    case (Pair s' r)
    show ?thesis
    proof (cases r)
      case None
      then have "s' = s" "rs_alpha s = {}" using rs.pop_None[of s s'] inv Pair by simp_all
      then show ?thesis using RsPopMin Pair inv by (simp add: first_run_def)
    next
      case (Some r')
      then have "rs_uinv s'" "rs_alpha s = {fst r'..<snd r'} \<union> rs_alpha s'" "fst r' < snd r'" "\<forall>y \<in> rs_alpha s'. snd r' < y"
        using rs.pop_Some[OF inv, of s' r'] Pair by (simp_all add: seg_def)
      then show ?thesis using RsPopMin Pair first_run_pop[of "rs_alpha s"] by simp
    qed
  qed
next
  case (RsAddElem x)
  then show ?thesis using inv b rs_specs(2,7)[OF inv, of "(x, Suc x)"] by (auto simp: rs_add_elem_def add64_def seg_def)
next
  case (RsRemoveElem x)
  then show ?thesis using inv b rs_specs(3,8)[OF inv, of "(x, Suc x)"] by (auto simp: rs_remove_elem_def add64_def seg_def)
qed (use inv b rs_specs in \<open>auto simp: seg_def\<close>)

definition rs_run :: "rs_op list \<Rightarrow> range_set qres" where
  "rs_run ops = fold (\<lambda>oper r. rbind r (rs_exec oper)) ops (Ok rs_default)"

lemma rs_run_refines:
  assumes "\<forall>oper \<in> set ops. rs_op_bounded oper"
  shows "\<exists>s. rs_run ops = Ok s \<and> rs_uinv s \<and> rs_alpha s = fold set_exec ops {}"
  using assms
proof (induction ops rule: rev_induct)
  case Nil
  then show ?case using rs_specs(1,5) by (simp add: rs_run_def)
next
  case (snoc oper ops)
  then obtain s where "rs_run ops = Ok s" "rs_uinv s" "rs_alpha s = fold set_exec ops {}" by auto
  moreover have "rs_run (ops @ [oper]) = rbind (rs_run ops) (rs_exec oper)" by (simp add: rs_run_def)
  ultimately show ?case using rs_exec_refines[of s oper] snoc.prems by auto
qed

lemma rs_max_None: "rs_max s = None \<longleftrightarrow> rs_set s = []"
  by (simp add: rs_max_def rs_iter_def bm_last_def)

text \<open>
  C13: A \<open>RangeSet\<close> without a capacity bound implements a set of numbers: after any sequence of
  insertions, removals, \<open>remove_until\<close>, \<open>clear\<close> and \<open>pop_min\<close> on u64 ranges no operation has
  overflowed, the elements are those the same operations leave in a mathematical set, and
  \<open>contains\<close>, \<open>min\<close>, \<open>max\<close>, \<open>is_empty\<close> and iteration report that set.
\<close>

theorem range_set_refines_set:
  assumes "\<forall>oper \<in> set ops. rs_op_bounded oper"
  defines "A \<equiv> fold set_exec ops {}"
  shows "\<exists>s. rs_run ops = Ok s \<and> rs_alpha s = A \<and> (\<forall>x. rs_contains s x \<longleftrightarrow> x \<in> A) \<and>
    (rs_is_empty s \<longleftrightarrow> A = {}) \<and>
    (\<forall>x. rs_min s = Some x \<longleftrightarrow> x \<in> A \<and> (\<forall>y \<in> A. x \<le> y)) \<and>
    (\<forall>x. rs_max s = Some x \<longleftrightarrow> x \<in> A \<and> (\<forall>y \<in> A. y \<le> x)) \<and>
    (\<exists>n. flatten_collect n (rs_flatten s) = sorted_list_of_set A)"
proof -
  obtain s where s: "rs_run ops = Ok s" "rs_uinv s" "rs_alpha s = A" using rs_run_refines[OF assms(1)] by (auto simp: A_def)
  have ok: "rs_ok (rs_set s)" "rs_elems (rs_set s) = A" using s by (simp_all add: rs_uinv_def rs_alpha_def)
  have "rs_max s = Some x \<longleftrightarrow> x \<in> A \<and> (\<forall>y \<in> A. y \<le> x)" for x
    using rs_max_Some[OF ok(1)] rs_max_None[of s] rs_elems_empty[OF ok(1)] ok(2)
    by (cases "rs_max s") (auto simp: le_antisym)
  moreover have "rs_min s = Some x \<longleftrightarrow> x \<in> A \<and> (\<forall>y \<in> A. x \<le> y)" for x
    using rs.least_Some[OF s(2)] rs.least_eqI[OF s(2)] s(3) by metis
  moreover have "\<exists>n. flatten_collect n (rs_flatten s) = sorted_list_of_set A"
  proof -
    let ?l = "flatten_collect (\<Sum>r \<leftarrow> rs_set s. snd r - fst r) (rs_flatten s)"
    have "sorted_wrt (<) ?l" "set ?l = A" using rs_flatten_collect[OF ok(1) order_refl] ok(2) by simp_all
    then show ?thesis by (metis sorted_list_of_set.idem_if_sorted_distinct strict_sorted_iff)
  qed
  moreover have "\<forall>x. rs_contains s x \<longleftrightarrow> x \<in> A" "rs_is_empty s \<longleftrightarrow> A = {}"
    using rs.has_iff[OF s(2)] rs_uinv_is_empty[OF s(2)] s(3) by simp_all
  ultimately show ?thesis using s(1,3) by blast
qed

theorem range_set_refines_set_witness:
  "\<exists>s. rs_run [RsInsert (1, 4), RsRemoveElem 2, RsPopMin] = Ok s \<and> rs_min s = Some 3 \<and> rs_contains s 3"
proof -
  have "({1..<4} - {2}) - first_run ({1..<4} - {2}) = {3 :: nat}" by (rule first_run_pop[of _ 1 2]) auto
  then have "fold set_exec [RsInsert (1, 4), RsRemoveElem 2, RsPopMin] {} = {3}" by simp
  then show ?thesis using range_set_refines_set[of "[RsInsert (1, 4), RsRemoveElem 2, RsPopMin]"]
    by (fastforce simp: u64_max_def)
qed

end
