(* ===== verification/Codec.thy ===== *)
theory Codec
  imports Quic_Error "HOL-Library.Word"
begin

unbundle bit_operations_syntax

text \<open>
  The wire codec of \<open>src/src/codec.rs\<close>: fixed-width big-endian integers, QUIC
  variable-length integers, byte strings and addresses. A \<open>&mut [u8]\<close> that is written to is
  what has been written with the room that is left; a \<open>&[u8]\<close> that is read from is the list of
  the bytes that remain. Every read and write is shown to be one side of the locale
  \<open>field_codec\<close>, from which the frame codec is built.
\<close>

section \<open>The code\<close>

type_synonym byte = "8 word"
type_synonym bytes = "byte list"
type_synonym wbuf = "bytes \<times> nat"
type_synonym 'a reader = "bytes \<Rightarrow> ('a \<times> bytes) qres"

definition VINT_MAX :: nat where
  "VINT_MAX = 4611686018427387903"

lemma VINT_MAX_u64: "n \<le> VINT_MAX \<Longrightarrow> n \<le> u64_max"
  by (simp add: VINT_MAX_def u64_max_def)

text \<open>Big-endian integers of \<open>k\<close> bytes: \<open>put_u8\<close> to \<open>put_u64\<close> and \<open>get_u8\<close> to \<open>get_u64\<close>.\<close>

fun be_bytes :: "nat \<Rightarrow> nat \<Rightarrow> bytes" where
  "be_bytes 0 n = []"
| "be_bytes (Suc k) n = word_of_nat (n div 256 ^ k) # be_bytes k n"

definition be_value :: "bytes \<Rightarrow> nat" where
  "be_value bs = foldl (\<lambda>acc b. acc * 256 + unat b) 0 bs"

text \<open>
  The primitives of the \<open>bytes\<close> crate and slice indexing panic without the room or the bytes:
  \<open>put_slice\<close>, \<open>copy_to_slice\<close> and \<open>self[len..]\<close>, \<open>get_u8\<close> to \<open>get_u64\<close>.
\<close>

definition put :: "bytes \<Rightarrow> wbuf \<Rightarrow> wbuf qres" where
  "put bs b = (if length bs \<le> snd b then Ok (fst b @ bs, snd b - length bs) else Panic)"

definition split_to :: "nat \<Rightarrow> bytes reader" where
  "split_to n b = (if n \<le> length b then Ok (take n b, drop n b) else Panic)"

definition get_be :: "nat \<Rightarrow> nat reader" where
  "get_be k b = rbind (split_to k b) (\<lambda>(bs, b). Ok (be_value bs, b))"

definition write_u8 :: "nat \<Rightarrow> wbuf \<Rightarrow> wbuf qres" where
  "write_u8 n b = (if snd b < 1 then Err BufferTooShort else put (be_bytes 1 n) b)"

definition write_u16 :: "nat \<Rightarrow> wbuf \<Rightarrow> wbuf qres" where
  "write_u16 n b = (if snd b < 2 then Err BufferTooShort else put (be_bytes 2 n) b)"

definition write_u24 :: "nat \<Rightarrow> wbuf \<Rightarrow> wbuf qres" where
  "write_u24 n b =
     (if snd b < 3 then Err BufferTooShort
      else rbind (put (be_bytes 1 (drop_bit 16 (n AND 0xFF0000))) b) (put (be_bytes 2 (n AND 0xFFFF))))"

definition write_u32 :: "nat \<Rightarrow> wbuf \<Rightarrow> wbuf qres" where
  "write_u32 n b = (if snd b < 4 then Err BufferTooShort else put (be_bytes 4 n) b)"

definition write_u64 :: "nat \<Rightarrow> wbuf \<Rightarrow> wbuf qres" where
  "write_u64 n b = (if snd b < 8 then Err BufferTooShort else put (be_bytes 8 n) b)"

definition decode_varint_len :: "byte \<Rightarrow> nat qres" where
  "decode_varint_len first =
     (let k = unat (drop_bit 6 first) in
      if k = 0 then Ok 1 else if k = 1 then Ok 2 else if k = 2 then Ok 4 else if k = 3 then Ok 8 else Panic)"

definition encode_varint_len :: "nat \<Rightarrow> nat qres" where
  "encode_varint_len n =
     (if n \<le> 63 then Ok 1
      else if n \<le> 16383 then Ok 2
      else if n \<le> 1073741823 then Ok 4
      else if n \<le> 4611686018427387903 then Ok 8
      else Panic)"

definition write_varint_with_len :: "nat \<Rightarrow> nat \<Rightarrow> wbuf \<Rightarrow> wbuf qres" where
  "write_varint_with_len n len b =
     (if snd b < len then Err BufferTooShort
      else if len = 1 then put (be_bytes 1 n) b
      else if len = 2 then put (be_bytes 2 (take_bit 16 n OR 0x4000)) b
      else if len = 4 then put (be_bytes 4 (take_bit 32 n OR 0x80000000)) b
      else if len = 8 then put (be_bytes 8 (n OR 0xc000000000000000)) b
      else Panic)"

definition write_varint :: "nat \<Rightarrow> wbuf \<Rightarrow> wbuf qres" where
  "write_varint n b = rbind (encode_varint_len n) (\<lambda>len. write_varint_with_len n len b)"

definition write_slice :: "bytes \<Rightarrow> wbuf \<Rightarrow> wbuf qres" where
  "write_slice src b = (if snd b < length src then Err BufferTooShort else put src b)"

text \<open>Addresses are their octets: four of an \<open>Ipv4Addr\<close>, sixteen of an \<open>Ipv6Addr\<close>.\<close>

definition write_ipv4_addr :: "bytes \<Rightarrow> wbuf \<Rightarrow> wbuf qres" where
  "write_ipv4_addr octets b = (if snd b < 4 then Err BufferTooShort else put octets b)"

definition write_ipv6_addr :: "bytes \<Rightarrow> wbuf \<Rightarrow> wbuf qres" where
  "write_ipv6_addr octets b = (if snd b < 16 then Err BufferTooShort else put octets b)"

definition read_u8 :: "nat reader" where
  "read_u8 b = (if length b < 1 then Err BufferTooShort else get_be 1 b)"

definition read_u16 :: "nat reader" where
  "read_u16 b = (if length b < 2 then Err BufferTooShort else get_be 2 b)"

definition read_u24 :: "nat reader" where
  "read_u24 b =
     (if length b < 3 then Err BufferTooShort
      else rbind (get_be 2 b) (\<lambda>(n, b). rbind (get_be 1 b) (\<lambda>(m, b). Ok (push_bit 8 n + m, b))))"

definition read_u32 :: "nat reader" where
  "read_u32 b = (if length b < 4 then Err BufferTooShort else get_be 4 b)"

definition read_u64 :: "nat reader" where
  "read_u64 b = (if length b < 8 then Err BufferTooShort else get_be 8 b)"

definition read_varint :: "nat reader" where
  "read_varint b =
     (if length b < 1 then Err BufferTooShort
      else case b of [] \<Rightarrow> Panic | first # _ \<Rightarrow> rbind (decode_varint_len first) (\<lambda>len.
        if length b < len then Err BufferTooShort
        else if len = 1 then read_u8 b
        else if len = 2 then rbind (read_u16 b) (\<lambda>(v, b). Ok (v AND 0x3fff, b))
        else if len = 4 then rbind (read_u32 b) (\<lambda>(v, b). Ok (v AND 0x3fffffff, b))
        else if len = 8 then rbind (read_u64 b) (\<lambda>(v, b). Ok (v AND 0x3fffffffffffffff, b))
        else Panic))"

definition read_bytes :: "nat \<Rightarrow> bytes reader" where
  "read_bytes len b = (if length b < len then Err BufferTooShort else split_to len b)"

definition read_with_varint_length :: "bytes reader" where
  "read_with_varint_length b = rbind (read_varint b) (\<lambda>(len, b). read_bytes len b)"

definition read_with_u8_length :: "bytes reader" where
  "read_with_u8_length b = rbind (read_u8 b) (\<lambda>(len, b). read_bytes len b)"

definition skip :: "nat \<Rightarrow> unit reader" where
  "skip len b =
     (if length b < len then Err BufferTooShort else rbind (split_to len b) (\<lambda>(_, b). Ok ((), b)))"

definition read_ipv4_addr :: "bytes reader" where
  "read_ipv4_addr b = (if length b < 4 then Err BufferTooShort else split_to 4 b)"

definition read_ipv6_addr :: "bytes reader" where
  "read_ipv6_addr b = (if length b < 16 then Err BufferTooShort else split_to 16 b)"

text \<open>Behind their guards the readers do not reach the panics.\<close>

lemma readers_guarded:
  shows read_u8_eq: "read_u8 b = (if length b < 1 then Err BufferTooShort else Ok (be_value (take 1 b), drop 1 b))"
    and read_u16_eq: "read_u16 b = (if length b < 2 then Err BufferTooShort else Ok (be_value (take 2 b), drop 2 b))"
    and read_u24_eq: "read_u24 b = (if length b < 3 then Err BufferTooShort
      else Ok (push_bit 8 (be_value (take 2 b)) + be_value (take 1 (drop 2 b)), drop 3 b))"
    and read_u32_eq: "read_u32 b = (if length b < 4 then Err BufferTooShort else Ok (be_value (take 4 b), drop 4 b))"
    and read_u64_eq: "read_u64 b = (if length b < 8 then Err BufferTooShort else Ok (be_value (take 8 b), drop 8 b))"
    and read_bytes_eq: "read_bytes n b = (if length b < n then Err BufferTooShort else Ok (take n b, drop n b))"
    and skip_eq: "skip n b = (if length b < n then Err BufferTooShort else Ok ((), drop n b))"
    and read_ipv4_addr_eq: "read_ipv4_addr b = (if length b < 4 then Err BufferTooShort else Ok (take 4 b, drop 4 b))"
    and read_ipv6_addr_eq: "read_ipv6_addr b = (if length b < 16 then Err BufferTooShort else Ok (take 16 b, drop 16 b))"
  by (simp_all add: read_u8_def read_u16_def read_u24_def read_u32_def read_u64_def read_bytes_def skip_def
      read_ipv4_addr_def read_ipv6_addr_def get_be_def split_to_def le_diff_conv2 not_less del: One_nat_def)
    (auto simp: Suc_le_eq)

lemma read_varint_eq:
  "read_varint b =
     (if length b < 1 then Err BufferTooShort
      else rbind (decode_varint_len (b ! 0)) (\<lambda>len.
        if length b < len then Err BufferTooShort
        else if len = 1 then read_u8 b
        else if len = 2 then rbind (read_u16 b) (\<lambda>(v, b). Ok (v AND 0x3fff, b))
        else if len = 4 then rbind (read_u32 b) (\<lambda>(v, b). Ok (v AND 0x3fffffff, b))
        else if len = 8 then rbind (read_u64 b) (\<lambda>(v, b). Ok (v AND 0x3fffffffffffffff, b))
        else Panic))"
proof (cases b)
  case (Cons x xs)
  then show ?thesis unfolding Cons by (simp add: read_varint_def)
qed (simp add: read_varint_def)

text \<open>The number of significant bits, \<open>u64::BITS - n.leading_zeros()\<close>.\<close>

fun bit_len :: "nat \<Rightarrow> nat" where
  "bit_len n = (if n = 0 then 0 else Suc (bit_len (n div 2)))"

declare bit_len.simps [simp del]

lemma less_bit_len: "n < 2 ^ bit_len n"
proof (induction n rule: bit_len.induct)
  case (1 n)
  then show ?case by (cases "n = 0") (auto simp: bit_len.simps[of n])
qed

lemma bit_len_le: "n < 2 ^ k \<Longrightarrow> bit_len n \<le> k"
proof (induction n arbitrary: k rule: bit_len.induct)
  case (1 n)
  then show ?case by (cases k) (auto simp: bit_len.simps[of n] bit_len.simps[of 0])
qed

section \<open>Big-endian integers\<close>

lemma length_be_bytes [simp]: "length (be_bytes k n) = k"
  by (induction k) auto

lemma be_bytes_Nil [simp]: "be_bytes k n = [] \<longleftrightarrow> k = 0"
  using length_be_bytes[of k n] by (metis length_0_conv)

lemma foldl_be: "foldl (\<lambda>acc b. acc * 256 + unat b) a bs = a * 256 ^ length bs + be_value bs" for bs :: bytes
proof (induction bs arbitrary: a)
  case (Cons x bs)
  have "be_value (x # bs) = unat x * 256 ^ length bs + be_value bs"
    unfolding be_value_def foldl_Cons by (subst Cons.IH[unfolded be_value_def]) (simp add: be_value_def)
  then show ?case using Cons.IH[of "a * 256 + unat x"] by (simp add: algebra_simps)
qed (simp add: be_value_def)

lemma be_value_Cons [simp]: "be_value (x # bs) = unat x * 256 ^ length bs + be_value bs"
  unfolding be_value_def foldl_Cons by (subst foldl_be) (simp add: be_value_def)

lemma be_value_Nil [simp]: "be_value [] = 0"
  by (simp add: be_value_def)

lemma be_value_be_bytes: "be_value (be_bytes k n) = n mod 256 ^ k"
proof (induction k)
  case (Suc k)
  have "n mod (256 * 256 ^ k) = 256 ^ k * (n div 256 ^ k mod 256) + n mod 256 ^ k"
    using mod_mult2_eq[of n "256 ^ k" 256] by (simp add: mult.commute)
  then show ?case by (simp add: Suc unat_of_nat mult.commute)
qed simp

lemma be_value_less: "be_value bs < 256 ^ length bs"
proof (induction bs)
  case (Cons x bs)
  have "unat x < 256" using unsigned_less[of x] by simp
  then have "Suc (unat x) * 256 ^ length bs \<le> 256 * 256 ^ length bs" by (intro mult_le_mono1) simp
  then have "unat x * 256 ^ length bs + 256 ^ length bs \<le> 256 ^ length (x # bs)" by (simp add: add.commute)
  then show ?case using Cons unfolding be_value_Cons by linarith
qed simp

declare be_bytes.simps [simp del]

section \<open>Fields\<close>

text \<open>
  A field is written as a fixed string of bytes when there is room for it, and reading that
  string gives the value back; a reader that does not see all of it asks for more.
\<close>

definition emit :: "bytes \<Rightarrow> wbuf \<Rightarrow> wbuf qres" where
  "emit bs b = (if snd b < length bs then Err BufferTooShort else put bs b)"

lemma emit_seq [simp]: "rbind (emit xs b) (emit ys) = emit (xs @ ys) b"
  by (auto simp: emit_def put_def)

lemma emit_seq_more [simp]: "rbind (emit xs b) (\<lambda>b. rbind (emit ys b) f) = rbind (emit (xs @ ys) b) f"
  by (auto simp: emit_def put_def)

lemma emit_Nil [simp]: "emit [] b = Ok b"
  by (simp add: emit_def put_def)

lemma emit_total: "emit bs ([], cap) = (if length bs \<le> cap then Ok (bs, cap - length bs) else Err BufferTooShort)"
  by (auto simp: emit_def put_def)

locale field_codec =
  fixes enc :: "'a \<Rightarrow> bytes"
    and wr :: "'a \<Rightarrow> wbuf \<Rightarrow> wbuf qres"
    and rd :: "'a reader"
    and ok :: "'a \<Rightarrow> bool"
  assumes write_emit: "ok a \<Longrightarrow> wr a = emit (enc a)"
    and read_back: "ok a \<Longrightarrow> rd (enc a @ rest) = Ok (a, rest)"
    and read_short: "ok a \<Longrightarrow> k < length (enc a) \<Longrightarrow> rd (take k (enc a)) = Err BufferTooShort"
begin

lemma written_is_read:
  assumes "ok a" "wr a (out, room) = Ok (out', room')"
  shows "\<exists>bs. out' = out @ bs \<and> room' + length bs = room \<and> rd (bs @ rest) = Ok (a, rest)"
  using assms read_back[OF assms(1)] by (auto simp: write_emit emit_def put_def split: if_splits)

lemma enc_inj: "ok a \<Longrightarrow> ok a' \<Longrightarrow> enc a @ rest = enc a' @ rest' \<Longrightarrow> a = a' \<and> rest = rest'"
  by (metis read_back res.inject(1) prod.inject)

end

lemma be_read:
  assumes "n < 256 ^ k"
  shows "be_value (take k (be_bytes k n @ rest)) = n" "drop k (be_bytes k n @ rest) = rest"
  using assms by (simp_all add: be_value_be_bytes)

interpretation u8: field_codec "be_bytes 1" write_u8 read_u8 "\<lambda>n. n < 256"
  by unfold_locales (auto simp: write_u8_def read_u8_eq emit_def fun_eq_iff be_value_be_bytes)

interpretation u16: field_codec "be_bytes 2" write_u16 read_u16 "\<lambda>n. n < 65536"
  by unfold_locales (auto simp: write_u16_def read_u16_eq emit_def fun_eq_iff be_value_be_bytes)

interpretation u32: field_codec "be_bytes 4" write_u32 read_u32 "\<lambda>n. n < 4294967296"
  by unfold_locales (auto simp: write_u32_def read_u32_eq emit_def fun_eq_iff be_value_be_bytes)

interpretation u64: field_codec "be_bytes 8" write_u64 read_u64 "\<lambda>n. n < 18446744073709551616"
  by unfold_locales (auto simp: write_u64_def read_u64_eq emit_def fun_eq_iff be_value_be_bytes)

lemma be_bytes_3: "be_bytes 3 n = be_bytes 1 (n div 65536) @ be_bytes 2 n"
  by (simp add: numeral_3_eq_3 numeral_2_eq_2 be_bytes.simps)

lemma u24_write:
  assumes "n < 16777216"
  shows "write_u24 n = emit (be_bytes 3 n)"
proof -
  have "n AND 0xFFFF = n mod 65536" using take_bit_eq_mask[of 16 n] by (simp add: take_bit_eq_mod mask_eq_exp_minus_1)
  moreover have "drop_bit 16 (n AND 0xFF0000) = n div 65536"
  proof -
    have "drop_bit 16 (n AND 0xFF0000) = drop_bit 16 n AND mask 8" by (simp add: mask_eq_exp_minus_1)
    also have "\<dots> = n div 65536 mod 256" unfolding take_bit_eq_mask[symmetric] by (simp add: drop_bit_eq_div take_bit_eq_mod)
    finally show ?thesis using assms by simp
  qed
  moreover have "n mod 65536 div 256 = n div 256 mod 256" using mod_mult2_eq[of n 256 256] by simp
  then have "be_bytes 2 (n mod 65536) = be_bytes 2 n"
    by (simp add: numeral_2_eq_2 be_bytes.simps word_of_nat_eq_iff take_bit_eq_mod mod_mod_cancel)
  ultimately show ?thesis by (auto simp: write_u24_def emit_def be_bytes_3 put_def fun_eq_iff)
qed

lemma u24_read:
  assumes "n < 16777216"
  shows "read_u24 (be_bytes 3 n @ rest) = Ok (n, rest)"
proof -
  have "n mod 65536 = 256 * (n div 256 mod 256) + n mod 256" using mod_mult2_eq[of n 256 256] by simp
  then have n: "n = (n div 65536 * 256 + n div 256 mod 256) * 256 + n mod 256"
    using div_mult_mod_eq[of n 65536] by (simp add: algebra_simps)
  have "n div 65536 mod 256 = n div 65536" using assms by simp
  moreover have b: "be_bytes 3 n = [word_of_nat (n div 65536), word_of_nat (n div 256), word_of_nat n]"
    by (simp add: numeral_3_eq_3 be_bytes.simps)
  ultimately have "push_bit 8 (be_value (take 2 (be_bytes 3 n))) + be_value (drop 2 (be_bytes 3 n)) = n"
    by (subst n) (simp add: b unat_of_nat push_bit_eq_mult)
  then show ?thesis by (simp add: read_u24_eq)
qed

interpretation u24: field_codec "be_bytes 3" write_u24 read_u24 "\<lambda>n. n < 16777216"
  by unfold_locales (simp_all add: u24_write u24_read, simp add: read_u24_eq)

subsection \<open>Variable-length integers\<close>

text \<open>RFC 9000, section 16: the two high bits of the first byte give the length.\<close>

definition varint_bytes :: "nat \<Rightarrow> bytes" where
  "varint_bytes n =
     (if n < 2 ^ 6 then be_bytes 1 n
      else if n < 2 ^ 14 then be_bytes 2 (n + 1 * 2 ^ 14)
      else if n < 2 ^ 30 then be_bytes 4 (n + 2 * 2 ^ 30)
      else be_bytes 8 (n + 3 * 2 ^ 62))"

lemma or_high: "n < 2 ^ k \<Longrightarrow> n OR m * 2 ^ k = n + m * 2 ^ k" for n m :: nat
proof -
  assume "n < 2 ^ k"
  then have "n = take_bit k n" by (simp add: take_bit_eq_mod)
  moreover have "take_bit k n + push_bit k m = take_bit k n OR push_bit k m"
    by (rule disjunctive_add) (auto simp: bit_simps)
  ultimately show ?thesis by (simp add: push_bit_eq_mult)
qed

lemma vint_cases:
  assumes "n \<le> VINT_MAX"
  obtains "n < 2 ^ 6" | "2 ^ 6 \<le> n" "n < 2 ^ 14" | "2 ^ 14 \<le> n" "n < 2 ^ 30" | "2 ^ 30 \<le> n" "n < 2 ^ 62"
  using assms by (force simp: VINT_MAX_def)

lemma encode_varint_len_eq: "n \<le> VINT_MAX \<Longrightarrow> encode_varint_len n = Ok (length (varint_bytes n))"
  by (auto simp: encode_varint_len_def varint_bytes_def VINT_MAX_def)

lemma write_varint_len_eq:
  "n < 2 ^ 6 \<Longrightarrow> write_varint_with_len n 1 = emit (be_bytes 1 n)"
  "n < 2 ^ 14 \<Longrightarrow> write_varint_with_len n 2 = emit (be_bytes 2 (n + 1 * 2 ^ 14))"
  "n < 2 ^ 30 \<Longrightarrow> write_varint_with_len n 4 = emit (be_bytes 4 (n + 2 * 2 ^ 30))"
  "n < 2 ^ 62 \<Longrightarrow> write_varint_with_len n 8 = emit (be_bytes 8 (n + 3 * 2 ^ 62))"
  using or_high[of n 14 1] or_high[of n 30 2] or_high[of n 62 3]
  by (simp_all add: write_varint_with_len_def emit_def fun_eq_iff take_bit_eq_mod)

lemma varint_write: "n \<le> VINT_MAX \<Longrightarrow> write_varint n = emit (varint_bytes n)"
  by (erule vint_cases)
    (simp_all add: write_varint_def fun_eq_iff encode_varint_len_def varint_bytes_def write_varint_len_eq[simplified])

lemma be_bytes_first: "0 < k \<Longrightarrow> n < 256 ^ k \<Longrightarrow> unat (be_bytes k n ! 0) = n div 256 ^ (k - 1)"
  by (cases k) (simp_all add: be_bytes.simps unat_of_nat less_mult_imp_div_less)

lemma decode_len_be:
  assumes "0 < k" "n < 256 ^ k"
  shows "decode_varint_len (be_bytes k n ! 0) =
    (case n div (256 ^ (k - 1) * 64) of
       0 \<Rightarrow> Ok 1 | Suc 0 \<Rightarrow> Ok 2 | Suc (Suc 0) \<Rightarrow> Ok 4 | Suc (Suc (Suc 0)) \<Rightarrow> Ok 8 | _ \<Rightarrow> Panic)"
proof -
  have "unat (drop_bit 6 (be_bytes k n ! 0)) = n div (256 ^ (k - 1) * 64)"
    using be_bytes_first[OF assms] unfolding unat_drop_bit_eq by (simp add: drop_bit_eq_div div_mult2_eq)
  then show ?thesis
    by (auto simp: decode_varint_len_def numeral_2_eq_2 numeral_3_eq_3 split: nat.split)
qed

lemma and_mask_nat: "n AND 0x3fff = n mod 2 ^ 14" "n AND 0x3fffffff = n mod 2 ^ 30"
  "n AND 0x3fffffffffffffff = n mod 2 ^ 62" for n :: nat
  using take_bit_eq_mask[of 14 n] take_bit_eq_mask[of 30 n] take_bit_eq_mask[of 62 n]
  by (simp_all add: take_bit_eq_mod mask_eq_exp_minus_1)

lemma prefix_split: "n < 2 ^ k \<Longrightarrow> (n + m * 2 ^ k) mod 2 ^ k = n \<and> (n + m * 2 ^ k) div 2 ^ k = m" for n m :: nat
  by simp

lemma varint_first:
  assumes "n \<le> VINT_MAX"
  shows "decode_varint_len (varint_bytes n ! 0) = Ok (length (varint_bytes n))"
  using assms
proof (cases rule: vint_cases)
  case 1
  then show ?thesis using decode_len_be[of 1 n] by (simp add: varint_bytes_def)
next
  case 2
  then show ?thesis using decode_len_be[of 2 "n + 1 * 2 ^ 14"] prefix_split[OF 2(2), of 1] by (simp add: varint_bytes_def)
next
  case 3
  then show ?thesis using decode_len_be[of 4 "n + 2 * 2 ^ 30"] prefix_split[OF 3(2), of 2]
    by (simp add: varint_bytes_def numeral_2_eq_2[symmetric])
next
  case 4
  then show ?thesis using decode_len_be[of 8 "n + 3 * 2 ^ 62"] prefix_split[OF 4(2), of 3]
    by (simp add: varint_bytes_def numeral_3_eq_3[symmetric])
qed

lemma varint_read:
  assumes "n \<le> VINT_MAX"
  shows "read_varint (varint_bytes n @ rest) = Ok (n, rest)"
proof -
  have "decode_varint_len ((varint_bytes n @ rest) ! 0) = Ok (length (varint_bytes n))"
    using varint_first[OF assms] by (simp add: nth_append varint_bytes_def)
  then show ?thesis using assms
    by (elim vint_cases) (simp_all add: read_varint_eq varint_bytes_def and_mask_nat mod_mult_self1
        u8.read_back u16.read_back u32.read_back u64.read_back prefix_split[where k = 30 and m = 2, simplified]
        prefix_split[where k = 62 and m = 3, simplified] prefix_split[where k = 14 and m = 1, simplified]
        del: One_nat_def)
qed

lemma varint_short:
  assumes "n \<le> VINT_MAX" "k < length (varint_bytes n)"
  shows "read_varint (take k (varint_bytes n)) = Err BufferTooShort"
proof (cases k)
  case (Suc k')
  then have "take k (varint_bytes n) ! 0 = varint_bytes n ! 0" by simp
  then show ?thesis using assms varint_first[OF assms(1)] Suc by (simp add: read_varint_eq)
qed (simp add: read_varint_eq)

interpretation varint: field_codec varint_bytes write_varint read_varint "\<lambda>n. n \<le> VINT_MAX"
  by unfold_locales (fact varint_write varint_read varint_short)+

subsection \<open>Byte strings and addresses\<close>

interpretation ipv4: field_codec "\<lambda>a. a" write_ipv4_addr read_ipv4_addr "\<lambda>a. length a = 4"
  by unfold_locales (auto simp: write_ipv4_addr_def read_ipv4_addr_eq emit_def fun_eq_iff)

interpretation ipv6: field_codec "\<lambda>a. a" write_ipv6_addr read_ipv6_addr "\<lambda>a. length a = 16"
  by unfold_locales (auto simp: write_ipv6_addr_def read_ipv6_addr_eq emit_def fun_eq_iff)

interpretation slice: field_codec "\<lambda>a. a" write_slice "read_bytes n" "\<lambda>a. length a = n" for n
  by unfold_locales (auto simp: write_slice_def read_bytes_eq emit_def fun_eq_iff)

text \<open>Strings preceded by their length.\<close>

lemma read_prefixed:
  assumes len: "\<And>rest. rd (enc (length a) @ rest) = Ok (length a, rest)"
    and short: "\<And>k. k < length (enc (length a)) \<Longrightarrow> rd (take k (enc (length a))) = Err BufferTooShort"
    and rd: "\<And>b. rds b = rbind (rd b) (\<lambda>(n, b). read_bytes n b)"
  shows "rds ((enc (length a) @ a) @ rest) = Ok (a, rest)"
    "k < length (enc (length a) @ a) \<Longrightarrow> rds (take k (enc (length a) @ a)) = Err BufferTooShort"
proof -
  show "rds ((enc (length a) @ a) @ rest) = Ok (a, rest)" using len by (simp add: rd read_bytes_eq)
  show "rds (take k (enc (length a) @ a)) = Err BufferTooShort" if "k < length (enc (length a) @ a)"
    using that len[of "take (k - length (enc (length a))) a"] short[of k]
    by (cases "k < length (enc (length a))") (auto simp: rd read_bytes_eq)
qed

definition varint_slice :: "bytes \<Rightarrow> bytes" where
  "varint_slice a = varint_bytes (length a) @ a"

definition write_with_varint_length :: "bytes \<Rightarrow> wbuf \<Rightarrow> wbuf qres" where
  "write_with_varint_length a b = rbind (write_varint (length a) b) (write_slice a)"

interpretation prefixed: field_codec varint_slice write_with_varint_length read_with_varint_length
  "\<lambda>a. length a \<le> VINT_MAX"
  using read_prefixed[of read_varint varint_bytes _ read_with_varint_length] varint.read_back varint.read_short
  by unfold_locales (auto simp: varint_slice_def write_with_varint_length_def read_with_varint_length_def
      varint.write_emit slice.write_emit fun_eq_iff)

definition u8_slice :: "bytes \<Rightarrow> bytes" where
  "u8_slice a = be_bytes 1 (length a) @ a"

definition write_with_u8_length :: "bytes \<Rightarrow> wbuf \<Rightarrow> wbuf qres" where
  "write_with_u8_length a b = rbind (write_u8 (length a) b) (write_slice a)"

interpretation u8_prefixed: field_codec u8_slice write_with_u8_length read_with_u8_length "\<lambda>a. length a < 256"
  using read_prefixed[of read_u8 "be_bytes 1" _ read_with_u8_length] u8.read_back u8.read_short
  by unfold_locales (auto simp: u8_slice_def write_with_u8_length_def read_with_u8_length_def
      u8.write_emit slice.write_emit fun_eq_iff)

end
