(* ===== verification/Send_Buf.thy ===== *)
theory Send_Buf
  imports Range_Set Range_Buf Op_Machine Codec
begin

text \<open>
  The send side of a stream, \<open>src/src/connection/stream/send_buf.rs\<close>: data written by
  the application and kept until it is acknowledged, with the set of acknowledged offsets
  and the set of offsets declared lost.
\<close>

section \<open>The code\<close>

definition SEND_BUFFER_SIZE :: nat where
  "SEND_BUFFER_SIZE = 4096"

record 'b send_buf =
  sb_data :: "'b range_buf list"
  sb_pos :: nat
  sb_write_off :: nat
  sb_unsent_off :: nat
  sb_unacked_len :: nat
  sb_max_data :: nat
  sb_blocked_at :: "nat option"
  sb_fin_off :: "nat option"
  sb_shutdown_flag :: bool
  sb_acked :: range_set
  sb_retransmits :: range_set
  sb_error :: "nat option"
  sb_trace_id :: string

definition sb_new :: "nat \<Rightarrow> 'b send_buf" where
  "sb_new max_data =
     \<lparr>sb_data = [], sb_pos = 0, sb_write_off = 0, sb_unsent_off = 0, sb_unacked_len = 0,
      sb_max_data = max_data, sb_blocked_at = None, sb_fin_off = None, sb_shutdown_flag = False,
      sb_acked = rs_default, sb_retransmits = rs_default, sb_error = None, sb_trace_id = []\<rparr>"

definition sb_capacity :: "'b send_buf \<Rightarrow> nat qres" where
  "sb_capacity s =
     (case sb_error s of
        Some e \<Rightarrow> Err (StreamStopped e)
      | None \<Rightarrow> sub64 (sb_max_data s) (sb_write_off s))"

text \<open>
  The loop of \<open>write\<close> that splits the data into chunks of at most
  \<open>SEND_BUFFER_SIZE\<close> bytes, with the remainder pushed after it. The results are the
  chunks appended to the queue and the new write offset.
\<close>

function write_chunks ::
    "'b list \<Rightarrow> nat \<Rightarrow> nat \<Rightarrow> nat \<Rightarrow> bool \<Rightarrow> 'b range_buf list \<times> nat" where
  "write_chunks data write_off len data_len fin =
     (if length data > SEND_BUFFER_SIZE then
        let chunk = take SEND_BUFFER_SIZE data;
            len' = len + length chunk;
            buf = rb_new chunk write_off (len' = data_len \<and> fin);
            (bufs, off) = write_chunks (drop SEND_BUFFER_SIZE data) (write_off + rb_len buf) len' data_len fin
        in (buf # bufs, off)
      else if data \<noteq> [] then
        ([rb_new data write_off fin], write_off + length data)
      else ([], write_off))"
  by pat_completeness auto
termination
  by (relation "measure (\<lambda>(data, _). length data)") (auto simp: SEND_BUFFER_SIZE_def)

declare write_chunks.simps [simp del]

definition sb_write :: "'b send_buf \<Rightarrow> 'b list \<Rightarrow> bool \<Rightarrow> 'b send_buf \<times> nat qres" where
  "sb_write s data0 fin0 =
     attempt s (add64 (sb_write_off s) (length data0)) (\<lambda>max_off.
     attempt s (sb_capacity s) (\<lambda>capacity.
       let data = (if length data0 > capacity then take capacity data0 else data0);
           fin = (if length data0 > capacity then False else fin0)
       in
       if (case sb_fin_off s of
             Some fin_off \<Rightarrow> max_off > fin_off \<or> (max_off = fin_off \<and> \<not> fin)
           | None \<Rightarrow> False) then (s, Err FinalSizeError)
       else
         let s1 = (if fin then s\<lparr>sb_fin_off := Some max_off\<rparr> else s) in
         if data = [] then (s1, Ok (length data))
         else
           let data_len = length data;
               (bufs, off) = write_chunks data (sb_write_off s1) 0 data_len fin
           in (s1\<lparr>sb_data := sb_data s1 @ bufs, sb_write_off := off,
                  sb_unacked_len := sb_unacked_len s1 + data_len\<rparr>, Ok data_len)))"

definition sb_send_off :: "'b send_buf \<Rightarrow> nat" where
  "sb_send_off s =
     (case rs_min (sb_retransmits s) of Some v \<Rightarrow> v | None \<Rightarrow> sb_unsent_off s)"

definition sb_ready :: "'b send_buf \<Rightarrow> bool" where
  "sb_ready s \<longleftrightarrow> sb_data s \<noteq> [] \<and> sb_send_off s < sb_write_off s"

definition sb_poll_transmit :: "'b send_buf \<Rightarrow> nat \<Rightarrow> 'b send_buf \<times> range" where
  "sb_poll_transmit s max_len =
     (case rs_pop_min (sb_retransmits s) of
        (rtx, Some r) \<Rightarrow>
          let e = min (snd r) (sat_add64 (fst r) max_len) in
          (s\<lparr>sb_retransmits := (if e \<noteq> snd r then rs_insert rtx (e, snd r) else rtx)\<rparr>, (fst r, e))
      | (rtx, None) \<Rightarrow>
          let e = min (sb_write_off s) (sat_add64 (sb_unsent_off s) max_len) in
          (s\<lparr>sb_unsent_off := e\<rparr>, (sb_unsent_off s, e)))"

text \<open>The loop of \<open>read_range\<close> from the block at index \<open>pos\<close> on.\<close>

fun read_range_from :: "'b range_buf list \<Rightarrow> nat \<Rightarrow> range \<Rightarrow> nat \<times> 'b list" where
  "read_range_from [] pos rng = (pos, [])"
| "read_range_from (segment # segs) pos rng =
     (if fst rng \<ge> rb_off segment \<and> fst rng < rb_max_off segment then
        let start = fst rng - rb_off segment;
            e = min (snd rng - rb_off segment) (rb_len segment)
        in (if e = rb_len segment then pos + 1 else pos, drop start (take e (rb_data segment)))
      else read_range_from segs (pos + 1) rng)"

definition sb_read_range :: "'b send_buf \<Rightarrow> range \<Rightarrow> 'b send_buf \<times> 'b list" where
  "sb_read_range s rng =
     (let (pos, bytes) = read_range_from (drop (sb_pos s) (sb_data s)) (sb_pos s) rng
      in (s\<lparr>sb_pos := pos\<rparr>, bytes))"

text \<open>
  The two loops of \<open>read\<close>. They are total only if every round makes progress, which
  \<open>read_range\<close> does not promise by itself; not returning is the value \<open>None\<close>.
\<close>

partial_function (option) copy_range :: "'b send_buf \<Rightarrow> range \<Rightarrow> 'b list \<Rightarrow> ('b send_buf \<times> 'b list) option" where
  [code]: "copy_range s rng out =
     (if fst rng = snd rng then Some (s, out)
      else
        let (s1, bytes) = sb_read_range s rng
        in copy_range s1 (fst rng + length bytes, snd rng) (out @ bytes))"

partial_function (option) sb_read_loop ::
    "'b send_buf \<Rightarrow> nat \<Rightarrow> nat \<Rightarrow> 'b list \<Rightarrow> ('b send_buf \<times> nat \<times> nat \<times> 'b list) option" where
  [code]: "sb_read_loop s cap next_off out =
     (if cap > 0 \<and> sb_ready s \<and> sb_send_off s = next_off \<and> sb_send_off s < sb_max_data s then
        let (s1, rng) = sb_poll_transmit s cap
        in Option.bind (copy_range s1 rng out) (\<lambda>(s2, out').
             sb_read_loop s2 (cap - (snd rng - fst rng)) (next_off + (snd rng - fst rng)) out')
      else Some (s, cap, next_off, out))"

text \<open>
  \<open>read\<close> into a buffer of \<open>cap\<close> bytes: the bytes written to it, the returned
  length and the fin flag.
\<close>

definition sb_read :: "'b send_buf \<Rightarrow> nat \<Rightarrow> ('b send_buf \<times> 'b list \<times> nat \<times> bool) option" where
  "sb_read s cap =
     Option.bind (sb_read_loop s cap (sb_send_off s) []) (\<lambda>(s1, cap1, next_off, out).
       Some (s1, out, cap - cap1, sb_fin_off s1 = Some next_off))"

definition sb_update_max_data :: "'b send_buf \<Rightarrow> nat \<Rightarrow> 'b send_buf" where
  "sb_update_max_data s max_data = s\<lparr>sb_max_data := max (sb_max_data s) max_data\<rparr>"

definition sb_update_blocked_at :: "'b send_buf \<Rightarrow> nat option \<Rightarrow> 'b send_buf" where
  "sb_update_blocked_at s blocked_at = s\<lparr>sb_blocked_at := blocked_at\<rparr>"

definition sb_ack_off :: "'b send_buf \<Rightarrow> nat" where
  "sb_ack_off s =
     (case rs_iter (sb_acked s) of r # _ \<Rightarrow> if fst r = 0 then snd r else 0 | [] \<Rightarrow> 0)"

definition sb_ack :: "'b send_buf \<Rightarrow> nat \<Rightarrow> nat \<Rightarrow> 'b send_buf \<times> unit qres" where
  "sb_ack s off len =
     attempt s (add64 off len) (\<lambda>e. (s\<lparr>sb_acked := rs_insert (sb_acked s) (off, e)\<rparr>, Ok ()))"

text \<open>The loop of \<open>ack_and_drop\<close>: the remaining blocks and the number of dropped ones.\<close>

fun drop_acked :: "'b range_buf list \<Rightarrow> nat \<Rightarrow> nat \<Rightarrow> ('b range_buf list \<times> nat) qres" where
  "drop_acked [] to_advance drops = (if to_advance > 0 then Panic else Ok ([], drops))"
| "drop_acked (front # data) to_advance drops =
     (if to_advance > 0 then
        if rb_len front \<le> to_advance then drop_acked data (to_advance - rb_len front) (drops + 1)
        else rbind (rb_advance front to_advance) (\<lambda>front'. Ok (front' # data, drops))
      else Ok (front # data, drops))"

definition sb_ack_and_drop :: "'b send_buf \<Rightarrow> nat \<Rightarrow> nat \<Rightarrow> 'b send_buf \<times> unit qres" where
  "sb_ack_and_drop s off len =
     (if sb_data s = [] then (s\<lparr>sb_retransmits := rs_clear (sb_retransmits s)\<rparr>, Ok ())
      else
        let (s1, r) = sb_ack s off len in
        attempt s1 r (\<lambda>_.
          let s2 = s1\<lparr>sb_retransmits := rs_remove (sb_retransmits s1) (off, off + len)\<rparr>;
              ack_off = sb_ack_off s2
          in
          if off > ack_off then (s2, Ok ())
          else
            attempt s2 (sub64 (sb_write_off s2) (sb_unacked_len s2)) (\<lambda>base_off.
            attempt s2 (sub64 ack_off base_off) (\<lambda>to_advance.
            attempt s2 (sub64 (sb_unacked_len s2) to_advance) (\<lambda>unacked.
              let s3 = s2\<lparr>sb_unacked_len := unacked\<rparr> in
              attempt s3 (drop_acked (sb_data s3) to_advance 0) (\<lambda>(data, drop_blocks).
                (s3\<lparr>sb_data := data, sb_pos := sb_pos s3 - drop_blocks\<rparr>, Ok ())))))))"

text \<open>The loop of \<open>retransmit\<close> over the acknowledged ranges.\<close>

fun retransmit_scan :: "range list \<Rightarrow> range_set \<Rightarrow> nat \<Rightarrow> nat \<Rightarrow> range_set \<times> nat \<times> nat" where
  "retransmit_scan [] rtx start e = (rtx, start, e)"
| "retransmit_scan (r # rs) rtx start e =
     (if e \<le> fst r then (rtx, start, e)
      else if start \<ge> snd r then retransmit_scan rs rtx start e
      else if start < fst r then
        (if e \<le> snd r then (rtx, start, fst r)
         else retransmit_scan rs (rs_insert rtx (start, fst r)) (snd r) e)
      else
        (if e \<le> snd r then (rtx, start, start)
         else retransmit_scan rs rtx (snd r) e))"

definition sb_retransmit :: "'b send_buf \<Rightarrow> nat \<Rightarrow> nat \<Rightarrow> 'b send_buf \<times> unit qres" where
  "sb_retransmit s off len =
     attempt s (add64 off len) (\<lambda>e0.
       let old_send_off = sb_send_off s in
       if sb_data s = [] then (s, Ok ())
       else if e0 \<le> sb_ack_off s then (s, Ok ())
       else
         let (rtx, start, e) = retransmit_scan (rs_iter (sb_acked s)) (sb_retransmits s) off e0;
             s1 = s\<lparr>sb_retransmits := rs_insert rtx (start, e)\<rparr>
         in (if sb_send_off s1 < old_send_off then s1\<lparr>sb_pos := 0\<rparr> else s1, Ok ()))"

definition sb_filter_acked :: "'b send_buf \<Rightarrow> range \<Rightarrow> range option" where
  "sb_filter_acked s rng = rs_filter (sb_acked s) rng"

definition sb_reset :: "'b send_buf \<Rightarrow> 'b send_buf \<times> nat \<times> nat" where
  "sb_reset s =
     (let unsent_len = sb_write_off s - sb_unsent_off s;
          s1 = s\<lparr>sb_fin_off := Some (sb_unsent_off s), sb_data := []\<rparr>;
          s2 = fst (sb_ack s1 0 (sb_unsent_off s1));
          s3 = s2\<lparr>sb_pos := 0, sb_write_off := sb_unsent_off s2\<rparr>
      in (s3, sb_unsent_off s, unsent_len))"

definition sb_stop :: "'b send_buf \<Rightarrow> nat \<Rightarrow> 'b send_buf \<times> (nat \<times> nat) qres" where
  "sb_stop s error_code =
     (if sb_error s \<noteq> None then (s, Err Done)
      else
        let (s1, fin_off, unsent) = sb_reset s
        in (s1\<lparr>sb_error := Some error_code\<rparr>, Ok (fin_off, unsent)))"

definition sb_shutdown :: "'b send_buf \<Rightarrow> 'b send_buf \<times> (nat \<times> nat) qres" where
  "sb_shutdown s =
     (if sb_shutdown_flag s then (s, Err Done)
      else
        let (s1, fin_off, unsent) = sb_reset (s\<lparr>sb_shutdown_flag := True\<rparr>)
        in (s1, Ok (fin_off, unsent)))"

definition sb_is_fin :: "'b send_buf \<Rightarrow> bool" where
  "sb_is_fin s \<longleftrightarrow> sb_fin_off s = Some (sb_write_off s)"

definition sb_is_complete :: "'b send_buf \<Rightarrow> bool" where
  "sb_is_complete s \<longleftrightarrow>
     (case sb_fin_off s of
        Some fin_off \<Rightarrow> fin_off = 0 \<or> rs_eq_range (sb_acked s) (0, fin_off)
      | None \<Rightarrow> False)"

definition sb_is_stopped :: "'b send_buf \<Rightarrow> bool" where
  "sb_is_stopped s \<longleftrightarrow> sb_error s \<noteq> None"

section \<open>A contiguous queue of blocks\<close>

fun seg_chain :: "nat \<Rightarrow> 'b range_buf list \<Rightarrow> nat \<Rightarrow> bool" where
  "seg_chain a [] b \<longleftrightarrow> a = b"
| "seg_chain a (x # xs) b \<longleftrightarrow> rb_off x = a \<and> 0 < rb_len x \<and> seg_chain (rb_max_off x) xs b"

lemma seg_chain_le: "seg_chain a xs b \<Longrightarrow> a \<le> b"
  by (induction a xs b rule: seg_chain.induct) (auto simp: rb_max_off_def)

lemma seg_chain_append: "seg_chain a (xs @ ys) b \<longleftrightarrow> (\<exists>m. seg_chain a xs m \<and> seg_chain m ys b)"
  by (induction xs arbitrary: a) auto

lemma seg_chain_end: "seg_chain a xs m \<Longrightarrow> a \<le> st \<Longrightarrow> \<forall>x \<in> set xs. rb_max_off x \<le> st \<Longrightarrow> m \<le> st"
  by (induction a xs m rule: seg_chain.induct) auto

lemma seg_chain_mem:
  assumes "seg_chain a xs b" "a \<le> x" "x < b"
  shows "\<exists>sg \<in> set xs. rb_off sg \<le> x \<and> x < rb_max_off sg"
  using assms
proof (induction a xs b rule: seg_chain.induct)
  case (2 a y xs b)
  then show ?case by (cases "x < rb_max_off y") auto
qed simp

lemma write_chunks_spec:
  "\<exists>bufs. write_chunks d off n dl fin = (bufs, off + length d) \<and> seg_chain off bufs (off + length d) \<and>
    (d = map c [off..<off + length d] \<longrightarrow> (\<forall>b \<in> set bufs. rb_agrees c b)) \<and> (bufs = [] \<longleftrightarrow> d = [])"
proof (induction d off n dl fin rule: write_chunks.induct)
  case (1 d off n dl fin)
  let ?K = SEND_BUFFER_SIZE
  show ?case
  proof (cases "length d > ?K")
    case True
    let ?ck = "take ?K d"
    have l: "length ?ck = ?K" "rb_len (rb_new ?ck off b) = ?K" for b using True by (simp_all add: rb_basic)
    obtain bufs where r: "write_chunks (drop ?K d) (off + ?K) (n + ?K) dl fin = (bufs, off + length d)"
      "seg_chain (off + ?K) bufs (off + length d)"
      "drop ?K d = map c [off + ?K..<off + length d] \<longrightarrow> (\<forall>b \<in> set bufs. rb_agrees c b)"
      using "1.IH"[OF True refl refl refl] l True by auto
    let ?b = "rb_new ?ck off (n + ?K = dl \<and> fin)"
    have "write_chunks d off n dl fin = (?b # bufs, off + length d)"
      using True r(1) l by (simp add: write_chunks.simps[of d] Let_def)
    moreover have "seg_chain off (?b # bufs) (off + length d)"
      using r(2) l(2) by (simp add: rb_new_def rb_max_off_def SEND_BUFFER_SIZE_def)
    moreover have "rb_agrees c ?b \<and> drop ?K d = map c [off + ?K..<off + length d]"
      if d: "d = map c [off..<off + length d]"
    proof -
      have "?ck = map c (take ?K [off..<off + length d])" "drop ?K d = map c (drop ?K [off..<off + length d])"
        by (subst d, simp add: take_map, subst d, simp add: drop_map)
      then show ?thesis using True by (simp add: rb_agrees_def rb_basic min_def)
    qed
    ultimately show ?thesis using r(3) True by auto
  next
    case False
    then show ?thesis by (auto simp: write_chunks.simps[of d] rb_agrees_def rb_basic)
  qed
qed

lemma read_range_from_spec:
  assumes "seg_chain a segs b" "a \<le> st" "st < e" "e \<le> b" "\<forall>x \<in> set segs. rb_agrees c x"
  shows "\<exists>k bytes. read_range_from segs pos (st, e) = (pos + k, bytes) \<and> k \<le> length segs \<and>
    bytes = map c [st..<st + length bytes] \<and> 0 < length bytes \<and> st + length bytes \<le> e \<and>
    (\<forall>x \<in> set (take k segs). rb_max_off x \<le> st + length bytes)"
  using assms
proof (induction segs arbitrary: a pos)
  case Nil
  then show ?case by simp
next
  case (Cons x segs)
  show ?case
  proof (cases "st < rb_max_off x")
    case True
    define n where "n = min (e - rb_off x) (rb_len x)"
    define bytes where "bytes = drop (st - rb_off x) (take n (rb_data x))"
    have o: "rb_off x \<le> st" using Cons.prems(1,2) by simp
    have dat: "rb_data x = map c [rb_off x..<rb_max_off x]" using Cons.prems(5) by (simp add: rb_agrees_def)
    have n: "n \<le> rb_len x" "rb_off x + n \<le> e" "st < rb_off x + n"
      using o True Cons.prems(3) by (auto simp: n_def rb_max_off_def)
    have "bytes = map c [st..<rb_off x + n]"
      unfolding bytes_def using o n(1) by (subst dat) (simp add: take_map drop_map rb_max_off_def)
    moreover have len: "rb_off x + n = st + length bytes" using calculation n(3) by simp
    ultimately have b: "bytes = map c [st..<st + length bytes]" by metis
    have "read_range_from (x # segs) pos (st, e) = (if n = rb_len x then pos + 1 else pos, bytes)"
      using o True by (simp add: Let_def n_def bytes_def)
    moreover have "n = rb_len x \<Longrightarrow> rb_max_off x \<le> st + length bytes" using len by (simp add: rb_max_off_def)
    ultimately show ?thesis using b n len
      by (intro exI[of _ "if n = rb_len x then 1 else 0"] exI[of _ bytes]) auto
  next
    case False
    obtain k bytes where r: "read_range_from segs (pos + 1) (st, e) = (pos + 1 + k, bytes)" "k \<le> length segs"
      "bytes = map c [st..<st + length bytes]" "0 < length bytes" "st + length bytes \<le> e"
      "\<forall>x \<in> set (take k segs). rb_max_off x \<le> st + length bytes"
      using Cons.IH[of "rb_max_off x" "pos + 1"] Cons.prems False by auto
    then show ?thesis using False by (intro exI[of _ "Suc k"] exI[of _ bytes]) auto
  qed
qed

text \<open>
  The blocks before the position end at or before \<open>st\<close>: the search for the block that
  holds \<open>st\<close> may start at the position.
\<close>

definition pos_ok :: "'b range_buf list \<Rightarrow> nat \<Rightarrow> nat \<Rightarrow> bool" where
  "pos_ok data pos st \<longleftrightarrow> pos \<le> length data \<and> (\<forall>m \<in> set (take pos (map rb_max_off data)). m \<le> st)"

lemma pos_ok_mono: "pos_ok data pos st \<Longrightarrow> st \<le> st' \<Longrightarrow> pos_ok data pos st'"
  by (auto simp: pos_ok_def)

lemma pos_ok_0 [simp]: "pos_ok data 0 st"
  by (simp add: pos_ok_def)

lemma pos_ok_append: "pos_ok data pos st \<Longrightarrow> pos_ok (data @ bufs) pos st"
  by (auto simp: pos_ok_def)

lemma copy_range_spec:
  assumes "seg_chain a (sb_data s) b" "a \<le> st" "st \<le> e" "e \<le> b"
    "\<forall>x \<in> set (sb_data s). rb_agrees c x" "pos_ok (sb_data s) (sb_pos s) st"
  shows "\<exists>pos'. copy_range s (st, e) out = Some (s\<lparr>sb_pos := pos'\<rparr>, out @ map c [st..<e]) \<and>
    pos_ok (sb_data s) pos' e"
  using assms
proof (induction "e - st" arbitrary: s st out rule: less_induct)
  case less
  show ?case
  proof (cases "st = e")
    case True
    then show ?thesis using less.prems(6) by (intro exI[of _ "sb_pos s"]) (simp add: copy_range.simps)
  next
    case False
    let ?d = "sb_data s" and ?p = "sb_pos s"
    have p: "?p \<le> length ?d" "\<forall>x \<in> set (take ?p ?d). rb_max_off x \<le> st"
      using less.prems(6) by (auto simp: pos_ok_def take_map)
    obtain m where m: "seg_chain a (take ?p ?d) m" "seg_chain m (drop ?p ?d) b"
      using less.prems(1) seg_chain_append[of a "take ?p ?d" "drop ?p ?d" b] by auto
    have "m \<le> st" using seg_chain_end[OF m(1) less.prems(2) p(2)] .
    moreover have "st < e" using False less.prems(3) by simp
    moreover have "\<forall>x \<in> set (drop ?p ?d). rb_agrees c x" using less.prems(5) by (meson in_set_dropD)
    ultimately obtain k bytes where r: "read_range_from (drop ?p ?d) ?p (st, e) = (?p + k, bytes)"
      "k \<le> length (drop ?p ?d)" "bytes = map c [st..<st + length bytes]" "0 < length bytes"
      "st + length bytes \<le> e" "\<forall>x \<in> set (take k (drop ?p ?d)). rb_max_off x \<le> st + length bytes"
      using read_range_from_spec[OF m(2) _ _ less.prems(4), of st c ?p] by metis
    let ?s1 = "s\<lparr>sb_pos := ?p + k\<rparr>" and ?st1 = "st + length bytes"
    have step: "copy_range s (st, e) out = copy_range ?s1 (?st1, e) (out @ bytes)"
      using False r(1) by (simp add: copy_range.simps[of s] sb_read_range_def)
    have "take (?p + k) ?d = take ?p ?d @ take k (drop ?p ?d)" by (simp add: take_add)
    then have "pos_ok (sb_data ?s1) (sb_pos ?s1) ?st1"
      using p r(2,6) by (fastforce simp: pos_ok_def take_map)
    moreover have "e - ?st1 < e - st" using r(4,5) by linarith
    ultimately obtain pos' where "copy_range ?s1 (?st1, e) (out @ bytes) =
        Some (?s1\<lparr>sb_pos := pos'\<rparr>, (out @ bytes) @ map c [?st1..<e])" "pos_ok (sb_data ?s1) pos' e"
      using less.hyps[of ?st1 ?s1 "out @ bytes"] r(4,5) less.prems(1,2,4,5) by auto
    moreover have "bytes @ map c [?st1..<e] = map c [st..<e]"
      using r(3,5) by (metis le_add1 le_add_diff_inverse map_append upt_add_eq_append)
    ultimately show ?thesis using step by auto
  qed
qed

lemma drop_acked_spec:
  assumes "seg_chain a data b" "a + n \<le> b" "\<forall>x \<in> set data. rb_agrees c x"
  shows "\<exists>data' k. drop_acked data n d = Ok (data', d + k) \<and> seg_chain (a + n) data' b \<and>
    (\<forall>x \<in> set data'. rb_agrees c x) \<and> k \<le> length data \<and>
    map rb_max_off data' = drop k (map rb_max_off data)"
  using assms
proof (induction data n d arbitrary: a rule: drop_acked.induct)
  case (1 n d)
  then show ?case by simp
next
  case (2 f data n d)
  consider (zero) "n = 0" | (whole) "n > 0" "rb_len f \<le> n" | (part) "n > 0" "n < rb_len f" by linarith
  then show ?case
  proof cases
    case zero
    then show ?thesis using "2.prems" by (intro exI[of _ "f # data"] exI[of _ 0]) simp
  next
    case whole
    have o: "rb_off f = a" "rb_max_off f = a + rb_len f" "seg_chain (rb_max_off f) data b"
      using "2.prems"(1) by (auto simp: rb_max_off_def)
    obtain data' k where r: "drop_acked data (n - rb_len f) (d + 1) = Ok (data', d + 1 + k)"
      "seg_chain (rb_max_off f + (n - rb_len f)) data' b" "\<forall>x \<in> set data'. rb_agrees c x"
      "k \<le> length data" "map rb_max_off data' = drop k (map rb_max_off data)"
      using "2.IH"[OF whole o(3)] "2.prems"(2,3) o(2) whole by auto
    then show ?thesis using whole o(2) by (intro exI[of _ data'] exI[of _ "Suc k"]) simp
  next
    case part
    obtain f' where f': "rb_advance f n = Ok f'" using part rb_advance_Ok[of n f] by auto
    show ?thesis
      using part f' rb_advance_spec[OF f'] "2.prems"
      by (intro exI[of _ "f' # data"] exI[of _ 0]) auto
  qed
qed

lemma pos_ok_drop:
  assumes "pos_ok data pos st" "map rb_max_off data' = drop k (map rb_max_off data)" "k \<le> length data"
  shows "pos_ok data' (pos - k) st"
proof -
  have "length data' = length data - k" using assms(2) by (metis length_drop length_map)
  moreover have "set (take (pos - k) (drop k xs)) \<subseteq> set (take pos xs)" for xs :: "nat list"
    by (cases "k \<le> pos") (auto simp: take_drop dest: in_set_dropD)
  ultimately show ?thesis using assms unfolding pos_ok_def by fastforce
qed

lemma retransmit_scan_spec:
  assumes "rs_ok rs" "rs_uinv rtx" "start \<le> u64_max" "e \<le> u64_max"
  shows "\<exists>rtx' start' e'. retransmit_scan rs rtx start e = (rtx', start', e') \<and> rs_uinv rtx' \<and> e' \<le> u64_max \<and>
    rs_alpha rtx' \<union> {start'..<e'} = rs_alpha rtx \<union> ({start..<e} - rs_elems rs)"
  using assms
proof (induction rs rtx start e rule: retransmit_scan.induct)
  case (1 rtx start e)
  then show ?case by (simp add: rs_elems_def)
next
  case (2 r rs rtx start e)
  have r: "fst r < snd r" "snd r \<le> u64_max" "rs_ok rs" "\<forall>r' \<in> set rs. snd r < fst r'"
    using "2.prems"(1) by (auto simp: rs_ok_Cons)
  have r4: "snd r < x" if "x \<in> rs_elems rs" for x
    using that r(4) unfolding rs_elems_iff by (meson less_le_trans)
  have el: "rs_elems (r # rs) = {fst r..<snd r} \<union> rs_elems rs" by (auto simp: rs_elems_def)
  have no: "X - rs_elems (r # rs) = X - {fst r..<snd r}" if "\<forall>x \<in> X. x \<le> snd r" for X
    using that r4 unfolding el by fastforce
  consider (a) "e \<le> fst r" | (b) "fst r < e" "snd r \<le> start" | (c) "fst r < e" "start < fst r" "e \<le> snd r"
    | (d) "start < fst r" "snd r < e" | (f) "fst r < e" "fst r \<le> start" "start < snd r" "e \<le> snd r"
    | (g) "fst r \<le> start" "start < snd r" "snd r < e" using r(1) by linarith
  then show ?case
  proof cases
    case a
    then have le: "\<forall>x \<in> {start..<e}. x \<le> snd r" using r(1) by auto
    have "{start..<e} - rs_elems (r # rs) = {start..<e}" unfolding no[OF le] using a by auto
    then show ?thesis using a "2.prems"(2,4) by simp
  next
    case b
    then have "{start..<e} - rs_elems (r # rs) = {start..<e} - rs_elems rs" by (auto simp: el)
    then show ?thesis using b r(3) "2.prems"(2-4) "2.IH"(1) by simp
  next
    case c
    then have le: "\<forall>x \<in> {start..<e}. x \<le> snd r" by auto
    have "{start..<e} - rs_elems (r # rs) = {start..<fst r}" unfolding no[OF le] using c by auto
    then show ?thesis using c r(1,2) "2.prems"(2) by simp
  next
    case d
    have sp: "{start..<e} = {start..<fst r} \<union> {fst r..<snd r} \<union> {snd r..<e}" using d r(1) by auto
    have dis: "{start..<fst r} \<inter> ({fst r..<snd r} \<union> rs_elems rs) = {}" "{snd r..<e} \<inter> {fst r..<snd r} = {}"
      using r4 r(1) by force+
    have "{start..<e} - rs_elems (r # rs) = {start..<fst r} \<union> ({snd r..<e} - rs_elems rs)"
      unfolding el sp using dis by blast
    moreover have "rs_uinv (rs_insert rtx (start, fst r))"
      "rs_alpha (rs_insert rtx (start, fst r)) = rs_alpha rtx \<union> {start..<fst r}"
      using "2.prems"(2) r(1,2) by (simp_all add: rs_specs seg_def)
    ultimately show ?thesis using d r "2.prems"(4) "2.IH"(2) by (simp add: Un_assoc)
  next
    case f
    then have le: "\<forall>x \<in> {start..<e}. x \<le> snd r" by auto
    have "{start..<e} - rs_elems (r # rs) = {}" unfolding no[OF le] using f by auto
    then show ?thesis using f "2.prems"(2,3) by auto
  next
    case g
    then have "{start..<e} - rs_elems (r # rs) = {snd r..<e} - rs_elems rs" unfolding el by auto
    then show ?thesis using g r(2,3) "2.prems"(2,4) "2.IH"(3) by simp
  qed
qed

section \<open>The invariant of the send buffer\<close>

abbreviation sb_A :: "'b send_buf \<Rightarrow> nat set" where
  "sb_A s \<equiv> rs_alpha (sb_acked s)"

abbreviation sb_R :: "'b send_buf \<Rightarrow> nat set" where
  "sb_R s \<equiv> rs_alpha (sb_retransmits s)"

text \<open>The offsets that are waiting to be (re)transmitted.\<close>

definition sb_pending :: "'b send_buf \<Rightarrow> nat set" where
  "sb_pending s = sb_R s \<union> {sb_unsent_off s..<sb_write_off s}"

definition sb_live :: "'b send_buf \<Rightarrow> bool" where
  "sb_live s \<longleftrightarrow> sb_unacked_len s = sb_write_off s - sb_ack_off s \<and> sb_A s \<inter> sb_R s = {}"

text \<open>The state after \<open>reset\<close>: nothing is buffered, nothing can be written.\<close>

definition sb_dead :: "'b send_buf \<Rightarrow> bool" where
  "sb_dead s \<longleftrightarrow> sb_data s = [] \<and> sb_unsent_off s = sb_write_off s \<and> sb_fin_off s = Some (sb_write_off s)"

definition sb_inv :: "(nat \<Rightarrow> 'b) \<Rightarrow> 'b send_buf \<Rightarrow> bool" where
  "sb_inv c s \<longleftrightarrow> rs_uinv (sb_acked s) \<and> rs_uinv (sb_retransmits s) \<and>
     sb_unsent_off s \<le> sb_write_off s \<and> sb_write_off s \<le> sb_max_data s \<and> sb_max_data s \<le> u64_max \<and>
     sb_max_data s \<le> VINT_MAX \<and>
     sb_A s \<subseteq> {..<sb_unsent_off s} \<and> sb_R s \<subseteq> {..<sb_unsent_off s} \<and>
     seg_chain (sb_ack_off s) (sb_data s) (sb_write_off s) \<and> (\<forall>b \<in> set (sb_data s). rb_agrees c b) \<and>
     (\<forall>f. sb_fin_off s = Some f \<longrightarrow> f = sb_write_off s) \<and> (sb_live s \<or> sb_dead s) \<and>
     (sb_error s \<noteq> None \<longrightarrow> sb_data s = []) \<and> pos_ok (sb_data s) (sb_pos s) (sb_send_off s)"

lemma sb_inv_new:
  assumes "m \<le> VINT_MAX"
  shows "sb_inv c (sb_new m)"
proof -
  have "rs_uinv rs_default" "rs_alpha rs_default = {}" "rs_iter rs_default = []"
    using rs.invar_empty rs.elems_empty by (simp_all add: rs_default_def rs_new_def rs_iter_def)
  then show ?thesis using assms VINT_MAX_u64[OF assms] by (simp add: sb_inv_def sb_new_def sb_live_def sb_ack_off_def)
qed

subsection \<open>The first gap and the next offset to send\<close>

definition first_gap :: "nat set \<Rightarrow> nat \<Rightarrow> bool" where
  "first_gap A n \<longleftrightarrow> {..<n} \<subseteq> A \<and> n \<notin> A"

lemma first_gap_unique: "first_gap A n \<Longrightarrow> first_gap A m \<Longrightarrow> n = m"
  unfolding first_gap_def by (metis lessThan_iff linorder_neqE_nat subsetD)

lemma ack_off_gap:
  assumes "rs_uinv (sb_acked s)"
  shows "first_gap (sb_A s) (sb_ack_off s)"
proof (cases "rs_set (sb_acked s)")
  case Nil
  then show ?thesis by (simp add: first_gap_def sb_ack_off_def rs_iter_def rs_alpha_def rs_elems_def)
next
  case (Cons r m)
  have r: "fst r < snd r" "\<forall>r' \<in> set m. snd r < fst r'"
    using assms Cons by (auto simp: rs_uinv_def rs_ok_Cons)
  have el: "x \<in> sb_A s \<longleftrightarrow> fst r \<le> x \<and> x < snd r \<or> x \<in> rs_elems m" for x
    by (simp add: rs_alpha_def Cons rs_elems_iff)
  have m: "snd r < x" if "x \<in> rs_elems m" for x
    using that r(2) unfolding rs_elems_iff by (meson less_le_trans)
  show ?thesis
    using r(1) el m by (fastforce simp: first_gap_def sb_ack_off_def rs_iter_def Cons)
qed

definition least_pending :: "nat set \<Rightarrow> nat \<Rightarrow> nat \<Rightarrow> bool" where
  "least_pending R u v \<longleftrightarrow> (if R = {} then v = u else v \<in> R \<and> (\<forall>y \<in> R. v \<le> y))"

lemma send_off_least:
  assumes "rs_uinv (sb_retransmits s)"
  shows "least_pending (sb_R s) (sb_unsent_off s) (sb_send_off s)"
proof (cases "rs_min (sb_retransmits s)")
  case None
  then show ?thesis using rs.least_None[OF assms] by (simp add: least_pending_def sb_send_off_def)
next
  case (Some v)
  then show ?thesis using rs.least_Some[OF assms Some] by (auto simp: least_pending_def sb_send_off_def)
qed

lemma least_pending_mono:
  assumes "least_pending R u v" "least_pending R' u' v'" "R' \<subseteq> R" "R \<subseteq> {..<u}" "u \<le> u'"
  shows "v \<le> v'"
proof (cases "R' = {}")
  case True
  then have "v' = u'" using assms(2) by (simp add: least_pending_def)
  moreover have "v \<le> u" using assms(1,4) by (auto simp: least_pending_def split: if_splits)
  ultimately show ?thesis using assms(5) by simp
next
  case False
  then have "v' \<in> R" using assms(2,3) by (auto simp: least_pending_def)
  then show ?thesis using assms(1) by (auto simp: least_pending_def split: if_splits)
qed

lemma send_off_bounds:
  assumes "sb_inv c s" "sb_live s"
  shows "sb_ack_off s \<le> sb_send_off s" "sb_send_off s \<le> sb_unsent_off s"
    "sb_send_off s < sb_write_off s \<Longrightarrow> sb_send_off s \<in> sb_pending s"
    "x \<in> sb_pending s \<Longrightarrow> sb_send_off s \<le> x"
proof -
  have lp: "least_pending (sb_R s) (sb_unsent_off s) (sb_send_off s)"
    and g: "first_gap (sb_A s) (sb_ack_off s)"
    using assms(1) send_off_least ack_off_gap by (auto simp: sb_inv_def)
  have A: "sb_A s \<subseteq> {..<sb_unsent_off s}" "sb_R s \<subseteq> {..<sb_unsent_off s}" "sb_A s \<inter> sb_R s = {}"
    using assms by (auto simp: sb_inv_def sb_live_def)
  have ao: "sb_ack_off s \<le> sb_unsent_off s" using g A(1) unfolding first_gap_def
    by (meson lessThan_iff less_irrefl not_less subset_iff)
  show "sb_ack_off s \<le> sb_send_off s"
  proof (cases "sb_R s = {}")
    case True
    then show ?thesis using lp ao by (simp add: least_pending_def)
  next
    case False
    then have "sb_send_off s \<notin> sb_A s" using lp A(3) by (auto simp: least_pending_def)
    then show ?thesis using g unfolding first_gap_def by (meson lessThan_iff not_less subsetD)
  qed
  show "sb_send_off s \<le> sb_unsent_off s"
    using lp A(2) by (fastforce simp: least_pending_def split: if_splits)
  show "sb_send_off s < sb_write_off s \<Longrightarrow> sb_send_off s \<in> sb_pending s"
    using lp by (auto simp: least_pending_def sb_pending_def split: if_splits)
  show "x \<in> sb_pending s \<Longrightarrow> sb_send_off s \<le> x"
    using lp A(2) by (fastforce simp: least_pending_def sb_pending_def split: if_splits)
qed

lemma ack_off_upd [simp]:
  "sb_ack_off (s\<lparr>sb_pos := p\<rparr>) = sb_ack_off s" "sb_ack_off (s\<lparr>sb_unsent_off := u\<rparr>) = sb_ack_off s"
  "sb_ack_off (s\<lparr>sb_retransmits := r\<rparr>) = sb_ack_off s" "sb_ack_off (s\<lparr>sb_write_off := w\<rparr>) = sb_ack_off s"
  "sb_ack_off (s\<lparr>sb_data := d\<rparr>) = sb_ack_off s" "sb_ack_off (s\<lparr>sb_fin_off := f\<rparr>) = sb_ack_off s"
  "sb_ack_off (s\<lparr>sb_unacked_len := n\<rparr>) = sb_ack_off s" "sb_ack_off (s\<lparr>sb_max_data := m\<rparr>) = sb_ack_off s"
  "sb_ack_off (s\<lparr>sb_error := er\<rparr>) = sb_ack_off s" "sb_ack_off (s\<lparr>sb_blocked_at := bl\<rparr>) = sb_ack_off s"
  "sb_ack_off (s\<lparr>sb_shutdown_flag := sd\<rparr>) = sb_ack_off s"
  by (simp_all add: sb_ack_off_def)

lemma send_off_upd [simp]:
  "sb_send_off (s\<lparr>sb_pos := p\<rparr>) = sb_send_off s" "sb_send_off (s\<lparr>sb_write_off := w\<rparr>) = sb_send_off s"
  "sb_send_off (s\<lparr>sb_data := d\<rparr>) = sb_send_off s" "sb_send_off (s\<lparr>sb_fin_off := f\<rparr>) = sb_send_off s"
  "sb_send_off (s\<lparr>sb_unacked_len := n\<rparr>) = sb_send_off s" "sb_send_off (s\<lparr>sb_max_data := m\<rparr>) = sb_send_off s"
  "sb_send_off (s\<lparr>sb_acked := ak\<rparr>) = sb_send_off s" "sb_send_off (s\<lparr>sb_error := er\<rparr>) = sb_send_off s"
  "sb_send_off (s\<lparr>sb_blocked_at := bl\<rparr>) = sb_send_off s" "sb_send_off (s\<lparr>sb_shutdown_flag := sd\<rparr>) = sb_send_off s"
  by (simp_all add: sb_send_off_def split: option.split)

lemma send_off_ge:
  assumes "rs_uinv (sb_retransmits s)" "\<forall>y \<in> sb_R s. e \<le> y" "e \<le> sb_unsent_off s"
  shows "e \<le> sb_send_off s"
  using send_off_least[OF assms(1)] assms(2,3) by (auto simp: least_pending_def split: if_splits)

subsection \<open>Transmission\<close>

text \<open>
  Moving offsets out of the pending set keeps the invariant: the sent boundary may grow, the
  retransmission set may shrink.
\<close>

lemma sb_inv_shrink:
  assumes inv: "sb_inv c s" and live: "sb_live s" and r: "rs_uinv r" "rs_alpha r \<subseteq> sb_R s"
    and u: "sb_unsent_off s \<le> u" "u \<le> sb_write_off s"
  defines "s' \<equiv> s\<lparr>sb_retransmits := r, sb_unsent_off := u\<rparr>"
  shows "sb_inv c s'" "sb_live s'"
proof -
  have R: "sb_R s \<subseteq> {..<sb_unsent_off s}" "sb_A s \<subseteq> {..<sb_unsent_off s}" using inv by (simp_all add: sb_inv_def)
  have so: "sb_send_off s \<le> sb_send_off s'"
  proof (rule least_pending_mono)
    show "least_pending (sb_R s) (sb_unsent_off s) (sb_send_off s)"
      using inv by (intro send_off_least) (simp add: sb_inv_def)
    show "least_pending (sb_R s') (sb_unsent_off s') (sb_send_off s')"
      using r(1) by (intro send_off_least) (simp add: s'_def)
  qed (use r(2) R u(1) in \<open>simp_all add: s'_def\<close>)
  have lt: "{..<sb_unsent_off s} \<subseteq> {..<u}" using u(1) by auto
  show l: "sb_live s'" using live r(2) by (auto simp: sb_live_def s'_def)
  have "pos_ok (sb_data s) (sb_pos s) (sb_send_off s')"
    using pos_ok_mono[OF _ so] inv unfolding sb_inv_def by blast
  moreover have "rs_alpha r \<subseteq> {..<u}" "sb_A s \<subseteq> {..<u}"
    using subset_trans[OF r(2) subset_trans[OF R(1) lt]] subset_trans[OF R(2) lt] .
  ultimately show "sb_inv c s'" using inv l r(1) u(2) by (simp add: sb_inv_def s'_def)
qed

lemma poll_transmit_spec:
  assumes inv: "sb_inv c s" and live: "sb_live s" and rdy: "sb_ready s" and cap: "0 < cap"
  obtains r u e where "sb_poll_transmit s cap = (s\<lparr>sb_retransmits := r, sb_unsent_off := u\<rparr>, (sb_send_off s, e))"
    "sb_send_off s < e" "e \<le> sb_send_off s + cap" "e \<le> sb_write_off s"
    "sb_inv c (s\<lparr>sb_retransmits := r, sb_unsent_off := u\<rparr>)"
    "sb_live (s\<lparr>sb_retransmits := r, sb_unsent_off := u\<rparr>)"
    "e \<le> sb_send_off (s\<lparr>sb_retransmits := r, sb_unsent_off := u\<rparr>)"
    "sb_pending (s\<lparr>sb_retransmits := r, sb_unsent_off := u\<rparr>) = sb_pending s - {sb_send_off s..<e}"
    "{sb_send_off s..<e} \<subseteq> sb_pending s" "sb_unsent_off s \<le> u" "e \<le> u"
proof -
  let ?so = "sb_send_off s" and ?un = "sb_unsent_off s" and ?w = "sb_write_off s"
  have b: "rs_uinv (sb_retransmits s)" "sb_R s \<subseteq> {..<?un}" "?un \<le> ?w" "?w \<le> u64_max"
    using inv by (auto simp: sb_inv_def)
  obtain rtx ro where pop: "rs_pop_min (sb_retransmits s) = (rtx, ro)" by fastforce
  have rw: "?so < ?w" using rdy by (simp add: sb_ready_def)
  show ?thesis
  proof (cases ro)
    case None
    then have R: "sb_R s = {}" using rs.pop_None pop b(1) by auto
    then have so: "?so = ?un" using send_off_least[OF b(1)] by (simp add: least_pending_def)
    let ?e = "min ?w (sat_add64 ?un cap)"
    have e: "?un < ?e" "?e \<le> ?un + cap" "?e \<le> ?w"
      using rw so cap b(4) by (auto simp: sat_add64_def)
    let ?s1 = "s\<lparr>sb_retransmits := sb_retransmits s, sb_unsent_off := ?e\<rparr>"
    have i: "sb_inv c ?s1" "sb_live ?s1"
      using sb_inv_shrink[OF inv live b(1) subset_refl, of ?e] e by simp_all
    have poll: "sb_poll_transmit s cap = (?s1, (?so, ?e))"
      using pop None so by (simp add: sb_poll_transmit_def Let_def)
    have nxt: "?e \<le> sb_send_off ?s1" using send_off_ge[of ?s1 ?e] b(1) R by simp
    have pend: "sb_pending ?s1 = sb_pending s - {?so..<?e}" "{?so..<?e} \<subseteq> sb_pending s"
      using R e so by (auto simp: sb_pending_def)
    show ?thesis by (rule that[OF poll _ _ e(3) i nxt pend]) (use e so in simp_all)
  next
    case (Some rg)
    have p: "rs_uinv rtx" "sb_R s = seg rg \<union> rs_alpha rtx" "rs_min (sb_retransmits s) = Some (fst rg)"
      "fst rg < snd rg" "snd rg \<le> u64_max" "\<forall>y \<in> rs_alpha rtx. snd rg < y"
      using rs.pop_Some[OF b(1)] pop Some by auto
    have so: "?so = fst rg" using p(3) by (simp add: sb_send_off_def)
    have "snd rg - 1 \<in> sb_R s" using p(2,4) by (auto simp: seg_def)
    then have un: "snd rg \<le> ?un" using b(2) by auto
    let ?e = "min (snd rg) (sat_add64 (fst rg) cap)"
    let ?r = "if ?e \<noteq> snd rg then rs_insert rtx (?e, snd rg) else rtx"
    let ?s1 = "s\<lparr>sb_retransmits := ?r, sb_unsent_off := ?un\<rparr>"
    have e: "fst rg < ?e" "?e \<le> fst rg + cap" "?e \<le> snd rg"
      using p(4,5) cap by (auto simp: sat_add64_def)
    have r: "rs_uinv ?r" "rs_alpha ?r = rs_alpha rtx \<union> {?e..<snd rg}"
      using p(1,5) by (auto simp: rs_specs seg_def)
    have rng: "seg rg = {fst rg..<?e} \<union> {?e..<snd rg}" using e by (auto simp: seg_def)
    have dis: "rs_alpha ?r \<inter> {fst rg..<?e} = {}" using r(2) p(6) e(3) by fastforce
    have R: "rs_alpha ?r = sb_R s - {fst rg..<?e}" using r(2) p(2) rng dis by blast
    have i: "sb_inv c ?s1" "sb_live ?s1"
      using sb_inv_shrink[OF inv live r(1), of ?un] R b(3) by auto
    have poll: "sb_poll_transmit s cap = (?s1, (?so, ?e))"
      using pop Some so by (simp add: sb_poll_transmit_def Let_def)
    have "\<forall>y \<in> rs_alpha ?r. ?e \<le> y" using r(2) p(6) e(3) by fastforce
    then have nxt: "?e \<le> sb_send_off ?s1" using send_off_ge[of ?s1 ?e] r(1) un e(3) by simp
    have "{?so..<?e} \<inter> {?un..<?w} = {}" using so un e(3) by auto
    then have pend: "sb_pending ?s1 = sb_pending s - {?so..<?e}" "{?so..<?e} \<subseteq> sb_pending s"
      using R so p(2) rng by (auto simp: sb_pending_def)
    show ?thesis by (rule that[OF poll _ _ _ i nxt pend]) (use e so un b(3) in simp_all)
  qed
qed

text \<open>The fields that reading leaves alone.\<close>

definition sb_frame where
  "sb_frame s = (sb_data s, sb_write_off s, sb_unacked_len s, sb_max_data s, sb_blocked_at s, sb_fin_off s,
     sb_shutdown_flag s, sb_acked s, sb_error s, sb_trace_id s)"

definition sb_loop_stops :: "'b send_buf \<Rightarrow> nat \<Rightarrow> nat \<Rightarrow> bool" where
  "sb_loop_stops s cap next_off \<longleftrightarrow>
     \<not> (cap > 0 \<and> sb_ready s \<and> sb_send_off s = next_off \<and> sb_send_off s < sb_max_data s)"

definition sb_read_post ::
    "(nat \<Rightarrow> 'b) \<Rightarrow> 'b send_buf \<Rightarrow> nat \<Rightarrow> nat \<Rightarrow> 'b send_buf \<Rightarrow> bool" where
  "sb_read_post c s a b s' \<longleftrightarrow> sb_inv c s' \<and> sb_live s' \<and> sb_frame s' = sb_frame s \<and>
     {a..<b} \<subseteq> sb_pending s \<and> sb_pending s' = sb_pending s - {a..<b} \<and>
     sb_unsent_off s \<le> sb_unsent_off s' \<and> (a < b \<longrightarrow> b \<le> sb_unsent_off s')"

lemma sb_read_post_trans:
  assumes "sb_read_post c s a b s'" "sb_read_post c s' b d s''" "a \<le> b" "b \<le> d"
  shows "sb_read_post c s a d s''"
proof -
  have "{a..<d} = {a..<b} \<union> {b..<d}" using assms(3,4) by auto
  then show ?thesis using assms(1,2) by (auto simp: sb_read_post_def)
qed

lemma sb_read_loop_spec:
  assumes "sb_inv c s" "sb_live s"
  shows "\<exists>s' n. sb_read_loop s cap a out = Some (s', cap - n, a + n, out @ map c [a..<a + n]) \<and> n \<le> cap \<and>
    sb_read_post c s a (a + n) s' \<and> sb_loop_stops s' (cap - n) (a + n)"
  using assms
proof (induction cap arbitrary: s a out rule: less_induct)
  case (less cap)
  show ?case
  proof (cases "sb_loop_stops s cap a")
    case True
    then have "sb_read_loop s cap a out = Some (s, cap, a, out)"
      by (subst sb_read_loop.simps) (auto simp: sb_loop_stops_def)
    then show ?thesis using True less.prems by (intro exI[of _ s] exI[of _ 0]) (simp add: sb_read_post_def)
  next
    case False
    then have go: "0 < cap" "sb_ready s" "sb_send_off s = a" "sb_send_off s < sb_max_data s"
      by (auto simp: sb_loop_stops_def)
    obtain r u e where p: "sb_poll_transmit s cap = (s\<lparr>sb_retransmits := r, sb_unsent_off := u\<rparr>, (a, e))"
      "a < e" "e \<le> a + cap" "e \<le> sb_write_off s"
      "sb_inv c (s\<lparr>sb_retransmits := r, sb_unsent_off := u\<rparr>)" "sb_live (s\<lparr>sb_retransmits := r, sb_unsent_off := u\<rparr>)"
      "e \<le> sb_send_off (s\<lparr>sb_retransmits := r, sb_unsent_off := u\<rparr>)"
      "sb_pending (s\<lparr>sb_retransmits := r, sb_unsent_off := u\<rparr>) = sb_pending s - {a..<e}" "{a..<e} \<subseteq> sb_pending s"
      "sb_unsent_off s \<le> u" "e \<le> u"
      using poll_transmit_spec[OF less.prems go(2,1)] go(3) by metis
    let ?s1 = "s\<lparr>sb_retransmits := r, sb_unsent_off := u\<rparr>"
    have s: "seg_chain (sb_ack_off s) (sb_data s) (sb_write_off s)" "\<forall>b \<in> set (sb_data s). rb_agrees c b"
      "pos_ok (sb_data s) (sb_pos s) a" "sb_ack_off s \<le> a"
      using less.prems(1) go(3) send_off_bounds(1)[OF less.prems] unfolding sb_inv_def by auto
    obtain pos' where cp: "copy_range ?s1 (a, e) out = Some (?s1\<lparr>sb_pos := pos'\<rparr>, out @ map c [a..<e])"
      "pos_ok (sb_data s) pos' e"
      using copy_range_spec[of "sb_ack_off s" ?s1 "sb_write_off s" a e c out] s p(2,4) by auto
    let ?s2 = "?s1\<lparr>sb_pos := pos'\<rparr>"
    have "sb_live ?s2" "sb_pending ?s2 = sb_pending ?s1" using p(6) by (simp_all add: sb_live_def sb_pending_def)
    moreover have "sb_inv c ?s2"
      using p(5) pos_ok_mono[OF cp(2) p(7)] calculation(1) by (simp add: sb_inv_def)
    ultimately have s2: "sb_read_post c s a e ?s2" "sb_inv c ?s2" "sb_live ?s2"
      using p(8-11) by (simp_all add: sb_read_post_def sb_frame_def)
    have lt: "cap - (e - a) < cap" using p(2) go(1) by simp
    obtain s' n where r: "sb_read_loop ?s2 (cap - (e - a)) e (out @ map c [a..<e]) =
        Some (s', cap - (e - a) - n, e + n, (out @ map c [a..<e]) @ map c [e..<e + n])" "n \<le> cap - (e - a)"
      "sb_read_post c ?s2 e (e + n) s'" "sb_loop_stops s' (cap - (e - a) - n) (e + n)"
      using less.IH[OF lt s2(2,3), of e "out @ map c [a..<e]"] by blast
    have "sb_read_loop s cap a out = sb_read_loop ?s2 (cap - (e - a)) e (out @ map c [a..<e])"
      using go p(1,2) cp(1) by (subst sb_read_loop.simps) (simp add: Let_def)
    moreover have "a + (e - a + n) = e + n" "cap - (e - a) - n = cap - (e - a + n)" "e - a + n \<le> cap"
      using p(2,3) r(2) by auto
    moreover have "map c [a..<e] @ map c [e..<e + n] = map c [a..<e + n]"
      using p(2) by (metis less_imp_le le_add_diff_inverse map_append upt_add_eq_append)
    moreover have "sb_read_post c s a (e + n) s'"
      using sb_read_post_trans[OF s2(1) r(3)] p(2) by simp
    ultimately show ?thesis using r(1,4) by (intro exI[of _ s'] exI[of _ "e - a + n"]) simp
  qed
qed

lemma sb_read_spec:
  assumes inv: "sb_inv c s" and live: "sb_live s"
  defines "a \<equiv> sb_send_off s"
  shows "\<exists>s' n. sb_read s cap = Some (s', map c [a..<a + n], n, sb_fin_off s = Some (a + n)) \<and> n \<le> cap \<and>
    sb_read_post c s a (a + n) s' \<and> (sb_data s \<noteq> [] \<longrightarrow> n = cap \<or> a + n \<notin> sb_pending s)"
proof -
  obtain s' n where r: "sb_read_loop s cap a [] = Some (s', cap - n, a + n, map c [a..<a + n])" "n \<le> cap"
    "sb_read_post c s a (a + n) s'" "sb_loop_stops s' (cap - n) (a + n)"
    using sb_read_loop_spec[OF inv live, of cap a "[]"] by auto
  have fr: "sb_frame s' = sb_frame s" and i: "sb_inv c s'" "sb_live s'" using r(3) by (auto simp: sb_read_post_def)
  have "sb_read s cap = Some (s', map c [a..<a + n], n, sb_fin_off s = Some (a + n))"
    using r(1,2) fr by (auto simp: sb_read_def a_def sb_frame_def)
  moreover have "n = cap \<or> a + n \<notin> sb_pending s" if d: "sb_data s \<noteq> []"
  proof (rule ccontr)
    assume "\<not> ?thesis"
    then have nc: "n < cap" and "a + n \<in> sb_pending s'" using r(2,3) by (auto simp: sb_read_post_def)
    then have "sb_send_off s' \<le> a + n" "a + n < sb_write_off s'"
      using send_off_bounds(4)[OF i] i(1) by (auto simp: sb_pending_def sb_inv_def)
    moreover have "sb_send_off s' \<in> sb_pending s'" using send_off_bounds(3)[OF i] calculation by simp
    then have "a + n \<le> sb_send_off s'"
      using r(3) send_off_bounds(4)[OF inv live] unfolding sb_read_post_def a_def by fastforce
    ultimately show False
      using r(4) nc d fr i(1) by (simp add: sb_loop_stops_def sb_ready_def sb_frame_def sb_inv_def)
  qed
  ultimately show ?thesis using r by blast
qed

subsection \<open>Writing\<close>

text \<open>Appending blocks at the end of an open stream.\<close>

lemma sb_inv_append:
  assumes inv: "sb_inv c s" and live: "sb_live s" and ch: "seg_chain (sb_write_off s) bufs (sb_write_off s + n)"
    and ag: "\<forall>b \<in> set bufs. rb_agrees c b" and lim: "sb_write_off s + n \<le> sb_max_data s"
    and fin: "f = None \<or> f = Some (sb_write_off s + n)" and err: "sb_error s = None"
  defines "s' \<equiv> s\<lparr>sb_fin_off := f, sb_data := sb_data s @ bufs, sb_write_off := sb_write_off s + n,
    sb_unacked_len := sb_unacked_len s + n\<rparr>"
  shows "sb_inv c s'" "sb_live s'" "sb_pending s' = sb_pending s \<union> {sb_write_off s..<sb_write_off s + n}"
proof -
  have "sb_ack_off s \<le> sb_write_off s"
    using inv seg_chain_le unfolding sb_inv_def by blast
  then show l: "sb_live s'" using live by (simp add: sb_live_def s'_def)
  have "seg_chain (sb_ack_off s) (sb_data s @ bufs) (sb_write_off s + n)"
    using inv ch seg_chain_append unfolding sb_inv_def by blast
  then show "sb_inv c s'"
    using inv l ag lim fin err by (auto simp: sb_inv_def s'_def intro: pos_ok_append)
  have "sb_unsent_off s \<le> sb_write_off s" using inv by (simp add: sb_inv_def)
  then show "sb_pending s' = sb_pending s \<union> {sb_write_off s..<sb_write_off s + n}"
    by (auto simp: sb_pending_def s'_def)
qed

lemma sb_write_open:
  assumes inv: "sb_inv c s" and err: "sb_error s = None" and nf: "sb_fin_off s = None"
    and d: "d = map c [sb_write_off s..<sb_write_off s + length d]"
    and ov: "sb_write_off s + length d \<le> u64_max"
  defines "n \<equiv> min (length d) (sb_max_data s - sb_write_off s)"
  shows "\<exists>s'. sb_write s d fin = (s', Ok n) \<and> sb_inv c s' \<and> sb_live s' \<and>
    sb_write_off s' = sb_write_off s + n \<and> sb_max_data s' = sb_max_data s \<and>
    sb_pending s' = sb_pending s \<union> {sb_write_off s..<sb_write_off s + n} \<and>
    sb_fin_off s' = (if fin \<and> n = length d then Some (sb_write_off s + length d) else None)"
proof -
  let ?w = "sb_write_off s" and ?cap = "sb_max_data s - sb_write_off s"
  let ?d = "if length d > ?cap then take ?cap d else d" and ?fin = "if length d > ?cap then False else fin"
  have live: "sb_live s" using inv nf by (auto simp: sb_inv_def sb_dead_def)
  have w: "?w \<le> sb_max_data s" "?w \<le> u64_max" using inv by (auto simp: sb_inv_def)
  have len: "length ?d = n" by (simp add: n_def)
  have dn: "?d = map c [?w..<?w + length ?d]"
    by (subst (1 2) d) (auto simp: take_map)
  obtain bufs where b: "write_chunks ?d ?w 0 (length ?d) ?fin = (bufs, ?w + length ?d)"
    "seg_chain ?w bufs (?w + length ?d)" "\<forall>b \<in> set bufs. rb_agrees c b" "bufs = [] \<longleftrightarrow> ?d = []"
    using write_chunks_spec[of ?d ?w 0 "length ?d" ?fin c] dn by blast
  let ?f = "if ?fin then Some (?w + length d) else None"
  let ?s' = "(if ?fin then s\<lparr>sb_fin_off := Some (?w + length d)\<rparr> else s)
    \<lparr>sb_data := sb_data s @ bufs, sb_write_off := ?w + n, sb_unacked_len := sb_unacked_len s + n\<rparr>"
  have f: "?f = None \<or> ?f = Some (?w + n)" using len by (auto split: if_splits)
  have lim: "?w + n \<le> sb_max_data s" using w(1) by (simp add: n_def)
  have eq: "s\<lparr>sb_fin_off := ?f, sb_data := sb_data s @ bufs, sb_write_off := ?w + n,
      sb_unacked_len := sb_unacked_len s + n\<rparr> = ?s'"
    by (rule send_buf.equality) (simp_all add: nf)
  have i: "sb_inv c ?s'" "sb_live ?s'" "sb_pending ?s' = sb_pending s \<union> {?w..<?w + n}"
    using sb_inv_append[OF inv live b(2)[unfolded len] b(3) lim f err] unfolding eq .
  have "?d = [] \<Longrightarrow> ?s' = (if ?fin then s\<lparr>sb_fin_off := Some (?w + length d)\<rparr> else s)"
    using b(4) len by (intro send_buf.equality) (auto split: if_splits)
  moreover have "sb_capacity s = Ok ?cap" using err w(1) by (simp add: sb_capacity_def sub64_def)
  ultimately have "sb_write s d fin = (?s', Ok n)"
    using b(1) nf len ov unfolding sb_write_def Let_def
    by (cases "?cap < length d") (auto simp: add64_def)
  moreover have "?fin \<longleftrightarrow> fin \<and> n = length d" by (auto simp: n_def)
  ultimately show ?thesis using i nf by (intro exI[of _ ?s']) auto
qed

lemma sb_write_closed:
  assumes inv: "sb_inv c s" and cl: "sb_error s \<noteq> None \<or> sb_fin_off s \<noteq> None"
    and ov: "sb_write_off s + length d \<le> u64_max"
  shows "fst (sb_write s d fin) = s \<and> snd (sb_write s d fin) =
    (case sb_error s of Some e \<Rightarrow> Err (StreamStopped e)
     | None \<Rightarrow> if d = [] \<and> fin then Ok 0 else Err FinalSizeError)"
proof -
  have w: "sb_write_off s \<le> sb_max_data s" and f: "sb_fin_off s = Some x \<Longrightarrow> x = sb_write_off s" for x
    using inv by (auto simp: sb_inv_def)
  show ?thesis
  proof (cases "sb_error s")
    case None
    then have fo: "sb_fin_off s = Some (sb_write_off s)" using cl f by (cases "sb_fin_off s") auto
    then have "s\<lparr>sb_fin_off := Some (sb_write_off s)\<rparr> = s" by simp
    then show ?thesis using None ov w fo
      by (auto simp: sb_write_def sb_capacity_def Let_def add64_def sub64_def)
  next
    case (Some e)
    then show ?thesis using ov by (simp add: sb_write_def sb_capacity_def add64_def)
  qed
qed

subsection \<open>Acknowledgement and loss\<close>

lemma first_gap_insert:
  assumes "first_gap A n" "first_gap (A \<union> {off..<e}) m"
  shows "n \<le> m" "off > m \<Longrightarrow> m = n"
proof -
  show "n \<le> m" using assms unfolding first_gap_def by (metis UnCI lessThan_iff not_less subsetD)
  assume "off > m"
  then have "first_gap A m" using assms(2) unfolding first_gap_def by fastforce
  then show "m = n" using assms(1) first_gap_unique by blast
qed

lemma sb_ack_and_drop_spec:
  assumes inv: "sb_inv c s" and leg: "off + len \<le> sb_unsent_off s"
  shows "\<exists>s'. sb_ack_and_drop s off len = (s', Ok ()) \<and> sb_inv c s' \<and>
    sb_write_off s' = sb_write_off s \<and> sb_unsent_off s' = sb_unsent_off s \<and> sb_fin_off s' = sb_fin_off s \<and>
    sb_max_data s' = sb_max_data s \<and> sb_error s' = sb_error s \<and>
    (sb_data s \<noteq> [] \<longrightarrow> sb_A s' = sb_A s \<union> {off..<off + len} \<and> sb_R s' = sb_R s - {off..<off + len}) \<and>
    (sb_data s = [] \<longrightarrow> sb_A s' = sb_A s \<and> sb_R s' = {})"
proof (cases "sb_data s = []")
  case True
  have r: "rs_uinv (rs_clear (sb_retransmits s))" "rs_alpha (rs_clear (sb_retransmits s)) = {}"
    using inv rs_specs by (auto simp: sb_inv_def)
  then have "sb_inv c (s\<lparr>sb_retransmits := rs_clear (sb_retransmits s)\<rparr>)"
    using inv True by (auto simp: sb_inv_def sb_live_def sb_dead_def pos_ok_def)
  then show ?thesis using True r by (simp add: sb_ack_and_drop_def)
next
  case False
  let ?e = "off + len"
  have b: "rs_uinv (sb_acked s)" "rs_uinv (sb_retransmits s)" "sb_live s" "?e \<le> u64_max"
    "sb_A s \<subseteq> {..<sb_unsent_off s}"
    using inv leg False by (auto simp: sb_inv_def sb_dead_def)
  let ?s2 = "s\<lparr>sb_acked := rs_insert (sb_acked s) (off, ?e), sb_retransmits := rs_remove (sb_retransmits s) (off, ?e)\<rparr>"
  have u: "rs_uinv (sb_acked ?s2)" "rs_uinv (sb_retransmits ?s2)" "sb_A ?s2 = sb_A s \<union> {off..<?e}"
    "sb_R ?s2 = sb_R s - {off..<?e}"
    using b(1,2,4) by (simp_all add: rs_specs seg_def)
  have A: "sb_A ?s2 \<subseteq> {..<sb_unsent_off s}" using u(3) b(5) leg by auto
  have g: "first_gap (sb_A s) (sb_ack_off s)" "first_gap (sb_A s \<union> {off..<?e}) (sb_ack_off ?s2)"
    using ack_off_gap[OF b(1)] ack_off_gap[OF u(1)] u(3) by simp_all
  note mono = first_gap_insert[OF g]
  have so: "sb_send_off s \<le> sb_send_off ?s2"
    by (rule least_pending_mono[OF send_off_least[OF b(2)] send_off_least[OF u(2)]])
      (use inv u(4) in \<open>auto simp: sb_inv_def\<close>)
  have ack: "sb_ack s off len = (s\<lparr>sb_acked := rs_insert (sb_acked s) (off, ?e)\<rparr>, Ok ())"
    using b(4) by (simp add: sb_ack_def add64_def)
  have pos: "pos_ok (sb_data s) (sb_pos s) (sb_send_off ?s2)"
    using pos_ok_mono[OF _ so] inv unfolding sb_inv_def by blast
  have R: "sb_A ?s2 \<inter> sb_R ?s2 = {}" "sb_R ?s2 \<subseteq> {..<sb_unsent_off s}"
    using b(3) u(3,4) inv by (auto simp: sb_live_def sb_inv_def)
  show ?thesis
  proof (cases "off > sb_ack_off ?s2")
    case True
    have "sb_ack_off ?s2 = sb_ack_off s" using mono(2)[OF True] .
    then have "sb_inv c ?s2"
      using inv u A R pos b(3) False by (auto simp: sb_inv_def sb_live_def sb_dead_def)
    moreover have "sb_ack_and_drop s off len = (?s2, Ok ())"
      using False True ack by (simp add: sb_ack_and_drop_def Let_def)
    ultimately show ?thesis using u False by auto
  next
    case stay: False
    let ?ao = "sb_ack_off ?s2" and ?n = "sb_ack_off ?s2 - sb_ack_off s"
    have ch: "seg_chain (sb_ack_off s) (sb_data s) (sb_write_off s)" "\<forall>b \<in> set (sb_data s). rb_agrees c b"
      using inv by (auto simp: sb_inv_def)
    have "?ao \<le> sb_unsent_off s"
      using g(2) A u(3) unfolding first_gap_def by (metis lessThan_iff not_less order_refl subsetD)
    then have ao: "?ao \<le> sb_write_off s" "sb_ack_off s + ?n = ?ao" using inv mono(1) by (auto simp: sb_inv_def)
    obtain data' k where dr: "drop_acked (sb_data s) ?n 0 = Ok (data', k)" "seg_chain ?ao data' (sb_write_off s)"
      "\<forall>x \<in> set data'. rb_agrees c x" "k \<le> length (sb_data s)"
      "map rb_max_off data' = drop k (map rb_max_off (sb_data s))"
      using drop_acked_spec[OF ch(1) _ ch(2), of ?n 0] ao by auto
    let ?s' = "?s2\<lparr>sb_unacked_len := sb_unacked_len s - ?n, sb_data := data', sb_pos := sb_pos s - k\<rparr>"
    have un: "sb_unacked_len s = sb_write_off s - sb_ack_off s" "sb_ack_off s \<le> sb_write_off s"
      using b(3) seg_chain_le[OF ch(1)] by (auto simp: sb_live_def)
    then have base: "sb_write_off s - sb_unacked_len s = sb_ack_off s" "sb_unacked_len s \<le> sb_write_off s"
      "?n \<le> sb_unacked_len s" using ao by simp_all
    have run: "sb_ack_and_drop s off len = (?s', Ok ())"
      using False stay ack dr(1) base mono(1) by (simp add: sb_ack_and_drop_def Let_def sub64_def)
    have "sb_live ?s'" using R(1) un ao mono(1) by (simp add: sb_live_def)
    moreover have "sb_error s = None" using inv False by (auto simp: sb_inv_def)
    ultimately have "sb_inv c ?s'"
      using inv u A R(2) dr(2,3) pos_ok_drop[OF pos dr(5,4)] by (simp add: sb_inv_def)
    then show ?thesis using run u False by auto
  qed
qed

lemma sb_retransmit_eq:
  assumes "\<not> (sb_data s = [] \<or> off + len \<le> sb_ack_off s)" "off + len \<le> u64_max"
    and sc: "retransmit_scan (rs_iter (sb_acked s)) (sb_retransmits s) off (off + len) = (rtx, st, e)"
  defines "s1 \<equiv> s\<lparr>sb_retransmits := rs_insert rtx (st, e)\<rparr>"
  shows "sb_retransmit s off len =
    (if sb_send_off s1 < sb_send_off s then s1\<lparr>sb_pos := 0\<rparr> else s1, Ok ())"
  unfolding sb_retransmit_def Let_def s1_def using assms(1,2) sc by (simp add: add64_def)

lemma sb_inv_lost:
  assumes "sb_inv c s" "sb_live s" "rs_uinv r" "rs_alpha r \<subseteq> {..<sb_unsent_off s}" "sb_A s \<inter> rs_alpha r = {}"
    "pos_ok (sb_data s) p (sb_send_off (s\<lparr>sb_retransmits := r\<rparr>))"
  shows "sb_inv c (s\<lparr>sb_retransmits := r, sb_pos := p\<rparr>)"
proof -
  have "sb_live (s\<lparr>sb_retransmits := r, sb_pos := p\<rparr>)" using assms(2,5) by (simp add: sb_live_def)
  then show ?thesis using assms(1,3,4,6) unfolding sb_inv_def by simp
qed

lemma sb_retransmit_spec:
  assumes inv: "sb_inv c s" and leg: "off + len \<le> sb_unsent_off s"
  shows "\<exists>s'. sb_retransmit s off len = (s', Ok ()) \<and> sb_inv c s' \<and>
    sb_frame s' = sb_frame s \<and> sb_unsent_off s' = sb_unsent_off s \<and>
    sb_R s' = sb_R s \<union> ({off..<off + len} - sb_A s)"
proof -
  let ?e = "off + len"
  have b: "rs_uinv (sb_acked s)" "rs_uinv (sb_retransmits s)" "?e \<le> u64_max" "sb_R s \<subseteq> {..<sb_unsent_off s}"
    using inv leg by (auto simp: sb_inv_def)
  have g: "first_gap (sb_A s) (sb_ack_off s)" by (rule ack_off_gap[OF b(1)])
  show ?thesis
  proof (cases "sb_data s = [] \<or> ?e \<le> sb_ack_off s")
    case True
    then have "?e \<le> sb_ack_off s" using inv leg by (auto simp: sb_inv_def)
    then have "{off..<?e} - sb_A s = {}" using g by (auto simp: first_gap_def)
    moreover have "sb_retransmit s off len = (s, Ok ())"
      using True b(3) by (auto simp: sb_retransmit_def Let_def add64_def)
    ultimately show ?thesis using inv by auto
  next
    case False
    obtain rtx st e where sc: "retransmit_scan (rs_iter (sb_acked s)) (sb_retransmits s) off ?e = (rtx, st, e)"
      "rs_uinv rtx" "e \<le> u64_max"
      "rs_alpha rtx \<union> {st..<e} = sb_R s \<union> ({off..<?e} - rs_elems (rs_iter (sb_acked s)))"
      using retransmit_scan_spec[of "rs_iter (sb_acked s)" "sb_retransmits s" off ?e] b(1-3)
      by (auto simp: rs_uinv_def rs_iter_def)
    let ?r = "rs_insert rtx (st, e)" and ?s1 = "s\<lparr>sb_retransmits := rs_insert rtx (st, e)\<rparr>"
    have "rs_elems (rs_iter (sb_acked s)) = sb_A s" by (simp add: rs_alpha_def rs_iter_def)
    moreover have "rs_uinv ?r" "rs_alpha ?r = rs_alpha rtx \<union> {st..<e}"
      using sc(2,3) by (simp_all add: rs_specs seg_def)
    ultimately have r: "rs_uinv ?r" "rs_alpha ?r = sb_R s \<union> ({off..<?e} - sb_A s)"
      using sc(4) by simp_all
    define s' where "s' = (if sb_send_off ?s1 < sb_send_off s then ?s1\<lparr>sb_pos := 0\<rparr> else ?s1)"
    have live: "sb_live s" using inv False by (auto simp: sb_inv_def sb_dead_def)
    have i: "rs_alpha ?r \<subseteq> {..<sb_unsent_off s}" "sb_A s \<inter> rs_alpha ?r = {}"
      using r(2) b(4) leg live by (auto simp: sb_live_def)
    have "sb_inv c s' \<and> sb_frame s' = sb_frame s \<and> sb_unsent_off s' = sb_unsent_off s \<and> sb_R s' = rs_alpha ?r"
    proof (cases "sb_send_off ?s1 < sb_send_off s")
      case True
      then have s': "s' = ?s1\<lparr>sb_pos := 0\<rparr>" by (simp only: s'_def if_True)
      have "sb_inv c (?s1\<lparr>sb_pos := 0\<rparr>)" by (rule sb_inv_lost[OF inv live r(1) i pos_ok_0])
      then show ?thesis unfolding s' by (simp add: sb_frame_def)
    next
      case ge: False
      then have s': "s' = ?s1" by (simp only: s'_def if_False)
      have "sb_send_off s \<le> sb_send_off ?s1" using ge by (simp only: not_less)
      then have "pos_ok (sb_data s) (sb_pos s) (sb_send_off ?s1)"
        using inv pos_ok_mono unfolding sb_inv_def by blast
      from sb_inv_lost[OF inv live r(1) i this] show ?thesis unfolding s' by (simp add: sb_frame_def)
    qed
    moreover have "sb_retransmit s off len = (s', Ok ())"
      unfolding s'_def by (rule sb_retransmit_eq[OF False b(3) sc(1)])
    ultimately show ?thesis using r(2) by auto
  qed
qed

subsection \<open>Reset\<close>

lemma sb_reset_spec:
  assumes inv: "sb_inv c s"
  shows "\<exists>s'. sb_reset s = (s', sb_unsent_off s, sb_write_off s - sb_unsent_off s) \<and> sb_inv c s' \<and> sb_dead s' \<and>
    sb_unsent_off s' = sb_unsent_off s \<and> sb_A s' = {..<sb_unsent_off s} \<and> sb_is_complete s' \<and>
    sb_max_data s' = sb_max_data s \<and> sb_error s' = sb_error s \<and> sb_shutdown_flag s' = sb_shutdown_flag s"
proof -
  let ?u = "sb_unsent_off s" and ?ak = "rs_insert (sb_acked s) (0, sb_unsent_off s)"
  have b: "rs_uinv (sb_acked s)" "?u \<le> u64_max" "sb_A s \<subseteq> {..<?u}" "?u \<le> sb_write_off s"
    using inv by (auto simp: sb_inv_def)
  have ak: "rs_uinv ?ak" "rs_alpha ?ak = {..<?u}"
    using b by (auto simp: rs_specs seg_def)
  let ?s' = "s\<lparr>sb_fin_off := Some ?u, sb_data := [], sb_acked := ?ak, sb_pos := 0, sb_write_off := ?u\<rparr>"
  have "sb_reset s = (?s', ?u, sb_write_off s - ?u)"
    using b(2) by (simp add: sb_reset_def sb_ack_def add64_def Let_def)
  moreover have "first_gap {..<?u} (sb_ack_off ?s')" using ack_off_gap[of ?s'] ak by simp
  then have "sb_ack_off ?s' = ?u" using first_gap_unique[of "{..<?u}" _ ?u] by (simp add: first_gap_def)
  then have "sb_inv c ?s'" using inv ak b by (auto simp: sb_inv_def sb_dead_def)
  moreover have "rs_eq_range ?ak (0, ?u)" if "?u \<noteq> 0"
    using rs_eq_range_iff[of ?ak "(0, ?u)"] ak b(2) that
    by (simp add: rs_uinv_def rs_alpha_def lessThan_atLeast0)
  then have "sb_is_complete ?s'" by (auto simp: sb_is_complete_def)
  ultimately show ?thesis using ak by (intro exI[of _ ?s']) (simp add: sb_dead_def)
qed

lemma sb_stop_spec:
  assumes inv: "sb_inv c s"
  shows "\<exists>s'. sb_stop s e = (s', if sb_error s = None then Ok (sb_unsent_off s, sb_write_off s - sb_unsent_off s)
      else Err Done) \<and> sb_inv c s' \<and> sb_max_data s' = sb_max_data s \<and> sb_unsent_off s' = sb_unsent_off s \<and>
    (sb_error s = None \<longrightarrow> sb_dead s' \<and> sb_is_complete s' \<and> sb_error s' = Some e) \<and> (sb_error s \<noteq> None \<longrightarrow> s' = s)"
proof (cases "sb_error s")
  case None
  obtain s1 where r: "sb_reset s = (s1, sb_unsent_off s, sb_write_off s - sb_unsent_off s)" "sb_inv c s1"
    "sb_dead s1" "sb_is_complete s1" "sb_max_data s1 = sb_max_data s" "sb_unsent_off s1 = sb_unsent_off s"
    using sb_reset_spec[OF inv] by blast
  let ?s' = "s1\<lparr>sb_error := Some e\<rparr>"
  have "sb_inv c ?s'" using r(2,3) unfolding sb_inv_def sb_dead_def sb_live_def by simp
  moreover have "sb_dead ?s'" "sb_is_complete ?s'"
    using r(3,4) unfolding sb_dead_def sb_is_complete_def by simp_all
  ultimately show ?thesis using None r(1,5,6) by (simp add: sb_stop_def)
qed (use inv in \<open>simp add: sb_stop_def\<close>)

lemma sb_shutdown_spec:
  assumes inv: "sb_inv c s"
  shows "\<exists>s'. sb_shutdown s = (s', if sb_shutdown_flag s then Err Done
      else Ok (sb_unsent_off s, sb_write_off s - sb_unsent_off s)) \<and> sb_inv c s' \<and>
    sb_max_data s' = sb_max_data s \<and> sb_unsent_off s' = sb_unsent_off s \<and>
    (\<not> sb_shutdown_flag s \<longrightarrow> sb_dead s' \<and> sb_is_complete s' \<and> sb_shutdown_flag s') \<and> (sb_shutdown_flag s \<longrightarrow> s' = s)"
proof (cases "sb_shutdown_flag s")
  case False
  let ?s = "s\<lparr>sb_shutdown_flag := True\<rparr>"
  have "sb_inv c ?s" using inv by (simp add: sb_inv_def sb_live_def sb_dead_def)
  from sb_reset_spec[OF this] show ?thesis using False by (auto simp: sb_shutdown_def)
qed (use inv in \<open>simp add: sb_shutdown_def\<close>)

lemma sb_update_max_data_inv:
  "sb_inv c s \<Longrightarrow> m \<le> VINT_MAX \<Longrightarrow> sb_inv c (sb_update_max_data s m)"
  unfolding sb_update_max_data_def sb_inv_def sb_live_def sb_dead_def by (simp add: le_max_iff_disj VINT_MAX_u64)

section \<open>Every sequence of operations\<close>

text \<open>
  The application writes the next \<open>n\<close> bytes of its stream \<open>c\<close>; the connection
  reads frames, acknowledges or declares lost ranges it has sent before, raises the limit, and
  stops or shuts down the stream. A step hands out the frames that were read: offset, bytes
  and fin flag.
\<close>

datatype sb_op =
    SbWrite nat bool
  | SbRead nat
  | SbAck nat nat
  | SbLost nat nat
  | SbMaxData nat
  | SbBlockedAt "nat option"
  | SbStop nat
  | SbShutdown

type_synonym 'b tx_frame = "nat \<times> 'b list \<times> bool"

fun sb_step :: "(nat \<Rightarrow> 'b) \<Rightarrow> sb_op \<Rightarrow> 'b send_buf \<Rightarrow> 'b send_buf \<times> 'b tx_frame list" where
  "sb_step c (SbWrite n fin) s =
     (fst (sb_write s (map c [sb_write_off s..<sb_write_off s + n]) fin), [])"
| "sb_step c (SbRead cap) s =
     (case sb_read s cap of
        None \<Rightarrow> (s, [])
      | Some (s', out, n, fin) \<Rightarrow> (s', [(sb_send_off s, out, fin)]))"
| "sb_step c (SbAck off len) s =
     (if off + len \<le> sb_unsent_off s then fst (sb_ack_and_drop s off len) else s, [])"
| "sb_step c (SbLost off len) s =
     (if off + len \<le> sb_unsent_off s then fst (sb_retransmit s off len) else s, [])"
| "sb_step c (SbMaxData m) s = (sb_update_max_data s m, [])"
| "sb_step c (SbBlockedAt b) s = (sb_update_blocked_at s b, [])"
| "sb_step c (SbStop e) s = (fst (sb_stop s e), [])"
| "sb_step c SbShutdown s = (fst (sb_shutdown s), [])"

fun sb_legal :: "sb_op \<Rightarrow> bool" where
  "sb_legal (SbMaxData m) \<longleftrightarrow> m \<le> VINT_MAX"
| "sb_legal _ \<longleftrightarrow> True"

definition tx_frame_ok :: "(nat \<Rightarrow> 'b) \<Rightarrow> 'b send_buf \<Rightarrow> 'b tx_frame \<Rightarrow> bool" where
  "tx_frame_ok c s fr \<longleftrightarrow>
     (case fr of (off, bytes, fin) \<Rightarrow>
        bytes = map c [off..<off + length bytes] \<and> off + length bytes \<le> sb_unsent_off s \<and>
        (fin \<longrightarrow> sb_fin_off s = Some (off + length bytes) \<and> sb_unsent_off s = off + length bytes))"

definition sb_emits :: "(nat \<Rightarrow> 'b) \<Rightarrow> 'b send_buf \<Rightarrow> 'b tx_frame list \<Rightarrow> 'b send_buf \<Rightarrow> bool" where
  "sb_emits c s out s' \<longleftrightarrow>
     (\<forall>fr \<in> set out. tx_frame_ok c s' fr) \<and> sb_unsent_off s \<le> sb_unsent_off s' \<and>
     sb_max_data s \<le> sb_max_data s' \<and> sb_A s \<subseteq> sb_A s' \<and>
     (\<forall>f. sb_fin_off s = Some f \<and> sb_unsent_off s = f \<longrightarrow> sb_fin_off s' = Some f \<and> sb_unsent_off s' = f)"

lemma sb_emits_trans:
  assumes "sb_emits c s out s'" "sb_emits c s' out' s''"
  shows "sb_emits c s (out @ out') s''"
proof -
  have "tx_frame_ok c s'' fr" if "tx_frame_ok c s' fr" for fr
    using assms(2) that by (auto simp: sb_emits_def tx_frame_ok_def)
  then show ?thesis using assms by (auto simp: sb_emits_def)
qed

lemma sb_read_dead:
  assumes "\<not> sb_ready s"
  shows "sb_read s cap = Some (s, [], 0, sb_fin_off s = Some (sb_send_off s))"
  using assms by (simp add: sb_read_def sb_read_loop.simps[of s])

lemma sb_step_write:
  assumes inv: "sb_inv c s"
  shows "sb_inv c (fst (sb_step c (SbWrite n fin) s)) \<and> sb_emits c s [] (fst (sb_step c (SbWrite n fin) s))"
proof -
  let ?d = "map c [sb_write_off s..<sb_write_off s + n]"
  consider (ov) "\<not> sb_write_off s + n \<le> u64_max"
    | (cl) "sb_write_off s + n \<le> u64_max" "sb_error s \<noteq> None \<or> sb_fin_off s \<noteq> None"
    | (op) "sb_write_off s + n \<le> u64_max" "sb_error s = None" "sb_fin_off s = None" by blast
  then show ?thesis
  proof cases
    case ov
    then have "fst (sb_write s ?d fin) = s" by (simp add: sb_write_def add64_def)
    then show ?thesis using inv by (simp add: sb_emits_def)
  next
    case cl
    then have "fst (sb_write s ?d fin) = s" using sb_write_closed[OF inv cl(2), of ?d] by simp
    then show ?thesis using inv by (simp add: sb_emits_def)
  next
    case op
    obtain s' k where w: "sb_write s ?d fin = (s', Ok k)" "sb_inv c s'" "sb_max_data s' = sb_max_data s"
      using sb_write_open[OF inv op(2,3), of ?d fin] op(1) by auto
    have "sb_acked s' = sb_acked s \<and> sb_unsent_off s' = sb_unsent_off s"
      using w(1) by (auto simp: sb_write_def Let_def attempt_Ok split: prod.splits if_splits)
    then show ?thesis using w op(3) by (simp add: sb_emits_def)
  qed
qed

lemma sb_step_read:
  assumes inv: "sb_inv c s"
  shows "sb_inv c (fst (sb_step c (SbRead cap) s)) \<and>
    sb_emits c s (snd (sb_step c (SbRead cap) s)) (fst (sb_step c (SbRead cap) s))"
proof (cases "sb_ready s")
  case False
  have R: "rs_uinv (sb_retransmits s)" "sb_R s \<subseteq> {..<sb_unsent_off s}" using inv by (simp_all add: sb_inv_def)
  have le: "sb_send_off s \<le> sb_unsent_off s"
    using send_off_least[OF R(1)] R(2) by (auto simp: least_pending_def split: if_splits)
  have "sb_unsent_off s \<le> f" if "sb_fin_off s = Some f" for f using inv that by (auto simp: sb_inv_def)
  then show ?thesis using sb_read_dead[OF False, of cap] inv le
    by (auto simp: sb_emits_def tx_frame_ok_def dest: le_antisym)
next
  case True
  let ?a = "sb_send_off s"
  have live: "sb_live s" using inv True by (auto simp: sb_inv_def sb_ready_def sb_dead_def)
  obtain s' n where r: "sb_read s cap = Some (s', map c [?a..<?a + n], n, sb_fin_off s = Some (?a + n))"
    "sb_read_post c s ?a (?a + n) s'" using sb_read_spec[OF inv live, of cap] by blast
  have p: "sb_inv c s'" "sb_live s'" "sb_frame s' = sb_frame s" "sb_pending s' = sb_pending s - {?a..<?a + n}"
    "sb_unsent_off s \<le> sb_unsent_off s'" "0 < n \<longrightarrow> ?a + n \<le> sb_unsent_off s'"
    using r(2) by (auto simp: sb_read_post_def)
  have fr: "sb_fin_off s' = sb_fin_off s" "sb_write_off s' = sb_write_off s" "sb_max_data s' = sb_max_data s"
    "sb_acked s' = sb_acked s" using p(3) by (auto simp: sb_frame_def)
  have le: "?a + n \<le> sb_unsent_off s'"
    using p(5,6) send_off_bounds(2)[OF inv live] by (cases "n = 0") auto
  have uw: "sb_unsent_off s' \<le> sb_write_off s" using p(1) fr(2) by (simp add: sb_inv_def)
  have fin: "sb_unsent_off s' = f" if "sb_fin_off s = Some f" "f = ?a + n \<or> f = sb_unsent_off s" for f
    using that le uw p(5) inv by (auto simp: sb_inv_def)
  then have "tx_frame_ok c s' (?a, map c [?a..<?a + n], sb_fin_off s = Some (?a + n))"
    using le fr(1) by (auto simp: tx_frame_ok_def)
  then show ?thesis using r(1) p(1,5) fr fin by (auto simp: sb_emits_def)
qed

lemma sb_step_ack:
  assumes inv: "sb_inv c s"
  shows "sb_inv c (fst (sb_step c (SbAck off len) s)) \<and> sb_emits c s [] (fst (sb_step c (SbAck off len) s))"
    "sb_inv c (fst (sb_step c (SbLost off len) s)) \<and> sb_emits c s [] (fst (sb_step c (SbLost off len) s))"
  using sb_ack_and_drop_spec[OF inv, of off len] sb_retransmit_spec[OF inv, of off len] inv
  by (auto simp: sb_emits_def sb_frame_def)

lemma sb_dead_acked: "sb_inv c s \<Longrightarrow> sb_dead s \<Longrightarrow> sb_A s = {..<sb_unsent_off s}"
  using ack_off_gap[of s] by (auto simp: sb_inv_def sb_dead_def first_gap_def)

lemma sb_step_close:
  assumes inv: "sb_inv c s"
  shows "sb_inv c (fst (sb_step c (SbStop e) s)) \<and> sb_emits c s [] (fst (sb_step c (SbStop e) s))"
    "sb_inv c (fst (sb_step c SbShutdown s)) \<and> sb_emits c s [] (fst (sb_step c SbShutdown s))"
proof -
  have A: "sb_A s \<subseteq> {..<sb_unsent_off s}" using inv by (simp add: sb_inv_def)
  have dead: "sb_emits c s [] s'" if "sb_inv c s'" "sb_dead s'" "sb_unsent_off s' = sb_unsent_off s"
    "sb_max_data s' = sb_max_data s" for s'
    using sb_dead_acked[OF that(1,2)] that A by (auto simp: sb_emits_def sb_dead_def)
  have same: "sb_emits c s [] s" by (simp add: sb_emits_def)
  show "sb_inv c (fst (sb_step c (SbStop e) s)) \<and> sb_emits c s [] (fst (sb_step c (SbStop e) s))"
    using sb_stop_spec[OF inv, of e] dead same by (cases "sb_error s = None") auto
  show "sb_inv c (fst (sb_step c SbShutdown s)) \<and> sb_emits c s [] (fst (sb_step c SbShutdown s))"
    using sb_shutdown_spec[OF inv] dead same by (cases "sb_shutdown_flag s") auto
qed

lemma sb_step_ok:
  assumes inv: "sb_inv c s" and leg: "sb_legal oper"
  shows "sb_inv c (fst (sb_step c oper s)) \<and> sb_emits c s (snd (sb_step c oper s)) (fst (sb_step c oper s))"
proof (cases oper)
  case (SbMaxData m)
  then have m: "m \<le> VINT_MAX" using leg by simp
  have "sb_emits c s [] (sb_update_max_data s m)" by (simp add: sb_emits_def sb_update_max_data_def)
  then show ?thesis using SbMaxData sb_update_max_data_inv[OF inv m] by simp
next
  case (SbBlockedAt b)
  then show ?thesis using inv
    by (simp add: sb_update_blocked_at_def sb_inv_def sb_live_def sb_dead_def sb_emits_def)
next
  case (SbRead cap)
  then show ?thesis using sb_step_read[OF inv] by blast
next
  case (SbWrite n fin)
  then show ?thesis using sb_step_write[OF inv, of n fin] by simp
next
  case (SbAck off len)
  then show ?thesis using sb_step_ack(1)[OF inv, of off len] by simp
next
  case (SbLost off len)
  then show ?thesis using sb_step_ack(2)[OF inv, of off len] by simp
next
  case (SbStop e)
  then show ?thesis using sb_step_close(1)[OF inv, of e] by simp
next
  case SbShutdown
  then show ?thesis using sb_step_close(2)[OF inv] by simp
qed

interpretation sb: op_machine "sb_step c" sb_legal "sb_inv c" "sb_emits c" for c :: "nat \<Rightarrow> 'b"
proof
  show "sb_inv c (fst (sb_step c oper s))" if "sb_inv c s" "sb_legal oper" for s :: "'b send_buf" and oper
    using sb_step_ok[OF that] ..
  show "sb_emits c s (snd (sb_step c oper s)) (fst (sb_step c oper s))"
    if "sb_inv c s" "sb_legal oper" for s :: "'b send_buf" and oper
    using sb_step_ok[OF that] ..
  show "sb_emits c s [] s" for s :: "'b send_buf" by (simp add: sb_emits_def)
  show "sb_emits c s (out @ out') s''" if "sb_emits c s out s'" "sb_emits c s' out' s''"
    for s s' s'' :: "'b send_buf" and out out'
    using that by (rule sb_emits_trans)
qed

section \<open>Properties\<close>

text \<open>
  C6: Every frame is exact and within limits. Start with a fresh send buffer and perform any
  sequence of writes, reads, acknowledgements, losses, limit updates, stops and shutdowns.
  Every frame that was read carries at its offset exactly the bytes the application wrote
  there, retransmissions included; it ends within the sent part of the stream, which never
  exceeds the peer's limit; and if a frame carried the fin flag, its end is the final size of
  the stream for ever after.
\<close>

theorem send_frames_exact:
  fixes c :: "nat \<Rightarrow> 'b"
  assumes "m \<le> VINT_MAX" "\<forall>oper \<in> set ops. sb_legal oper"
  defines "res \<equiv> run_ops (sb_step c) (sb_new m) ops"
  shows "(\<forall>(off, bytes, fin) \<in> set (snd res).
      bytes = map c [off..<off + length bytes] \<and> off + length bytes \<le> sb_unsent_off (fst res) \<and>
      (fin \<longrightarrow> sb_fin_off (fst res) = Some (off + length bytes))) \<and>
    sb_unsent_off (fst res) \<le> sb_write_off (fst res) \<and> sb_write_off (fst res) \<le> sb_max_data (fst res)"
proof -
  have r: "sb_inv c (fst res)" "sb_emits c (sb_new m) (snd res) (fst res)"
    unfolding res_def using sb.run_ok[OF sb_inv_new[OF assms(1)] assms(2)] by blast+
  have "\<forall>(off, bytes, fin) \<in> set (snd res).
      bytes = map c [off..<off + length bytes] \<and> off + length bytes \<le> sb_unsent_off (fst res) \<and>
      (fin \<longrightarrow> sb_fin_off (fst res) = Some (off + length bytes))"
    using r(2) by (fastforce simp: sb_emits_def tx_frame_ok_def)
  then show ?thesis using r(1) by (simp add: sb_inv_def)
qed

text \<open>Evaluation on concrete inputs.\<close>

lemmas sb_eval = sb_new_def sb_write_def sb_capacity_def sb_read_def sb_read_loop.simps copy_range.simps
  sb_read_range_def sb_poll_transmit_def sb_send_off_def sb_ready_def sb_ack_off_def sb_retransmit_def
  sb_ack_and_drop_def sb_ack_def write_chunks.simps SEND_BUFFER_SIZE_def rb_basic rb_advance_def
  rs_default_def rs_new_def rs_insert_def insert_from_def insert_absorb.simps rs_remove_def
  remove_following.simps rs_is_empty_def rs_pop_min_def rs_peek_min_def rs_min_def rs_iter_def
  range_is_empty_def prev_to_def next_to_def bm_first_def bm_last_def bm_upto_def bm_from_def bm_remove_def
  sat_add64_def add64_def sub64_def u64_max_def VINT_MAX_def usize_max_def upt_rec

theorem send_frames_exact_witness:
  "snd (run_ops (sb_step (\<lambda>i. i)) (sb_new 100)
      [SbWrite 4 True, SbRead 3, SbLost 0 2, SbRead 1, SbRead 5, SbRead 5]) =
    [(0, map (\<lambda>i. i) [0..<3], False), (0, [0], False), (1, [1], False), (3, [3], True)]"
  using send_frames_exact[of 100 "[SbWrite 4 True, SbRead 3, SbLost 0 2, SbRead 1, SbRead 5, SbRead 5]" "\<lambda>i. i"]
  by (simp add: sb_eval)

text \<open>
  C10: Reading terminates and is maximal. On a well-formed buffer with data to send the two
  nested loops of \<open>read\<close> terminate although \<open>read_range\<close> alone promises no
  progress. The frame starts at the lowest pending offset, holds the longest contiguous run of
  pending offsets that fits into \<open>cap\<close> bytes, exactly those offsets stop being
  pending, and the fin flag is set precisely when the frame ends at the final size.
\<close>

theorem send_read_total:
  assumes "sb_inv c s" "sb_ready s" "0 < cap"
  defines "a \<equiv> sb_send_off s"
  shows "\<exists>s' n. sb_read s cap = Some (s', map c [a..<a + n], n, sb_fin_off s = Some (a + n)) \<and>
    sb_inv c s' \<and> 0 < n \<and> n \<le> cap \<and> {a..<a + n} \<subseteq> sb_pending s \<and> (\<forall>x \<in> sb_pending s. a \<le> x) \<and>
    (n = cap \<or> a + n \<notin> sb_pending s) \<and> sb_pending s' = sb_pending s - {a..<a + n}"
proof -
  have live: "sb_live s" using assms(1,2) by (auto simp: sb_inv_def sb_ready_def sb_dead_def)
  obtain s' n where r: "sb_read s cap = Some (s', map c [a..<a + n], n, sb_fin_off s = Some (a + n))" "n \<le> cap"
    "sb_read_post c s a (a + n) s'" "sb_data s \<noteq> [] \<longrightarrow> n = cap \<or> a + n \<notin> sb_pending s"
    using sb_read_spec[OF assms(1) live, of cap] unfolding a_def by blast
  have d: "sb_data s \<noteq> []" "a \<in> sb_pending s"
    using assms(2) send_off_bounds(3)[OF assms(1) live] by (auto simp: sb_ready_def a_def)
  then have "0 < n" using r(4) assms(3) by (cases n) auto
  moreover have "\<forall>x \<in> sb_pending s. a \<le> x" using send_off_bounds(4)[OF assms(1) live] by (simp add: a_def)
  ultimately show ?thesis using r d(1) by (auto simp: sb_read_post_def)
qed

lemma sb_inv_demo: "sb_inv (\<lambda>i. i) (fst (run_ops (sb_step (\<lambda>i. i)) (sb_new 100) [SbWrite 4 True, SbRead 3, SbLost 0 2]))"
  using sb.run_inv[OF sb_inv_new[of 100 "\<lambda>i. i"], of "[SbWrite 4 True, SbRead 3, SbLost 0 2]"]
  by (simp add: u64_max_def VINT_MAX_def)

theorem send_read_total_witness:
  "\<exists>s'. sb_read (fst (run_ops (sb_step (\<lambda>i. i)) (sb_new 100) [SbWrite 4 True, SbRead 3, SbLost 0 2])) 10 =
      Some (s', [0, 1], 2, False) \<and> sb_pending s' = {3}"
proof -
  let ?s = "fst (run_ops (sb_step (\<lambda>i. i)) (sb_new 100) [SbWrite 4 True, SbRead 3, SbLost 0 2])"
  have e: "sb_ready ?s" "sb_send_off ?s = 0" "sb_fin_off ?s = Some 4" "rs_set (sb_retransmits ?s) = [(0, 2)]"
    "sb_unsent_off ?s = 3" "sb_write_off ?s = 4" by (simp_all add: sb_eval)
  then have p: "sb_pending ?s = {0, 1, 3}"
    unfolding sb_pending_def rs_alpha_def rs_elems_def by auto
  obtain s' n where r: "sb_read ?s 10 = Some (s', map (\<lambda>i. i) [0..<0 + n], n, sb_fin_off ?s = Some (0 + n))"
    "0 < n" "{0..<0 + n} \<subseteq> sb_pending ?s" "n = 10 \<or> 0 + n \<notin> sb_pending ?s"
    "sb_pending s' = sb_pending ?s - {0..<0 + n}"
    using send_read_total[OF sb_inv_demo e(1), of 10] unfolding e(2) by auto
  have "n \<noteq> 10" using r(3) p by (auto dest: subsetD[where c = 5])
  moreover have "n \<le> 2" using r(3) p by (cases "n \<le> 2") (auto dest: subsetD[where c = 2])
  ultimately have "n = 2" using r(2,4) p by (cases "n = 1") auto
  then show ?thesis using r(1,5) e(3) p by (auto simp: upt_rec)
qed

text \<open>
  C21: Nothing unacknowledged is forgotten. In every reachable state each offset that was
  written and is not acknowledged is still held by a block of the queue, with the byte the
  application wrote there (or the stream was reset). Acknowledged offsets are never queued for
  retransmission while data is buffered.
\<close>

theorem send_keeps_unacked:
  fixes c :: "nat \<Rightarrow> 'b"
  assumes "m \<le> VINT_MAX" "\<forall>oper \<in> set ops. sb_legal oper"
  defines "s \<equiv> fst (run_ops (sb_step c) (sb_new m) ops)"
  shows "(x < sb_write_off s \<and> x \<notin> sb_A s \<longrightarrow>
      (\<exists>b \<in> set (sb_data s). rb_off b \<le> x \<and> x < rb_max_off b \<and> rb_data b ! (x - rb_off b) = c x)) \<and>
    (sb_data s \<noteq> [] \<longrightarrow> sb_A s \<inter> sb_R s = {})"
proof -
  have inv: "sb_inv c s" unfolding s_def by (rule sb.run_inv[OF sb_inv_new[OF assms(1)] assms(2)])
  have "\<exists>b \<in> set (sb_data s). rb_off b \<le> x \<and> x < rb_max_off b \<and> rb_data b ! (x - rb_off b) = c x"
    if x: "x < sb_write_off s" "x \<notin> sb_A s"
  proof -
    have "sb_ack_off s \<le> x"
      using ack_off_gap[of s] inv x(2) by (auto simp: sb_inv_def first_gap_def not_less[symmetric])
    then obtain b where b: "b \<in> set (sb_data s)" "rb_off b \<le> x" "x < rb_max_off b"
      using seg_chain_mem[of "sb_ack_off s" "sb_data s" "sb_write_off s" x] inv x(1) by (auto simp: sb_inv_def)
    then have "rb_data b ! (x - rb_off b) = c x"
      using inv by (auto simp: sb_inv_def rb_agrees_nth rb_max_off_def)
    then show ?thesis using b by blast
  qed
  then show ?thesis using inv by (auto simp: sb_inv_def sb_live_def sb_dead_def)
qed

theorem send_keeps_unacked_witness:
  "\<exists>b \<in> set (sb_data (fst (run_ops (sb_step (\<lambda>i. i)) (sb_new 100) [SbWrite 4 True, SbRead 4, SbAck 0 2]))).
     rb_off b \<le> 3 \<and> 3 < rb_max_off b \<and> rb_data b ! (3 - rb_off b) = 3"
  using send_keeps_unacked[of 100 "[SbWrite 4 True, SbRead 4, SbAck 0 2]" 3 "\<lambda>i. i"]
  by (simp add: sb_eval rs_alpha_def rs_elems_def)

text \<open>
  C22: A loss is repaired. Declaring a sent range lost queues exactly its unacknowledged
  offsets (those already acknowledged are left out, those queued before stay queued), keeps
  the buffer well formed, changes neither the written data nor the acknowledged set, and
  never panics.
\<close>

theorem send_loss_requeued:
  assumes "sb_inv c s" "off + len \<le> sb_unsent_off s"
  shows "\<exists>s'. sb_retransmit s off len = (s', Ok ()) \<and> sb_inv c s' \<and>
    sb_R s' = sb_R s \<union> ({off..<off + len} - sb_A s) \<and> sb_acked s' = sb_acked s \<and> sb_data s' = sb_data s"
  using sb_retransmit_spec[OF assms] by (auto simp: sb_frame_def)

theorem send_loss_requeued_witness:
  "\<exists>s'. sb_retransmit (fst (run_ops (sb_step (\<lambda>i. i)) (sb_new 100) [SbWrite 4 True, SbRead 3, SbLost 0 2])) 1 2 = (s', Ok ()) \<and>
    sb_R s' = {0, 1, 2}"
proof -
  let ?s = "fst (run_ops (sb_step (\<lambda>i. i)) (sb_new 100) [SbWrite 4 True, SbRead 3, SbLost 0 2])"
  have "rs_set (sb_retransmits ?s) = [(0, 2)]" "rs_set (sb_acked ?s) = []" "1 + 2 \<le> sb_unsent_off ?s"
    by (simp_all add: sb_eval)
  moreover from this have "sb_R ?s = {0, 1}" "sb_A ?s = {}" unfolding rs_alpha_def rs_elems_def by auto
  ultimately show ?thesis using send_loss_requeued[OF sb_inv_demo, of 1 2] by auto
qed

text \<open>
  C23: Completion means fully acknowledged. In every reachable state the send side is complete
  exactly when the final size is known and every offset below it is acknowledged. Stopping or
  shutting down a stream that is still open completes it at once: the final size is the
  number of bytes sent, the unsent rest is reported to the caller.
\<close>

theorem send_complete_iff:
  assumes "sb_inv c s"
  shows "(sb_is_complete s \<longleftrightarrow> (\<exists>f. sb_fin_off s = Some f \<and> {..<f} \<subseteq> sb_A s)) \<and>
    (sb_error s = None \<longrightarrow> (\<exists>s'. sb_stop s e = (s', Ok (sb_unsent_off s, sb_write_off s - sb_unsent_off s)) \<and>
      sb_is_complete s' \<and> sb_fin_off s' = Some (sb_unsent_off s))) \<and>
    (\<not> sb_shutdown_flag s \<longrightarrow> (\<exists>s'. sb_shutdown s = (s', Ok (sb_unsent_off s, sb_write_off s - sb_unsent_off s)) \<and>
      sb_is_complete s' \<and> sb_fin_off s' = Some (sb_unsent_off s)))"
proof -
  have "sb_is_complete s \<longleftrightarrow> (\<exists>f. sb_fin_off s = Some f \<and> {..<f} \<subseteq> sb_A s)"
  proof (cases "sb_fin_off s")
    case None
    then show ?thesis by (simp add: sb_is_complete_def)
  next
    case (Some f)
    then have f: "f \<le> u64_max" "rs_ok (rs_set (sb_acked s))" "sb_A s \<subseteq> {..<f}"
      using assms by (auto simp: sb_inv_def rs_uinv_def)
    have "rs_eq_range (sb_acked s) (0, f) \<longleftrightarrow> sb_A s = {..<f}" if "0 < f"
      using rs_eq_range_iff[OF f(2), of "(0, f)"] that f(1) by (simp add: rs_alpha_def lessThan_atLeast0)
    then have "rs_eq_range (sb_acked s) (0, f) \<longleftrightarrow> {..<f} \<subseteq> sb_A s" if "0 < f" using that f(3) by blast
    then show ?thesis using Some by (auto simp: sb_is_complete_def)
  qed
  then show ?thesis using sb_stop_spec[OF assms, of e] sb_shutdown_spec[OF assms]
    by (auto simp: sb_dead_def)
qed

theorem send_complete_iff_witness:
  "\<exists>s'. sb_stop (fst (run_ops (sb_step (\<lambda>i. i)) (sb_new 100) [SbWrite 4 True, SbRead 3, SbLost 0 2])) 7 = (s', Ok (3, 1)) \<and>
    sb_is_complete s'"
proof -
  let ?s = "fst (run_ops (sb_step (\<lambda>i. i)) (sb_new 100) [SbWrite 4 True, SbRead 3, SbLost 0 2])"
  have "sb_error ?s = None" "sb_unsent_off ?s = 3" "sb_write_off ?s = 4" by (simp_all add: sb_eval)
  then show ?thesis using send_complete_iff[OF sb_inv_demo, of 7] by auto
qed

end
