(* ===== verification/Concurrency.thy ===== *)
theory Concurrency
  imports Range_Set
begin

text \<open>
  Stream identifiers and limits: \<open>is_local\<close> and \<open>is_bidi\<close> of
  \<open>src/src/connection/stream/stream_state.rs\<close>, and \<open>ConcurrencyControl\<close>,
  \<open>SendCapacity\<close> and \<open>StreamPriorityQueue\<close> of
  \<open>src/src/connection/stream/concurrency.rs\<close>.
\<close>

section \<open>Stream identifiers\<close>

text \<open>Bit 0 of an identifier is the initiator, bit 1 the direction.\<close>

definition is_local :: "nat \<Rightarrow> bool \<Rightarrow> bool" where
  "is_local stream_id is_server \<longleftrightarrow> stream_id mod 2 = (if is_server then 1 else 0)"

definition is_bidi :: "nat \<Rightarrow> bool" where
  "is_bidi stream_id \<longleftrightarrow> (stream_id div 2) mod 2 = 0"

lemma stream_id_unique:
  assumes "i div 4 = j div 4" "is_local i srv = is_local j srv" "is_bidi i = is_bidi j"
  shows "i = j"
proof -
  have "i mod 2 = j mod 2" using assms(2) by (auto simp: is_local_def split: if_splits)
  moreover have "(i div 2) mod 2 = (j div 2) mod 2" using assms(3) by (auto simp: is_bidi_def)
  ultimately have "i mod 4 = j mod 4" by (simp add: mod_mult2_eq[of _ 2 2, simplified])
  then show ?thesis using assms(1) by (metis div_mult_mod_eq)
qed

section \<open>Concurrency control\<close>

record concurrency_control =
  cc_peer_max_streams_bidi :: nat
  cc_peer_max_streams_uni :: nat
  cc_peer_opened_streams_bidi :: nat
  cc_peer_opened_streams_uni :: nat
  cc_local_max_streams_bidi :: nat
  cc_local_max_streams_bidi_next :: nat
  cc_local_max_streams_uni :: nat
  cc_local_max_streams_uni_next :: nat
  cc_local_opened_streams_bidi :: nat
  cc_local_opened_streams_uni :: nat
  cc_streams_blocked_at_bidi :: "nat option"
  cc_streams_blocked_at_uni :: "nat option"
  cc_peer_bidi_avail_ids :: range_set
  cc_peer_uni_avail_ids :: range_set
  cc_local_bidi_avail_ids :: range_set
  cc_local_uni_avail_ids :: range_set

definition cc_new :: "nat \<Rightarrow> nat \<Rightarrow> concurrency_control" where
  "cc_new local_max_streams_bidi local_max_streams_uni =
     \<lparr>cc_peer_max_streams_bidi = 0, cc_peer_max_streams_uni = 0,
      cc_peer_opened_streams_bidi = 0, cc_peer_opened_streams_uni = 0,
      cc_local_max_streams_bidi = local_max_streams_bidi,
      cc_local_max_streams_bidi_next = local_max_streams_bidi,
      cc_local_max_streams_uni = local_max_streams_uni,
      cc_local_max_streams_uni_next = local_max_streams_uni,
      cc_local_opened_streams_bidi = 0, cc_local_opened_streams_uni = 0,
      cc_streams_blocked_at_bidi = None, cc_streams_blocked_at_uni = None,
      cc_peer_bidi_avail_ids = rs_insert rs_default (0, local_max_streams_bidi),
      cc_peer_uni_avail_ids = rs_insert rs_default (0, local_max_streams_uni),
      cc_local_bidi_avail_ids = rs_default, cc_local_uni_avail_ids = rs_default\<rparr>"

definition cc_insert_avail_id :: "concurrency_control \<Rightarrow> range \<Rightarrow> bool \<Rightarrow> bool \<Rightarrow> concurrency_control" where
  "cc_insert_avail_id cc ids loc bidi =
     (if loc then
        if bidi then cc\<lparr>cc_local_bidi_avail_ids := rs_insert (cc_local_bidi_avail_ids cc) ids\<rparr>
        else cc\<lparr>cc_local_uni_avail_ids := rs_insert (cc_local_uni_avail_ids cc) ids\<rparr>
      else
        if bidi then cc\<lparr>cc_peer_bidi_avail_ids := rs_insert (cc_peer_bidi_avail_ids cc) ids\<rparr>
        else cc\<lparr>cc_peer_uni_avail_ids := rs_insert (cc_peer_uni_avail_ids cc) ids\<rparr>)"

text \<open>\<open>Some(v) > blocked\<close> in the order of \<open>Option\<close>: \<open>None\<close> is the least value.\<close>

definition exceeds_blocked :: "nat \<Rightarrow> nat option \<Rightarrow> bool" where
  "exceeds_blocked v b = (case b of None \<Rightarrow> True | Some x \<Rightarrow> v > x)"

definition cc_update_peer_max_streams :: "concurrency_control \<Rightarrow> bool \<Rightarrow> nat \<Rightarrow> concurrency_control" where
  "cc_update_peer_max_streams cc bidi max_streams =
     (if bidi then
        let cc1 = (if cc_peer_max_streams_bidi cc < max_streams then
              (cc_insert_avail_id cc (cc_peer_max_streams_bidi cc, max_streams) True True)
                \<lparr>cc_peer_max_streams_bidi := max_streams\<rparr>
            else cc)
        in if exceeds_blocked (cc_peer_max_streams_bidi cc1) (cc_streams_blocked_at_bidi cc1)
           then cc1\<lparr>cc_streams_blocked_at_bidi := None\<rparr> else cc1
      else
        let cc1 = (if cc_peer_max_streams_uni cc < max_streams then
              (cc_insert_avail_id cc (cc_peer_max_streams_uni cc, max_streams) True False)
                \<lparr>cc_peer_max_streams_uni := max_streams\<rparr>
            else cc)
        in if exceeds_blocked (cc_peer_max_streams_uni cc1) (cc_streams_blocked_at_uni cc1)
           then cc1\<lparr>cc_streams_blocked_at_uni := None\<rparr> else cc1)"

definition cc_update_local_max_streams :: "concurrency_control \<Rightarrow> bool \<Rightarrow> concurrency_control" where
  "cc_update_local_max_streams cc bidi =
     (if bidi then
        (cc_insert_avail_id cc (cc_local_max_streams_bidi cc, cc_local_max_streams_bidi_next cc) False True)
          \<lparr>cc_local_max_streams_bidi := cc_local_max_streams_bidi_next cc\<rparr>
      else
        (cc_insert_avail_id cc (cc_local_max_streams_uni cc, cc_local_max_streams_uni_next cc) False False)
          \<lparr>cc_local_max_streams_uni := cc_local_max_streams_uni_next cc\<rparr>)"

definition cc_peer_max_streams :: "concurrency_control \<Rightarrow> bool \<Rightarrow> nat" where
  "cc_peer_max_streams cc bidi =
     (if bidi then cc_peer_max_streams_bidi cc else cc_peer_max_streams_uni cc)"

definition cc_peer_streams_left :: "concurrency_control \<Rightarrow> bool \<Rightarrow> nat qres" where
  "cc_peer_streams_left cc bidi =
     (if bidi then sub64 (cc_peer_max_streams_bidi cc) (cc_local_opened_streams_bidi cc)
      else sub64 (cc_peer_max_streams_uni cc) (cc_local_opened_streams_uni cc))"

definition cc_should_update_local_max_streams :: "concurrency_control \<Rightarrow> bool \<Rightarrow> bool qres" where
  "cc_should_update_local_max_streams cc bidi =
     (if bidi then
        if cc_local_max_streams_bidi_next cc \<noteq> cc_local_max_streams_bidi cc then
          rbind (sub64 (cc_local_max_streams_bidi_next cc) (cc_local_max_streams_bidi cc)) (\<lambda>a.
          rbind (sub64 (cc_local_max_streams_bidi cc) (cc_peer_opened_streams_bidi cc)) (\<lambda>b. Ok (a > b)))
        else Ok False
      else
        if cc_local_max_streams_uni_next cc \<noteq> cc_local_max_streams_uni cc then
          rbind (sub64 (cc_local_max_streams_uni_next cc) (cc_local_max_streams_uni cc)) (\<lambda>a.
          rbind (sub64 (cc_local_max_streams_uni cc) (cc_peer_opened_streams_uni cc)) (\<lambda>b. Ok (a > b)))
        else Ok False)"

definition cc_increase_max_streams_credits :: "concurrency_control \<Rightarrow> bool \<Rightarrow> nat \<Rightarrow> concurrency_control" where
  "cc_increase_max_streams_credits cc bidi delta =
     (if bidi then
        cc\<lparr>cc_local_max_streams_bidi_next := sat_add64 (cc_local_max_streams_bidi_next cc) delta\<rparr>
      else cc\<lparr>cc_local_max_streams_uni_next := sat_add64 (cc_local_max_streams_uni_next cc) delta\<rparr>)"

definition cc_update_streams_blocked_at :: "concurrency_control \<Rightarrow> bool \<Rightarrow> nat option \<Rightarrow> concurrency_control" where
  "cc_update_streams_blocked_at cc bidi blocked_at =
     (if bidi then cc\<lparr>cc_streams_blocked_at_bidi := blocked_at\<rparr>
      else cc\<lparr>cc_streams_blocked_at_uni := blocked_at\<rparr>)"

definition cc_check_concurrency_limits ::
    "concurrency_control \<Rightarrow> nat \<Rightarrow> bool \<Rightarrow> concurrency_control \<times> unit qres" where
  "cc_check_concurrency_limits cc sid is_server =
     (let stream_sequence = sid div 4 + 1 in
      if is_local sid is_server then
        if is_bidi sid then
          let n = max (cc_local_opened_streams_bidi cc) stream_sequence in
          if n > cc_peer_max_streams_bidi cc then
            (cc_update_streams_blocked_at cc True (Some (cc_peer_max_streams_bidi cc)), Err StreamLimitError)
          else (cc\<lparr>cc_local_opened_streams_bidi := max (cc_local_opened_streams_bidi cc) n\<rparr>, Ok ())
        else
          let n = max (cc_local_opened_streams_uni cc) stream_sequence in
          if n > cc_peer_max_streams_uni cc then
            (cc_update_streams_blocked_at cc False (Some (cc_peer_max_streams_uni cc)), Err StreamLimitError)
          else (cc\<lparr>cc_local_opened_streams_uni := max (cc_local_opened_streams_uni cc) n\<rparr>, Ok ())
      else
        if is_bidi sid then
          let n = max (cc_peer_opened_streams_bidi cc) stream_sequence in
          if n > cc_local_max_streams_bidi cc then (cc, Err StreamLimitError)
          else (cc\<lparr>cc_peer_opened_streams_bidi := max (cc_peer_opened_streams_bidi cc) n\<rparr>, Ok ())
        else
          let n = max (cc_peer_opened_streams_uni cc) stream_sequence in
          if n > cc_local_max_streams_uni cc then (cc, Err StreamLimitError)
          else (cc\<lparr>cc_peer_opened_streams_uni := max (cc_peer_opened_streams_uni cc) n\<rparr>, Ok ()))"

definition cc_is_limited :: "concurrency_control \<Rightarrow> nat \<Rightarrow> bool \<Rightarrow> bool" where
  "cc_is_limited cc stream_id is_server =
     (let seq = stream_id div 4 + 1 in
      if is_local stream_id is_server then
        if is_bidi stream_id then seq > cc_peer_max_streams_bidi cc else seq > cc_peer_max_streams_uni cc
      else
        if is_bidi stream_id then seq > cc_local_max_streams_bidi cc else seq > cc_local_max_streams_uni cc)"

definition cc_is_available :: "concurrency_control \<Rightarrow> nat \<Rightarrow> bool \<Rightarrow> bool" where
  "cc_is_available cc stream_id is_server =
     (let sid = stream_id div 4 in
      if is_local stream_id is_server then
        if is_bidi stream_id then rs_contains (cc_local_bidi_avail_ids cc) sid
        else rs_contains (cc_local_uni_avail_ids cc) sid
      else
        if is_bidi stream_id then rs_contains (cc_peer_bidi_avail_ids cc) sid
        else rs_contains (cc_peer_uni_avail_ids cc) sid)"

text \<open>\<open>remove_elem\<close> computes \<open>id + 1\<close>, which cannot overflow after the shift.\<close>

definition cc_remove_avail_id :: "concurrency_control \<Rightarrow> nat \<Rightarrow> bool \<Rightarrow> concurrency_control" where
  "cc_remove_avail_id cc stream_id is_server =
     (let sid = stream_id div 4 in
      if is_local stream_id is_server then
        if is_bidi stream_id then
          cc\<lparr>cc_local_bidi_avail_ids := rs_remove (cc_local_bidi_avail_ids cc) (sid, sid + 1)\<rparr>
        else cc\<lparr>cc_local_uni_avail_ids := rs_remove (cc_local_uni_avail_ids cc) (sid, sid + 1)\<rparr>
      else
        if is_bidi stream_id then
          cc\<lparr>cc_peer_bidi_avail_ids := rs_remove (cc_peer_bidi_avail_ids cc) (sid, sid + 1)\<rparr>
        else cc\<lparr>cc_peer_uni_avail_ids := rs_remove (cc_peer_uni_avail_ids cc) (sid, sid + 1)\<rparr>)"

section \<open>Connection-level send capacity\<close>

record send_capacity =
  sc_max_data :: nat
  sc_tx_data :: nat
  sc_capacity :: nat
  sc_blocked_at :: "nat option"

definition sc_default :: send_capacity where
  "sc_default = \<lparr>sc_max_data = 0, sc_tx_data = 0, sc_capacity = 0, sc_blocked_at = None\<rparr>"

definition sc_update_max_data :: "send_capacity \<Rightarrow> nat \<Rightarrow> send_capacity" where
  "sc_update_max_data sc max_data = sc\<lparr>sc_max_data := max (sc_max_data sc) max_data\<rparr>"

definition sc_update_capacity :: "send_capacity \<Rightarrow> send_capacity qres" where
  "sc_update_capacity sc =
     rbind (sub64 (sc_max_data sc) (sc_tx_data sc)) (\<lambda>cap. Ok (sc\<lparr>sc_capacity := cap\<rparr>))"

definition sc_update_blocked_at :: "send_capacity \<Rightarrow> nat option \<Rightarrow> send_capacity" where
  "sc_update_blocked_at sc blocked_at = sc\<lparr>sc_blocked_at := blocked_at\<rparr>"

section \<open>Stream priority queue\<close>

text \<open>
  \<open>BinaryHeap<Reverse<u64>>\<close> hands out the least element; it is kept as an ascending
  list.
\<close>

record stream_priority_queue =
  pq_non_incremental :: "nat list"
  pq_incremental :: "nat list"

definition pq_default :: stream_priority_queue where
  "pq_default = \<lparr>pq_non_incremental = [], pq_incremental = []\<rparr>"

section \<open>Limits and created streams\<close>

text \<open>The four kinds of stream, by initiator and direction.\<close>

definition cc_limit :: "concurrency_control \<Rightarrow> bool \<Rightarrow> bool \<Rightarrow> nat" where
  "cc_limit cc loc bidi =
     (if loc then if bidi then cc_peer_max_streams_bidi cc else cc_peer_max_streams_uni cc
      else if bidi then cc_local_max_streams_bidi cc else cc_local_max_streams_uni cc)"

definition cc_opened :: "concurrency_control \<Rightarrow> bool \<Rightarrow> bool \<Rightarrow> nat" where
  "cc_opened cc loc bidi =
     (if loc then if bidi then cc_local_opened_streams_bidi cc else cc_local_opened_streams_uni cc
      else if bidi then cc_peer_opened_streams_bidi cc else cc_peer_opened_streams_uni cc)"

definition cc_avail :: "concurrency_control \<Rightarrow> bool \<Rightarrow> bool \<Rightarrow> range_set" where
  "cc_avail cc loc bidi =
     (if loc then if bidi then cc_local_bidi_avail_ids cc else cc_local_uni_avail_ids cc
      else if bidi then cc_peer_bidi_avail_ids cc else cc_peer_uni_avail_ids cc)"

text \<open>Sequence numbers that were permitted and are no longer available: streams created so far.\<close>

definition cc_created :: "concurrency_control \<Rightarrow> bool \<Rightarrow> bool \<Rightarrow> nat set" where
  "cc_created cc loc bidi = {..<cc_limit cc loc bidi} - rs_alpha (cc_avail cc loc bidi)"

definition cc_inv :: "concurrency_control \<Rightarrow> bool" where
  "cc_inv cc \<longleftrightarrow>
     (\<forall>loc bidi. cc_opened cc loc bidi \<le> cc_limit cc loc bidi \<and> cc_limit cc loc bidi \<le> u64_max \<and>
        rs_uinv (cc_avail cc loc bidi) \<and> rs_alpha (cc_avail cc loc bidi) \<subseteq> {..<cc_limit cc loc bidi} \<and>
        {cc_opened cc loc bidi..<cc_limit cc loc bidi} \<subseteq> rs_alpha (cc_avail cc loc bidi)) \<and>
     cc_local_max_streams_bidi cc \<le> cc_local_max_streams_bidi_next cc \<and>
     cc_local_max_streams_uni cc \<le> cc_local_max_streams_uni_next cc \<and>
     cc_local_max_streams_bidi_next cc \<le> u64_max \<and> cc_local_max_streams_uni_next cc \<le> u64_max"

lemma cc_is_limited_iff:
  "cc_is_limited cc sid srv \<longleftrightarrow> sid div 4 \<ge> cc_limit cc (is_local sid srv) (is_bidi sid)"
  by (auto simp: cc_is_limited_def cc_limit_def)

lemma cc_is_available_eq:
  "cc_is_available cc sid srv = rs_contains (cc_avail cc (is_local sid srv) (is_bidi sid)) (sid div 4)"
  by (simp add: cc_is_available_def cc_avail_def Let_def)

lemma cc_is_available_iff:
  "cc_inv cc \<Longrightarrow> cc_is_available cc sid srv \<longleftrightarrow>
    sid div 4 \<in> rs_alpha (cc_avail cc (is_local sid srv) (is_bidi sid))"
  unfolding cc_is_available_eq by (rule rs.has_iff) (simp add: cc_inv_def)

text \<open>Neither available nor beyond the limit: the stream exists or was closed.\<close>

lemma cc_created_iff:
  "cc_inv cc \<Longrightarrow> sid div 4 \<in> cc_created cc (is_local sid srv) (is_bidi sid) \<longleftrightarrow>
    \<not> cc_is_available cc sid srv \<and> \<not> cc_is_limited cc sid srv"
  by (auto simp: cc_is_available_iff cc_is_limited_iff cc_created_def)

subsection \<open>Raising a limit\<close>

text \<open>The effect of one operation on the kind \<open>(loc, bidi)\<close>; the other kinds keep theirs.\<close>

definition cc_same :: "concurrency_control \<Rightarrow> concurrency_control \<Rightarrow> bool \<Rightarrow> bool \<Rightarrow> bool" where
  "cc_same cc cc' loc bidi \<longleftrightarrow> cc_limit cc' loc bidi = cc_limit cc loc bidi \<and>
     cc_opened cc' loc bidi = cc_opened cc loc bidi \<and> cc_avail cc' loc bidi = cc_avail cc loc bidi"

lemma avail_extend:
  assumes "rs_uinv A" "rs_alpha A \<subseteq> {..<l}" "{k..<l} \<subseteq> rs_alpha A" "k \<le> l" "l \<le> l'" "l' \<le> u64_max"
  shows "rs_uinv (rs_insert A (l, l'))" "rs_alpha (rs_insert A (l, l')) \<subseteq> {..<l'}"
    "{k..<l'} \<subseteq> rs_alpha (rs_insert A (l, l'))" "{..<l'} - rs_alpha (rs_insert A (l, l')) = {..<l} - rs_alpha A"
  using assms by (auto simp: rs_specs seg_def)

definition cc_raised :: "concurrency_control \<Rightarrow> concurrency_control \<Rightarrow> bool \<Rightarrow> bool \<Rightarrow> nat \<Rightarrow> bool" where
  "cc_raised cc cc' loc bidi l \<longleftrightarrow> cc_limit cc' loc bidi = l \<and> cc_opened cc' loc bidi = cc_opened cc loc bidi \<and>
     cc_avail cc' loc bidi = rs_insert (cc_avail cc loc bidi) (cc_limit cc loc bidi, l) \<and>
     (\<forall>loc' bidi'. (loc', bidi') \<noteq> (loc, bidi) \<longrightarrow> cc_same cc cc' loc' bidi')"

definition cc_next_ok :: "concurrency_control \<Rightarrow> bool" where
  "cc_next_ok cc \<longleftrightarrow> cc_local_max_streams_bidi cc \<le> cc_local_max_streams_bidi_next cc \<and>
     cc_local_max_streams_uni cc \<le> cc_local_max_streams_uni_next cc \<and>
     cc_local_max_streams_bidi_next cc \<le> u64_max \<and> cc_local_max_streams_uni_next cc \<le> u64_max"

lemma cc_raised_inv:
  assumes inv: "cc_inv cc" and r: "cc_raised cc cc' loc bidi l" and l: "cc_limit cc loc bidi \<le> l" "l \<le> u64_max"
    and n: "cc_next_ok cc'"
  shows "cc_inv cc'" "cc_created cc' = cc_created cc"
proof -
  have k: "cc_opened cc loc bidi \<le> cc_limit cc loc bidi" "rs_uinv (cc_avail cc loc bidi)"
    "rs_alpha (cc_avail cc loc bidi) \<subseteq> {..<cc_limit cc loc bidi}"
    "{cc_opened cc loc bidi..<cc_limit cc loc bidi} \<subseteq> rs_alpha (cc_avail cc loc bidi)" for loc bidi
    using inv unfolding cc_inv_def by blast+
  note bnd = avail_extend[OF k(2) k(3) k(4) k(1) l]
  have same: "cc_same cc cc' loc' bidi'" if "(loc', bidi') \<noteq> (loc, bidi)" for loc' bidi'
    using r that by (auto simp: cc_raised_def)
  have here: "cc_limit cc' loc bidi = l" "cc_opened cc' loc bidi = cc_opened cc loc bidi"
    "cc_avail cc' loc bidi = rs_insert (cc_avail cc loc bidi) (cc_limit cc loc bidi, l)"
    using r by (auto simp: cc_raised_def)
  have kind: "cc_opened cc' loc' bidi' \<le> cc_limit cc' loc' bidi' \<and> cc_limit cc' loc' bidi' \<le> u64_max \<and>
      rs_uinv (cc_avail cc' loc' bidi') \<and> rs_alpha (cc_avail cc' loc' bidi') \<subseteq> {..<cc_limit cc' loc' bidi'} \<and>
      {cc_opened cc' loc' bidi'..<cc_limit cc' loc' bidi'} \<subseteq> rs_alpha (cc_avail cc' loc' bidi') \<and>
      cc_created cc' loc' bidi' = cc_created cc loc' bidi'" for loc' bidi'
  proof (cases "(loc', bidi') = (loc, bidi)")
    case True
    then show ?thesis using here bnd l order.trans[OF k(1) l(1)] by (simp add: cc_created_def)
  next
    case False
    then show ?thesis using same[OF False] inv unfolding cc_inv_def cc_same_def cc_created_def by simp
  qed
  then show "cc_inv cc'" using n unfolding cc_inv_def cc_next_ok_def by blast
  show "cc_created cc' = cc_created cc" using kind by (intro ext) blast
qed

lemmas cc_kind_defs = cc_limit_def cc_opened_def cc_avail_def

lemma cc_next_okI: "cc_inv cc \<Longrightarrow> cc_next_ok cc"
  by (simp add: cc_inv_def cc_next_ok_def)

lemma cc_update_peer_max_streams_spec:
  assumes inv: "cc_inv cc" and m: "m \<le> u64_max"
  shows "cc_inv (cc_update_peer_max_streams cc bidi m)"
    "cc_created (cc_update_peer_max_streams cc bidi m) = cc_created cc"
    "cc_limit (cc_update_peer_max_streams cc bidi m) True bidi = max (cc_limit cc True bidi) m"
proof -
  let ?cc' = "cc_update_peer_max_streams cc bidi m" and ?l = "max (cc_limit cc True bidi) m"
  have A: "rs_insert A (n, n) = A" for A n by (simp add: rs_insert_def range_is_empty_def)
  have "cc_raised cc ?cc' True bidi ?l"
    by (auto simp: cc_raised_def cc_same_def cc_kind_defs cc_update_peer_max_streams_def
        cc_insert_avail_id_def Let_def A max_def)
  moreover have "cc_next_ok ?cc'" using cc_next_okI[OF inv]
    by (simp add: cc_next_ok_def cc_update_peer_max_streams_def cc_insert_avail_id_def Let_def)
  moreover have "?l \<le> u64_max" using inv m by (simp add: cc_inv_def)
  ultimately show "cc_inv ?cc'" "cc_created ?cc' = cc_created cc" "cc_limit ?cc' True bidi = ?l"
    using cc_raised_inv[OF inv, of ?cc' True bidi ?l] by (simp_all add: cc_raised_def)
qed

lemma cc_update_local_max_streams_spec:
  assumes inv: "cc_inv cc"
  shows "cc_inv (cc_update_local_max_streams cc bidi)"
    "cc_created (cc_update_local_max_streams cc bidi) = cc_created cc"
proof -
  let ?cc' = "cc_update_local_max_streams cc bidi"
  let ?l = "if bidi then cc_local_max_streams_bidi_next cc else cc_local_max_streams_uni_next cc"
  note n = cc_next_okI[OF inv]
  have "cc_raised cc ?cc' False bidi ?l"
    by (auto simp: cc_raised_def cc_same_def cc_kind_defs cc_update_local_max_streams_def cc_insert_avail_id_def)
  moreover have "cc_next_ok ?cc'" using n
    by (simp add: cc_next_ok_def cc_update_local_max_streams_def cc_insert_avail_id_def)
  moreover have "cc_limit cc False bidi \<le> ?l" "?l \<le> u64_max" using n by (auto simp: cc_next_ok_def cc_limit_def)
  ultimately show "cc_inv ?cc'" "cc_created ?cc' = cc_created cc"
    using cc_raised_inv[OF inv, of ?cc' False bidi ?l] by simp_all
qed

lemma cc_same_inv:
  assumes "cc_inv cc" "\<And>loc bidi. cc_same cc cc' loc bidi" "cc_next_ok cc'"
  shows "cc_inv cc'" "cc_created cc' = cc_created cc"
  using assms unfolding cc_inv_def cc_same_def cc_created_def cc_next_ok_def fun_eq_iff by simp_all

lemma cc_increase_max_streams_credits_spec:
  assumes inv: "cc_inv cc"
  shows "cc_inv (cc_increase_max_streams_credits cc bidi d)"
    "cc_created (cc_increase_max_streams_credits cc bidi d) = cc_created cc"
proof -
  let ?cc' = "cc_increase_max_streams_credits cc bidi d"
  have "cc_same cc ?cc' loc b" for loc b
    by (auto simp: cc_same_def cc_kind_defs cc_increase_max_streams_credits_def)
  moreover have "cc_next_ok ?cc'"
    using cc_next_okI[OF inv] by (auto simp: cc_next_ok_def cc_increase_max_streams_credits_def sat_add64_def)
  ultimately show "cc_inv ?cc'" "cc_created ?cc' = cc_created cc"
    using cc_same_inv[OF inv] by blast+
qed

lemma cc_update_streams_blocked_at_spec:
  assumes inv: "cc_inv cc"
  shows "cc_inv (cc_update_streams_blocked_at cc bidi b)"
    "cc_created (cc_update_streams_blocked_at cc bidi b) = cc_created cc"
proof -
  let ?cc' = "cc_update_streams_blocked_at cc bidi b"
  have "cc_same cc ?cc' loc bd" for loc bd
    by (auto simp: cc_same_def cc_kind_defs cc_update_streams_blocked_at_def)
  moreover have "cc_next_ok ?cc'" using cc_next_okI[OF inv] by (simp add: cc_next_ok_def cc_update_streams_blocked_at_def)
  ultimately show "cc_inv ?cc'" "cc_created ?cc' = cc_created cc" using cc_same_inv[OF inv] by blast+
qed

subsection \<open>Opening a stream\<close>

lemma cc_check_iff:
  assumes inv: "cc_inv cc"
  shows "snd (cc_check_concurrency_limits cc sid srv) =
    (if cc_is_limited cc sid srv then Err StreamLimitError else Ok ())"
proof -
  have "cc_opened cc loc bidi \<le> cc_limit cc loc bidi" for loc bidi using inv by (simp add: cc_inv_def)
  from this[of True True] this[of True False] this[of False True] this[of False False] show ?thesis
    by (auto simp: cc_check_concurrency_limits_def cc_is_limited_def Let_def cc_kind_defs)
qed

lemma cc_check_err:
  assumes inv: "cc_inv cc" and err: "cc_check_concurrency_limits cc sid srv = (cc', Err e)"
  shows "cc_inv cc' \<and> cc_created cc' = cc_created cc"
proof -
  have "cc' = cc \<or> (\<exists>b v. cc' = cc_update_streams_blocked_at cc b v)"
    using err by (auto simp: cc_check_concurrency_limits_def Let_def split: if_splits)
  then show ?thesis using inv cc_update_streams_blocked_at_spec[OF inv] by auto
qed

lemma cc_open_spec:
  assumes inv: "cc_inv cc" and ok: "cc_check_concurrency_limits cc sid srv = (cc1, Ok ())"
  defines "cc' \<equiv> cc_remove_avail_id cc1 sid srv" and "loc \<equiv> is_local sid srv" and "bidi \<equiv> is_bidi sid"
  shows "cc_inv cc'" "cc_created cc' loc bidi = insert (sid div 4) (cc_created cc loc bidi)"
    "\<And>l b. (l, b) \<noteq> (loc, bidi) \<Longrightarrow> cc_created cc' l b = cc_created cc l b"
    "cc_limit cc' = cc_limit cc" "sid div 4 < cc_opened cc' loc bidi"
proof -
  let ?q = "sid div 4"
  have "snd (cc_check_concurrency_limits cc sid srv) = Ok ()" using ok by simp
  then have q: "?q < cc_limit cc loc bidi"
    unfolding cc_check_iff[OF inv] by (auto simp: cc_is_limited_iff loc_def bidi_def split: if_splits)
  have k: "cc_opened cc l b \<le> cc_limit cc l b" "cc_limit cc l b \<le> u64_max" "rs_uinv (cc_avail cc l b)"
    "rs_alpha (cc_avail cc l b) \<subseteq> {..<cc_limit cc l b}"
    "{cc_opened cc l b..<cc_limit cc l b} \<subseteq> rs_alpha (cc_avail cc l b)" for l b
    using inv unfolding cc_inv_def by blast+
  have eff: "cc_limit cc' l b = cc_limit cc l b"
    "cc_opened cc' l b = (if (l, b) = (loc, bidi) then max (cc_opened cc l b) (?q + 1) else cc_opened cc l b)"
    "cc_avail cc' l b = (if (l, b) = (loc, bidi) then rs_remove (cc_avail cc l b) (?q, ?q + 1) else cc_avail cc l b)"
    "cc_next_ok cc'" for l b
    using ok cc_next_okI[OF inv] unfolding cc'_def loc_def bidi_def
    by (auto simp: cc_check_concurrency_limits_def cc_remove_avail_id_def cc_kind_defs cc_next_ok_def Let_def
        split: if_splits)
  have u: "?q + 1 \<le> u64_max" using q k(2)[of loc bidi] by simp
  have av: "rs_uinv (rs_remove (cc_avail cc loc bidi) (?q, ?q + 1))"
    "rs_alpha (rs_remove (cc_avail cc loc bidi) (?q, ?q + 1)) = rs_alpha (cc_avail cc loc bidi) - {?q}"
    using k(3) u by (auto simp: rs_specs seg_def)
  have kind: "cc_opened cc' l b \<le> cc_limit cc' l b \<and> cc_limit cc' l b \<le> u64_max \<and>
      rs_uinv (cc_avail cc' l b) \<and> rs_alpha (cc_avail cc' l b) \<subseteq> {..<cc_limit cc' l b} \<and>
      {cc_opened cc' l b..<cc_limit cc' l b} \<subseteq> rs_alpha (cc_avail cc' l b)" for l b
  proof (cases "(l, b) = (loc, bidi)")
    case True
    then show ?thesis using eff(1-3)[of l b] av q k[of loc bidi] by auto
  next
    case False
    show ?thesis unfolding eff(1) eff(2)[of l b, unfolded if_not_P[OF False]]
        eff(3)[of l b, unfolded if_not_P[OF False]] using k[of l b] by blast
  qed
  then show "cc_inv cc'" using eff(4) unfolding cc_inv_def cc_next_ok_def by blast
  show "cc_created cc' loc bidi = insert ?q (cc_created cc loc bidi)"
    using eff(1,3)[of loc bidi] av(2) q by (auto simp: cc_created_def)
  show "cc_created cc' l b = cc_created cc l b" if "(l, b) \<noteq> (loc, bidi)" for l b
    unfolding cc_created_def eff(1) eff(3)[of l b, unfolded if_not_P[OF that]] ..
  show "cc_limit cc' = cc_limit cc" using eff(1) by blast
  show "?q < cc_opened cc' loc bidi" using eff(2)[of loc bidi] by simp
qed

lemma cc_inv_new:
  assumes "b \<le> u64_max" "u \<le> u64_max"
  shows "cc_inv (cc_new b u)" "cc_created (cc_new b u) loc bidi = {}"
proof -
  have av: "rs_uinv (rs_insert rs_default (0, n))" "rs_alpha (rs_insert rs_default (0, n)) = {..<n}"
    if "n \<le> u64_max" for n
    using that rs.invar_empty rs.elems_empty by (auto simp: rs_specs seg_def)
  show "cc_inv (cc_new b u)"
    using av assms rs.invar_empty rs.elems_empty
    by (auto simp: cc_inv_def cc_new_def cc_kind_defs)
  show "cc_created (cc_new b u) loc bidi = {}"
    using av assms rs.elems_empty by (simp add: cc_created_def cc_new_def cc_kind_defs)
qed

end
