(* ===== verification/Stream_State.thy ===== *)
theory Stream_State
  imports Recv_Buf Send_Buf Concurrency
begin

text \<open>
  One stream, \<open>Stream\<close> of \<open>src/src/connection/stream/stream_state.rs\<close>: the two buffers,
  the scheduling parameters and the flags. \<open>'b\<close> is the type of bytes, \<open>'c\<close> the type of the
  application context a stream may carry.
\<close>

datatype StreamFlags = WantRead | WantWrite | Closed

record ('b, 'c) stream =
  st_bidi :: bool
  st_local :: bool
  st_urgency :: nat
  st_incremental :: bool
  st_recv :: "'b recv_buf"
  st_send :: "'b send_buf"
  st_write_thresh :: nat
  st_flags :: "StreamFlags set"
  st_context :: "'c option"
  st_trace_id :: string

definition st_new :: "bool \<Rightarrow> bool \<Rightarrow> nat \<Rightarrow> nat \<Rightarrow> nat \<Rightarrow> ('b, 'c) stream" where
  "st_new bidi loc max_tx_data max_rx_data max_window =
     \<lparr>st_bidi = bidi, st_local = loc, st_urgency = 127, st_incremental = True,
      st_recv = rv_new max_rx_data max_window, st_send = sb_new max_tx_data, st_write_thresh = 1,
      st_flags = (if bidi then {WantRead, WantWrite} else if loc then {WantWrite} else {WantRead}),
      st_context = None, st_trace_id = []\<rparr>"

definition st_set_trace_id :: "('b, 'c) stream \<Rightarrow> string \<Rightarrow> ('b, 'c) stream" where
  "st_set_trace_id st trace_id =
     st\<lparr>st_trace_id := trace_id, st_send := (st_send st)\<lparr>sb_trace_id := trace_id\<rparr>,
        st_recv := (st_recv st)\<lparr>rv_trace_id := trace_id\<rparr>\<rparr>"

definition st_is_readable :: "('b, 'c) stream \<Rightarrow> bool" where
  "st_is_readable st = rv_ready (st_recv st)"

definition st_is_writable :: "('b, 'c) stream \<Rightarrow> bool qres" where
  "st_is_writable st =
     (if sb_is_fin (st_send st) \<or> sb_shutdown_flag (st_send st) then Ok False
      else rbind (add64 (sb_write_off (st_send st)) (st_write_thresh st)) (\<lambda>top.
             Ok (top \<le> sb_max_data (st_send st))))"

definition st_is_sendable :: "('b, 'c) stream \<Rightarrow> bool" where
  "st_is_sendable st = sb_ready (st_send st)"

definition st_is_complete :: "('b, 'c) stream \<Rightarrow> bool" where
  "st_is_complete st =
     (if st_bidi st then sb_is_complete (st_send st) \<and> rv_is_complete (st_recv st)
      else if st_local st then sb_is_complete (st_send st)
      else rv_is_complete (st_recv st))"

definition st_is_draining :: "('b, 'c) stream \<Rightarrow> bool" where
  "st_is_draining st = rv_is_shutdown (st_recv st)"

definition st_is_wantwrite :: "('b, 'c) stream \<Rightarrow> bool" where
  "st_is_wantwrite st \<longleftrightarrow> WantWrite \<in> st_flags st"

definition st_mark_wantwrite :: "('b, 'c) stream \<Rightarrow> bool \<Rightarrow> ('b, 'c) stream \<times> unit qres" where
  "st_mark_wantwrite st flag =
     (if \<not> st_bidi st \<and> \<not> st_local st then (st, Err InternalError)
      else (st\<lparr>st_flags := (if flag then insert WantWrite (st_flags st) else st_flags st - {WantWrite})\<rparr>,
            Ok ()))"

definition st_is_wantread :: "('b, 'c) stream \<Rightarrow> bool" where
  "st_is_wantread st \<longleftrightarrow> WantRead \<in> st_flags st"

definition st_mark_wantread :: "('b, 'c) stream \<Rightarrow> bool \<Rightarrow> ('b, 'c) stream \<times> unit qres" where
  "st_mark_wantread st flag =
     (if \<not> st_bidi st \<and> st_local st then (st, Err InternalError)
      else (st\<lparr>st_flags := (if flag then insert WantRead (st_flags st) else st_flags st - {WantRead})\<rparr>,
            Ok ()))"

definition st_is_closed :: "('b, 'c) stream \<Rightarrow> bool" where
  "st_is_closed st \<longleftrightarrow> Closed \<in> st_flags st"

definition st_mark_closed :: "('b, 'c) stream \<Rightarrow> ('b, 'c) stream" where
  "st_mark_closed st = st\<lparr>st_flags := insert Closed (st_flags st)\<rparr>"

section \<open>The parts of a new stream\<close>

lemma st_new_trace_parts:
  "st_bidi (st_set_trace_id (st_new b l tx rx w) tid) = b"
  "st_local (st_set_trace_id (st_new b l tx rx w) tid) = l"
  "st_write_thresh (st_set_trace_id (st_new b l tx rx w) tid) = 1"
  "\<not> st_is_closed (st_set_trace_id (st_new b l tx rx w) tid)"
  "st_recv (st_set_trace_id (st_new b l tx rx w) tid) = (rv_new rx w)\<lparr>rv_trace_id := tid\<rparr>"
  "st_send (st_set_trace_id (st_new b l tx rx w) tid) = (sb_new tx)\<lparr>sb_trace_id := tid\<rparr>"
  by (simp_all add: st_set_trace_id_def st_new_def st_is_closed_def)

lemma rv_trace_id_irrelevant:
  "rv_inv c (rv\<lparr>rv_trace_id := tid\<rparr>) = rv_inv c rv" "rv_ready (rv\<lparr>rv_trace_id := tid\<rparr>) = rv_ready rv"
  by (simp_all add: rv_inv_def rv_ready_def rv_max_data_def)

lemma sb_trace_id_irrelevant:
  "sb_inv c (s\<lparr>sb_trace_id := tid\<rparr>) = sb_inv c s" "sb_ready (s\<lparr>sb_trace_id := tid\<rparr>) = sb_ready s"
  "sb_inv c (s\<lparr>sb_blocked_at := b\<rparr>) = sb_inv c s" "sb_ready (s\<lparr>sb_blocked_at := b\<rparr>) = sb_ready s"
  by (simp_all add: sb_inv_def sb_ready_def sb_live_def sb_dead_def sb_ack_off_def sb_send_off_def cong: option.case_cong)

lemma st_mark_wantwrite_parts:
  "fst (st_mark_wantwrite st f) = st\<lparr>st_flags := st_flags (fst (st_mark_wantwrite st f))\<rparr>"
  "Closed \<in> st_flags (fst (st_mark_wantwrite st f)) \<longleftrightarrow> Closed \<in> st_flags st"
  by (auto simp: st_mark_wantwrite_def)

lemma st_mark_wantread_parts:
  "fst (st_mark_wantread st f) = st\<lparr>st_flags := st_flags (fst (st_mark_wantread st f))\<rparr>"
  "Closed \<in> st_flags (fst (st_mark_wantread st f)) \<longleftrightarrow> Closed \<in> st_flags st"
  by (auto simp: st_mark_wantread_def)

text \<open>A new stream is writable as soon as the peer's initial limit allows one byte.\<close>

lemma st_new_writable:
  "st_is_writable (st_set_trace_id (st_new b l tx rx w) tid) = Ok (1 \<le> tx)"
  by (simp add: st_is_writable_def st_new_trace_parts sb_is_fin_def sb_new_def add64_def u64_max_def)

end
