(* ===== verification/Event_Queue.thy ===== *)
theory Event_Queue
  imports Main
begin

text \<open>
  The events a connection sends to its endpoint and their queue, \<open>src/src/lib.rs\<close>.
  The queue is an optional deque: until it is enabled, events are discarded. Tokens are lists
  of numbers, connection ids and reset tokens likewise.
\<close>

datatype Event =
    ConnectionEstablished
  | NewToken "nat list"
  | ScidToAdvertise nat
  | ScidRetired "nat list"
  | DcidAdvertised "nat list"
  | DcidRetired "nat list"
  | ResetTokenAdvertised "nat list"
  | StreamCreated nat
  | StreamClosed nat
  | DatagramReceived

type_synonym event_queue = "Event list option"

definition eq_enable :: "event_queue \<Rightarrow> event_queue" where
  "eq_enable q = Some []"

definition eq_add :: "event_queue \<Rightarrow> Event \<Rightarrow> event_queue \<times> bool" where
  "eq_add q e = (case q of Some events \<Rightarrow> (Some (events @ [e]), True) | None \<Rightarrow> (None, False))"

definition eq_poll :: "event_queue \<Rightarrow> event_queue \<times> Event option" where
  "eq_poll q =
     (case q of
        Some events \<Rightarrow> (case events of [] \<Rightarrow> (Some [], None) | e # es \<Rightarrow> (Some es, Some e))
      | None \<Rightarrow> (None, None))"

definition eq_is_empty :: "event_queue \<Rightarrow> bool" where
  "eq_is_empty q = (case q of Some events \<Rightarrow> events = [] | None \<Rightarrow> True)"

text \<open>Events are delivered once each, in the order they were added.\<close>

fun eq_drain :: "nat \<Rightarrow> event_queue \<Rightarrow> Event list" where
  "eq_drain 0 q = []"
| "eq_drain (Suc n) q =
     (case eq_poll q of (q', None) \<Rightarrow> [] | (q', Some e) \<Rightarrow> e # eq_drain n q')"

lemma eq_drain_take: "eq_drain n (Some es) = take n es"
  by (induction n arbitrary: es) (auto simp: eq_poll_def split: list.split)

lemma eq_fifo: "eq_drain (length es) (fold (\<lambda>e q. fst (eq_add q e)) es (eq_enable q)) = es"
proof -
  have "fold (\<lambda>e q. fst (eq_add q e)) es (Some xs) = Some (xs @ es)" for xs
    by (induction es arbitrary: xs) (auto simp: eq_add_def)
  then show ?thesis by (simp add: eq_enable_def eq_drain_take)
qed

end
