(* ===== verification/Stream_Map.thy ===== *)
theory Stream_Map
  imports Stream_State Event_Queue Codec
begin

text \<open>
  The stream manager of a connection, \<open>StreamMap\<close> of \<open>src/src/connection/stream/mod.rs\<close>:
  the application's operations on streams, the handlers of stream frames received, acknowledged
  and lost, and the queues from which frames are built.

  Hash maps and the ordered map of priority queues are sorted association lists, hash sets are
  sets; where the code iterates over a hash set the order is unspecified, so its iterators are
  the sets themselves. A method returns the new state with its result, so the state left behind
  by an early return is visible. A mutable reference to a stream is the stream itself, put back
  with \<open>sm_put\<close>. Log output is left out.
\<close>

section \<open>State\<close>

record stream_transport_params =
  stp_initial_max_data :: nat
  stp_initial_max_stream_data_bidi_local :: nat
  stp_initial_max_stream_data_bidi_remote :: nat
  stp_initial_max_stream_data_uni :: nat
  stp_initial_max_streams_bidi :: nat
  stp_initial_max_streams_uni :: nat

definition stp_default :: stream_transport_params where
  "stp_default =
     \<lparr>stp_initial_max_data = 0, stp_initial_max_stream_data_bidi_local = 0,
      stp_initial_max_stream_data_bidi_remote = 0, stp_initial_max_stream_data_uni = 0,
      stp_initial_max_streams_bidi = 0, stp_initial_max_streams_uni = 0\<rparr>"

record ('b, 'c) stream_map =
  sm_is_server :: bool
  sm_streams :: "(nat, ('b, 'c) stream) bmap"
  sm_sendable :: "(nat, stream_priority_queue) bmap"
  sm_readable :: "nat set"
  sm_writable :: "nat set"
  sm_reset :: "(nat, nat \<times> nat) bmap"
  sm_stopped :: "(nat, nat) bmap"
  sm_almost_full :: "nat set"
  sm_data_blocked :: "(nat, nat) bmap"
  sm_concurrency_control :: concurrency_control
  sm_flow_control :: flow_control
  sm_send_capacity :: send_capacity
  sm_max_stream_window :: nat
  sm_rx_almost_full :: bool
  sm_next_stream_id_bidi :: nat
  sm_next_stream_id_uni :: nat
  sm_peer_transport_params :: stream_transport_params
  sm_local_transport_params :: stream_transport_params
  sm_events :: event_queue
  sm_trace_id :: string

definition MAX_STREAMS_PER_TYPE :: nat where
  "MAX_STREAMS_PER_TYPE = 1152921504606846976"

definition sm_new :: "bool \<Rightarrow> nat \<Rightarrow> nat \<Rightarrow> stream_transport_params \<Rightarrow> ('b, 'c) stream_map" where
  "sm_new is_server max_connection_window max_stream_window local_params =
     \<lparr>sm_is_server = is_server, sm_streams = [], sm_sendable = [], sm_readable = {}, sm_writable = {},
      sm_reset = [], sm_stopped = [], sm_almost_full = {}, sm_data_blocked = [],
      sm_concurrency_control =
        cc_new (stp_initial_max_streams_bidi local_params) (stp_initial_max_streams_uni local_params),
      sm_flow_control = fc_new (stp_initial_max_data local_params) max_connection_window,
      sm_send_capacity = sc_default, sm_max_stream_window = max_stream_window,
      sm_rx_almost_full = False,
      sm_next_stream_id_bidi = (if is_server then 1 else 0),
      sm_next_stream_id_uni = (if is_server then 3 else 2),
      sm_peer_transport_params = stp_default, sm_local_transport_params = local_params,
      sm_events = None, sm_trace_id = []\<rparr>"

definition sm_set_trace_id :: "('b, 'c) stream_map \<Rightarrow> string \<Rightarrow> ('b, 'c) stream_map" where
  "sm_set_trace_id sm trace_id = sm\<lparr>sm_trace_id := trace_id\<rparr>"

definition sm_get :: "('b, 'c) stream_map \<Rightarrow> nat \<Rightarrow> ('b, 'c) stream option" where
  "sm_get sm sid = bm_get (sm_streams sm) sid"

definition sm_put :: "('b, 'c) stream_map \<Rightarrow> nat \<Rightarrow> ('b, 'c) stream \<Rightarrow> ('b, 'c) stream_map" where
  "sm_put sm sid st = sm\<lparr>sm_streams := bm_insert sid st (sm_streams sm)\<rparr>"

section \<open>Queues and marks\<close>

definition sm_push_sendable :: "('b, 'c) stream_map \<Rightarrow> nat \<Rightarrow> nat \<Rightarrow> bool \<Rightarrow> ('b, 'c) stream_map" where
  "sm_push_sendable sm sid urgency incremental =
     (let queue = (case bm_get (sm_sendable sm) urgency of None \<Rightarrow> pq_default | Some q \<Rightarrow> q);
          queue' = (if \<not> incremental then
                      queue\<lparr>pq_non_incremental := insort sid (pq_non_incremental queue)\<rparr>
                    else queue\<lparr>pq_incremental := pq_incremental queue @ [sid]\<rparr>)
      in sm\<lparr>sm_sendable := bm_insert urgency queue' (sm_sendable sm)\<rparr>)"

definition sm_peek_sendable :: "('b, 'c) stream_map \<Rightarrow> ('b, 'c) stream_map \<times> nat option" where
  "sm_peek_sendable sm =
     (case sm_sendable sm of
        [] \<Rightarrow> (sm, None)
      | (u, queue) # rest \<Rightarrow>
          (case pq_non_incremental queue of
             sid # _ \<Rightarrow> (sm, Some sid)
           | [] \<Rightarrow>
               (case pq_incremental queue of
                  sid # sids \<Rightarrow>
                    (sm\<lparr>sm_sendable := (u, queue\<lparr>pq_incremental := sids @ [sid]\<rparr>) # rest\<rparr>, Some sid)
                | [] \<Rightarrow> (sm, None))))"

definition sm_remove_sendable :: "('b, 'c) stream_map \<Rightarrow> ('b, 'c) stream_map" where
  "sm_remove_sendable sm =
     (case sm_sendable sm of
        [] \<Rightarrow> sm
      | (u, queue) # rest \<Rightarrow>
          let queue' = (case pq_non_incremental queue of
                          _ # sids \<Rightarrow> queue\<lparr>pq_non_incremental := sids\<rparr>
                        | [] \<Rightarrow> queue\<lparr>pq_incremental := butlast (pq_incremental queue)\<rparr>)
          in sm\<lparr>sm_sendable :=
               (if pq_non_incremental queue' = [] \<and> pq_incremental queue' = [] then rest
                else (u, queue') # rest)\<rparr>)"

definition sm_mark_readable :: "('b, 'c) stream_map \<Rightarrow> nat \<Rightarrow> bool \<Rightarrow> ('b, 'c) stream_map" where
  "sm_mark_readable sm sid readable =
     sm\<lparr>sm_readable := (if readable then insert sid (sm_readable sm) else sm_readable sm - {sid})\<rparr>"

definition sm_mark_writable :: "('b, 'c) stream_map \<Rightarrow> nat \<Rightarrow> bool \<Rightarrow> ('b, 'c) stream_map" where
  "sm_mark_writable sm sid writable =
     sm\<lparr>sm_writable := (if writable then insert sid (sm_writable sm) else sm_writable sm - {sid})\<rparr>"

definition sm_mark_almost_full :: "('b, 'c) stream_map \<Rightarrow> nat \<Rightarrow> bool \<Rightarrow> ('b, 'c) stream_map" where
  "sm_mark_almost_full sm sid almost_full =
     sm\<lparr>sm_almost_full := (if almost_full then insert sid (sm_almost_full sm) else sm_almost_full sm - {sid})\<rparr>"

definition sm_mark_blocked :: "('b, 'c) stream_map \<Rightarrow> nat \<Rightarrow> bool \<Rightarrow> nat \<Rightarrow> ('b, 'c) stream_map" where
  "sm_mark_blocked sm sid blocked off =
     sm\<lparr>sm_data_blocked :=
       (if blocked then bm_insert sid off (sm_data_blocked sm) else bm_remove sid (sm_data_blocked sm))\<rparr>"

definition sm_mark_reset :: "('b, 'c) stream_map \<Rightarrow> nat \<Rightarrow> bool \<Rightarrow> nat \<Rightarrow> nat \<Rightarrow> ('b, 'c) stream_map" where
  "sm_mark_reset sm sid rst error_code final_size =
     sm\<lparr>sm_reset :=
       (if rst then bm_insert sid (error_code, final_size) (sm_reset sm) else bm_remove sid (sm_reset sm))\<rparr>"

definition sm_mark_stopped :: "('b, 'c) stream_map \<Rightarrow> nat \<Rightarrow> bool \<Rightarrow> nat \<Rightarrow> ('b, 'c) stream_map" where
  "sm_mark_stopped sm sid stopped error_code =
     sm\<lparr>sm_stopped :=
       (if stopped then bm_insert sid error_code (sm_stopped sm) else bm_remove sid (sm_stopped sm))\<rparr>"

section \<open>Creating and closing streams\<close>

definition sm_is_closed :: "('b, 'c) stream_map \<Rightarrow> nat \<Rightarrow> bool" where
  "sm_is_closed sm sid =
     (case sm_get sm sid of
        Some st \<Rightarrow> st_is_closed st
      | None \<Rightarrow>
          \<not> (cc_is_available (sm_concurrency_control sm) sid (sm_is_server sm) \<or>
             cc_is_limited (sm_concurrency_control sm) sid (sm_is_server sm)))"

definition sm_stream_destroy :: "('b, 'c) stream_map \<Rightarrow> nat \<Rightarrow> ('b, 'c) stream_map" where
  "sm_stream_destroy sm sid = sm\<lparr>sm_streams := bm_remove sid (sm_streams sm)\<rparr>"

definition sm_mark_closed :: "('b, 'c) stream_map \<Rightarrow> nat \<Rightarrow> bool \<Rightarrow> ('b, 'c) stream_map" where
  "sm_mark_closed sm sid loc =
     (if sm_is_closed sm sid then sm
      else
        let sm1 = (if \<not> loc then
              sm\<lparr>sm_concurrency_control :=
                cc_increase_max_streams_credits (sm_concurrency_control sm) (is_bidi sid) 1\<rparr>
            else sm);
            sm2 = sm_mark_writable (sm_mark_readable sm1 sid False) sid False;
            sm3 = (case sm_get sm2 sid of Some st \<Rightarrow> sm_put sm2 sid (st_mark_closed st) | None \<Rightarrow> sm2);
            (events, added) = eq_add (sm_events sm3) (StreamClosed sid);
            sm4 = sm3\<lparr>sm_events := events\<rparr>
        in if added then sm4 else sm_stream_destroy sm4 sid)"

definition max_stream_data_limit ::
    "bool \<Rightarrow> bool \<Rightarrow> stream_transport_params \<Rightarrow> stream_transport_params \<Rightarrow> nat \<times> nat" where
  "max_stream_data_limit loc bidi local_params peer_params =
     (if loc then
        if bidi then (stp_initial_max_stream_data_bidi_local local_params,
                      stp_initial_max_stream_data_bidi_remote peer_params)
        else (0, stp_initial_max_stream_data_uni peer_params)
      else
        if bidi then (stp_initial_max_stream_data_bidi_remote local_params,
                      stp_initial_max_stream_data_bidi_local peer_params)
        else (stp_initial_max_stream_data_uni local_params, 0))"

text \<open>\<open>format!("{}-{}", trace_id, id)\<close>; \<open>dec\<close> prints a number in decimal.\<close>

fun dec :: "nat \<Rightarrow> string" where
  "dec n = (if n < 10 then [char_of (48 + n)] else dec (n div 10) @ [char_of (48 + n mod 10)])"

declare dec.simps [simp del]

definition sm_stream_trace_id :: "('b, 'c) stream_map \<Rightarrow> nat \<Rightarrow> string" where
  "sm_stream_trace_id sm sid = sm_trace_id sm @ ''-'' @ dec sid"

definition sm_advance_next_id :: "('b, 'c) stream_map \<Rightarrow> nat \<Rightarrow> ('b, 'c) stream_map" where
  "sm_advance_next_id sm sid =
     (if is_bidi sid then
        sm\<lparr>sm_next_stream_id_bidi := sat_add64 (max (sm_next_stream_id_bidi sm) sid) 4\<rparr>
      else sm\<lparr>sm_next_stream_id_uni := sat_add64 (max (sm_next_stream_id_uni sm) sid) 4\<rparr>)"

definition sm_get_or_create ::
    "('b, 'c) stream_map \<Rightarrow> nat \<Rightarrow> bool \<Rightarrow> ('b, 'c) stream_map \<times> ('b, 'c) stream qres" where
  "sm_get_or_create sm sid loc =
     (if sid > VINT_MAX then (sm, Err ProtocolViolation)
      else
        case sm_get sm sid of
          Some st \<Rightarrow> (sm, Ok st)
        | None \<Rightarrow>
            if sm_is_closed sm sid then (sm, Err Done)
            else if loc \<noteq> is_local sid (sm_is_server sm) then (sm, Err StreamStateError)
            else
              let bidi = is_bidi sid;
                  (max_rx_data, max_tx_data) =
                    max_stream_data_limit loc bidi (sm_local_transport_params sm) (sm_peer_transport_params sm);
                  (cc, r) = cc_check_concurrency_limits (sm_concurrency_control sm) sid (sm_is_server sm);
                  sm1 = sm\<lparr>sm_concurrency_control := cc\<rparr>
              in attempt sm1 r (\<lambda>_.
                let st = st_set_trace_id (st_new bidi loc max_tx_data max_rx_data (sm_max_stream_window sm1))
                           (sm_stream_trace_id sm1 sid)
                in attempt sm1 (st_is_writable st) (\<lambda>writable.
                  let sm2 = (if writable then sm1\<lparr>sm_writable := insert sid (sm_writable sm1)\<rparr> else sm1);
                      sm3 = sm_advance_next_id sm2 sid;
                      sm4 = sm3\<lparr>sm_concurrency_control :=
                              cc_remove_avail_id (sm_concurrency_control sm3) sid (sm_is_server sm3),
                              sm_events := fst (eq_add (sm_events sm3) (StreamCreated sid))\<rparr>
                  in (sm_put sm4 sid st, Ok st))))"

text \<open>
  The \<open>match\<close> on \<open>get_or_create\<close> in the frame handlers: a frame for a closed stream is
  ignored.
\<close>

definition unless_closed ::
    "('b, 'c) stream_map \<times> ('b, 'c) stream qres \<Rightarrow>
     (('b, 'c) stream_map \<Rightarrow> ('b, 'c) stream \<Rightarrow> ('b, 'c) stream_map \<times> unit qres) \<Rightarrow>
     ('b, 'c) stream_map \<times> unit qres" where
  "unless_closed p f =
     (let (sm, r) = p in
      case r of
        Ok st \<Rightarrow> f sm st
      | Err e \<Rightarrow> (sm, if e = Done then Ok () else Err e)
      | Panic \<Rightarrow> (sm, Panic))"

section \<open>Queries\<close>

definition sm_max_rx_data :: "('b, 'c) stream_map \<Rightarrow> nat" where
  "sm_max_rx_data sm = fc_max_data (sm_flow_control sm)"

definition sm_max_rx_data_next :: "('b, 'c) stream_map \<Rightarrow> nat qres" where
  "sm_max_rx_data_next sm = fc_max_data_next (sm_flow_control sm)"

definition sm_max_rx_data_left :: "('b, 'c) stream_map \<Rightarrow> nat qres" where
  "sm_max_rx_data_left sm = sub64 (fc_max_data (sm_flow_control sm)) (fc_recv_off (sm_flow_control sm))"

definition sm_max_tx_data_left :: "('b, 'c) stream_map \<Rightarrow> nat qres" where
  "sm_max_tx_data_left sm = sub64 (sc_max_data (sm_send_capacity sm)) (sc_tx_data (sm_send_capacity sm))"

definition sm_peer_max_streams :: "('b, 'c) stream_map \<Rightarrow> bool \<Rightarrow> nat" where
  "sm_peer_max_streams sm bidi = cc_peer_max_streams (sm_concurrency_control sm) bidi"

definition sm_max_streams :: "('b, 'c) stream_map \<Rightarrow> bool \<Rightarrow> nat" where
  "sm_max_streams sm bidi =
     (if bidi then cc_local_max_streams_bidi (sm_concurrency_control sm)
      else cc_local_max_streams_uni (sm_concurrency_control sm))"

definition sm_max_streams_next :: "('b, 'c) stream_map \<Rightarrow> bool \<Rightarrow> nat" where
  "sm_max_streams_next sm bidi =
     (if bidi then cc_local_max_streams_bidi_next (sm_concurrency_control sm)
      else cc_local_max_streams_uni_next (sm_concurrency_control sm))"

definition sm_should_update_local_max_streams :: "('b, 'c) stream_map \<Rightarrow> bool \<Rightarrow> bool qres" where
  "sm_should_update_local_max_streams sm bidi =
     cc_should_update_local_max_streams (sm_concurrency_control sm) bidi"

definition sm_should_send_max_streams :: "('b, 'c) stream_map \<Rightarrow> bool qres" where
  "sm_should_send_max_streams sm =
     rbind (cc_should_update_local_max_streams (sm_concurrency_control sm) True) (\<lambda>b.
       if b then Ok True else cc_should_update_local_max_streams (sm_concurrency_control sm) False)"

definition sm_data_blocked_at :: "('b, 'c) stream_map \<Rightarrow> nat option" where
  "sm_data_blocked_at sm = sc_blocked_at (sm_send_capacity sm)"

definition sm_streams_blocked_at :: "('b, 'c) stream_map \<Rightarrow> bool \<Rightarrow> nat option" where
  "sm_streams_blocked_at sm bidi =
     (if bidi then cc_streams_blocked_at_bidi (sm_concurrency_control sm)
      else cc_streams_blocked_at_uni (sm_concurrency_control sm))"

definition sm_streams_blocked :: "('b, 'c) stream_map \<Rightarrow> bool" where
  "sm_streams_blocked sm \<longleftrightarrow>
     cc_streams_blocked_at_bidi (sm_concurrency_control sm) \<noteq> None \<or>
     cc_streams_blocked_at_uni (sm_concurrency_control sm) \<noteq> None"

definition sm_need_send_max_data :: "('b, 'c) stream_map \<Rightarrow> bool qres" where
  "sm_need_send_max_data sm =
     (if sm_rx_almost_full sm
      then rbind (sm_max_rx_data_next sm) (\<lambda>next_limit. Ok (sm_max_rx_data sm < next_limit))
      else Ok False)"

definition sm_need_send_stream_frames :: "('b, 'c) stream_map \<Rightarrow> bool qres" where
  "sm_need_send_stream_frames sm =
     (if sm_sendable sm \<noteq> [] then Ok True
      else rbind (sm_need_send_max_data sm) (\<lambda>md.
        if md \<or> sm_data_blocked_at sm \<noteq> None then Ok True
        else rbind (sm_should_send_max_streams sm) (\<lambda>ms.
          Ok (ms \<or> sm_almost_full sm \<noteq> {} \<or> sm_data_blocked sm \<noteq> [] \<or> sm_reset sm \<noteq> [] \<or>
              sm_stopped sm \<noteq> [] \<or> sm_streams_blocked sm))))"

definition sm_stream_read_offset :: "('b, 'c) stream_map \<Rightarrow> nat \<Rightarrow> nat option" where
  "sm_stream_read_offset sm sid = map_option (\<lambda>st. rv_read_off (st_recv st)) (sm_get sm sid)"

definition sm_stream_write_offset :: "('b, 'c) stream_map \<Rightarrow> nat \<Rightarrow> nat option" where
  "sm_stream_write_offset sm sid = map_option (\<lambda>st. sb_write_off (st_send st)) (sm_get sm sid)"

definition sm_stream_readable :: "('b, 'c) stream_map \<Rightarrow> nat \<Rightarrow> bool" where
  "sm_stream_readable sm sid = (case sm_get sm sid of Some st \<Rightarrow> st_is_readable st | None \<Rightarrow> False)"

definition sm_stream_finished :: "('b, 'c) stream_map \<Rightarrow> nat \<Rightarrow> bool" where
  "sm_stream_finished sm sid = (case sm_get sm sid of Some st \<Rightarrow> rv_is_fin (st_recv st) | None \<Rightarrow> True)"

definition sm_stream_context :: "('b, 'c) stream_map \<Rightarrow> nat \<Rightarrow> 'c option" where
  "sm_stream_context sm sid = Option.bind (sm_get sm sid) st_context"

definition sm_stream_capacity :: "('b, 'c) stream_map \<Rightarrow> nat \<Rightarrow> nat qres" where
  "sm_stream_capacity sm sid =
     (case sm_get sm sid of
        Some st \<Rightarrow> rbind (sb_capacity (st_send st)) (\<lambda>cap. Ok (min (sc_capacity (sm_send_capacity sm)) cap))
      | None \<Rightarrow> Err StreamStateError)"

definition sm_check_readable :: "('b, 'c) stream_map \<Rightarrow> nat \<Rightarrow> bool" where
  "sm_check_readable sm sid = (case sm_get sm sid of Some st \<Rightarrow> st_is_wantread st | None \<Rightarrow> False)"

definition sm_has_readable :: "('b, 'c) stream_map \<Rightarrow> bool" where
  "sm_has_readable sm \<longleftrightarrow> (\<exists>sid \<in> sm_readable sm. sm_check_readable sm sid)"

definition sm_check_writable :: "('b, 'c) stream_map \<Rightarrow> nat \<Rightarrow> bool qres" where
  "sm_check_writable sm sid =
     (case sm_get sm sid of
        Some st \<Rightarrow>
          if \<not> st_is_wantwrite st then Ok False
          else (case sb_capacity (st_send st) of
             Ok capacity \<Rightarrow> Ok (min (sc_capacity (sm_send_capacity sm)) capacity \<ge> st_write_thresh st)
           | Err e \<Rightarrow> Ok True
           | Panic \<Rightarrow> Panic)
      | None \<Rightarrow> Ok False)"

definition sm_has_writable :: "('b, 'c) stream_map \<Rightarrow> bool" where
  "sm_has_writable sm \<longleftrightarrow>
     sc_capacity (sm_send_capacity sm) \<noteq> 0 \<and> (\<exists>sid \<in> sm_writable sm. sm_check_writable sm sid = Ok True)"

section \<open>Application operations\<close>

definition sm_want_write :: "('b, 'c) stream_map \<Rightarrow> nat \<Rightarrow> bool \<Rightarrow> ('b, 'c) stream_map \<times> unit qres" where
  "sm_want_write sm sid want =
     (case sm_get sm sid of
        Some st \<Rightarrow> (let (st', r) = st_mark_wantwrite st want in (sm_put sm sid st', r))
      | None \<Rightarrow> (sm, Err Done))"

definition sm_want_read :: "('b, 'c) stream_map \<Rightarrow> nat \<Rightarrow> bool \<Rightarrow> ('b, 'c) stream_map \<times> unit qres" where
  "sm_want_read sm sid want =
     (case sm_get sm sid of
        Some st \<Rightarrow> (let (st', r) = st_mark_wantread st want in (sm_put sm sid st', r))
      | None \<Rightarrow> (sm, Err Done))"

definition sm_update_data_blocked_at :: "('b, 'c) stream_map \<Rightarrow> nat option \<Rightarrow> ('b, 'c) stream_map" where
  "sm_update_data_blocked_at sm blocked_at =
     sm\<lparr>sm_send_capacity := sc_update_blocked_at (sm_send_capacity sm) blocked_at\<rparr>"

definition sm_update_streams_blocked_at ::
    "('b, 'c) stream_map \<Rightarrow> bool \<Rightarrow> nat option \<Rightarrow> ('b, 'c) stream_map" where
  "sm_update_streams_blocked_at sm bidi blocked_at =
     sm\<lparr>sm_concurrency_control := cc_update_streams_blocked_at (sm_concurrency_control sm) bidi blocked_at\<rparr>"

definition sm_update_local_max_streams :: "('b, 'c) stream_map \<Rightarrow> bool \<Rightarrow> ('b, 'c) stream_map" where
  "sm_update_local_max_streams sm bidi =
     sm\<lparr>sm_concurrency_control := cc_update_local_max_streams (sm_concurrency_control sm) bidi\<rparr>"

text \<open>
  Bytes the application no longer needs count as consumed by the connection:
  \<open>increase_read_off\<close> and the check for a \<open>MAX_DATA\<close> frame that follows it everywhere.
\<close>

definition sm_consume :: "('b, 'c) stream_map \<Rightarrow> nat \<Rightarrow> ('b, 'c) stream_map \<times> unit qres" where
  "sm_consume sm n =
     attempt sm (fc_increase_read_off (sm_flow_control sm) n) (\<lambda>fc.
       let sm1 = sm\<lparr>sm_flow_control := fc\<rparr> in
       attempt sm1 (fc_should_send_max_data fc) (\<lambda>almost.
         (if almost then sm1\<lparr>sm_rx_almost_full := True\<rparr> else sm1, Ok ())))"

definition sm_stream_read ::
    "('b, 'c) stream_map \<Rightarrow> nat \<Rightarrow> nat \<Rightarrow> ('b, 'c) stream_map \<times> ('b list \<times> bool) qres" where
  "sm_stream_read sm sid cap =
     (if \<not> is_bidi sid \<and> is_local sid (sm_is_server sm) then (sm, Err StreamStateError)
      else
        attempt sm (ok_or (sm_get sm sid) StreamStateError) (\<lambda>st.
          if \<not> st_is_readable st then (sm, Err Done)
          else
            let (rv, r) = rv_read (st_recv st) cap;
                st1 = st\<lparr>st_recv := rv\<rparr>;
                sm1 = sm_put sm sid st1
            in case r of
                 Panic \<Rightarrow> (sm1, Panic)
               | Err e \<Rightarrow>
                   let sm2 = (if st_is_complete st1 then sm_mark_closed sm1 sid (st_local st) else sm1)
                   in (sm_mark_readable sm2 sid False, Err e)
               | Ok (out, fin) \<Rightarrow>
                   attempt sm1 (rv_should_send_max_data rv) (\<lambda>full.
                     let sm2 = (if full then sm_mark_almost_full sm1 sid True else sm1);
                         (sm3, r3) = sm_consume sm2 (length out)
                     in attempt sm3 r3 (\<lambda>_.
                       let sm4 = (if \<not> st_is_readable st1 then sm_mark_readable sm3 sid False else sm3);
                           sm5 = (if st_is_complete st1 then sm_mark_closed sm4 sid (st_local st) else sm4)
                       in (sm5, Ok (out, fin))))))"

text \<open>
  The part of \<open>stream_write\<close> after the data is in the stream's buffer: the blocked state of
  the stream, its place in the queues and the connection's send capacity.
\<close>

definition sm_note_blocked ::
    "('b, 'c) stream_map \<Rightarrow> nat \<Rightarrow> ('b, 'c) stream \<Rightarrow> bool \<Rightarrow> ('b, 'c) stream_map" where
  "sm_note_blocked sm sid st blocked =
     (let snd_buf = st_send st; max_data = sb_max_data snd_buf in
      if blocked then
        if sb_blocked_at snd_buf \<noteq> Some max_data then
          sm_mark_blocked (sm_put sm sid (st\<lparr>st_send := sb_update_blocked_at snd_buf (Some max_data)\<rparr>))
            sid True max_data
        else sm
      else
        sm_mark_blocked (sm_put sm sid (st\<lparr>st_send := sb_update_blocked_at snd_buf None\<rparr>)) sid False 0)"

definition sm_charge :: "('b, 'c) stream_map \<Rightarrow> nat \<Rightarrow> ('b, 'c) stream_map \<times> unit qres" where
  "sm_charge sm written =
     attempt sm (sub64 (sc_capacity (sm_send_capacity sm)) written) (\<lambda>capacity.
       let sm1 = sm\<lparr>sm_send_capacity := (sm_send_capacity sm)\<lparr>sc_capacity := capacity\<rparr>\<rparr> in
       attempt sm1 (add64 (sc_tx_data (sm_send_capacity sm1)) written) (\<lambda>tx_data.
         (sm1\<lparr>sm_send_capacity := (sm_send_capacity sm1)\<lparr>sc_tx_data := tx_data\<rparr>\<rparr>, Ok ())))"

definition sm_stream_write ::
    "('b, 'c) stream_map \<Rightarrow> nat \<Rightarrow> 'b list \<Rightarrow> bool \<Rightarrow> ('b, 'c) stream_map \<times> nat qres" where
  "sm_stream_write sm sid buf fin =
     (if \<not> is_bidi sid \<and> \<not> is_local sid (sm_is_server sm) then (sm, Err StreamStateError)
      else
        attempt sm (sm_max_tx_data_left sm) (\<lambda>left.
          let sm1 = (if left < length buf
                     then sm_update_data_blocked_at sm (Some (sc_max_data (sm_send_capacity sm))) else sm);
              capacity = sc_capacity (sm_send_capacity sm1);
              (sm2, r) = sm_get_or_create sm1 sid True
          in attempt sm2 r (\<lambda>st. attempt sm2 (st_is_writable st) (\<lambda>was_writable.
            if capacity = 0 \<and> buf \<noteq> [] then
              let sm3 = (if was_writable then sm_mark_writable sm2 sid True else sm2)
              in (fst (sm_want_write sm3 sid True), Err Done)
            else
              let blocked_by_cap = (capacity < length buf);
                  buf' = (if blocked_by_cap then take capacity buf else buf);
                  fin' = (fin \<and> \<not> blocked_by_cap);
                  buf_len = length buf';
                  (snd_buf, w) = sb_write (st_send st) buf' fin';
                  st1 = st\<lparr>st_send := snd_buf\<rparr>;
                  sm3 = sm_put sm2 sid st1
              in case w of
                   Panic \<Rightarrow> (sm3, Panic)
                 | Err e \<Rightarrow> (sm_mark_writable sm3 sid False, Err e)
                 | Ok written \<Rightarrow>
                     attempt sm3 (st_is_writable st1) (\<lambda>writable.
                       let sm4 = sm_note_blocked sm3 sid st1 (written < buf_len);
                           sm5 = (if (st_is_sendable st1 \<or> buf_len = 0 \<and> fin') \<and> \<not> st_is_sendable st
                                  then sm_push_sendable sm4 sid (st_urgency st1) (st_incremental st1) else sm4);
                           sm6 = (if \<not> writable then sm_mark_writable sm5 sid False
                                  else if was_writable \<and> blocked_by_cap then sm_mark_writable sm5 sid True
                                  else sm5);
                           (sm7, r7) = sm_charge sm6 written
                       in attempt sm7 r7 (\<lambda>_.
                         let sm8 = (if written < length buf then fst (sm_want_write sm7 sid True) else sm7)
                         in (sm8, if written = 0 \<and> buf_len > 0 then Err Done else Ok written)))))))"

datatype Shutdown = ShutRead | ShutWrite

definition sm_shutdown_read ::
    "('b, 'c) stream_map \<Rightarrow> nat \<Rightarrow> nat \<Rightarrow> ('b, 'c) stream \<Rightarrow> ('b, 'c) stream_map \<times> unit qres" where
  "sm_shutdown_read sm sid err st =
     (if is_local sid (sm_is_server sm) \<and> \<not> is_bidi sid then (sm, Err StreamStateError)
      else
        let (rv, r) = rv_shutdown (st_recv st);
            sm1 = sm_put sm sid (st\<lparr>st_recv := rv\<rparr>)
        in attempt sm1 r (\<lambda>unread_len.
          let sm2 = (if \<not> rv_is_fin rv then sm_mark_stopped sm1 sid True err else sm1)
          in sm_consume (sm_mark_readable sm2 sid False) unread_len))"

text \<open>
  Unsent bytes of a stream whose send side ends are given back to the connection:
  \<open>saturating_sub\<close> on \<open>tx_data\<close>, then \<open>update_capacity\<close>.
\<close>

definition sm_refund :: "('b, 'c) stream_map \<Rightarrow> nat \<Rightarrow> ('b, 'c) stream_map \<times> unit qres" where
  "sm_refund sm unsent =
     (let sc = (sm_send_capacity sm)\<lparr>sc_tx_data := sc_tx_data (sm_send_capacity sm) - unsent\<rparr>;
          sm1 = sm\<lparr>sm_send_capacity := sc\<rparr>
      in attempt sm1 (sc_update_capacity sc) (\<lambda>sc'. (sm1\<lparr>sm_send_capacity := sc'\<rparr>, Ok ())))"

definition sm_shutdown_write ::
    "('b, 'c) stream_map \<Rightarrow> nat \<Rightarrow> nat \<Rightarrow> ('b, 'c) stream \<Rightarrow> ('b, 'c) stream_map \<times> unit qres" where
  "sm_shutdown_write sm sid err st =
     (if \<not> is_local sid (sm_is_server sm) \<and> \<not> is_bidi sid then (sm, Err StreamStateError)
      else
        let (snd_buf, r) = sb_shutdown (st_send st);
            sm1 = sm_put sm sid (st\<lparr>st_send := snd_buf\<rparr>)
        in attempt sm1 r (\<lambda>(final_size, unsent).
          let (sm2, r2) = sm_refund sm1 unsent
          in attempt sm2 r2 (\<lambda>_.
            (sm_mark_writable (sm_mark_reset sm2 sid True err final_size) sid False, Ok ()))))"

definition sm_stream_shutdown ::
    "('b, 'c) stream_map \<Rightarrow> nat \<Rightarrow> Shutdown \<Rightarrow> nat \<Rightarrow> ('b, 'c) stream_map \<times> unit qres" where
  "sm_stream_shutdown sm sid direction err =
     attempt sm (ok_or (sm_get sm sid) Done) (\<lambda>st.
       case direction of
         ShutRead \<Rightarrow> sm_shutdown_read sm sid err st
       | ShutWrite \<Rightarrow> sm_shutdown_write sm sid err st)"

definition sm_stream_set_priority ::
    "('b, 'c) stream_map \<Rightarrow> nat \<Rightarrow> nat \<Rightarrow> bool \<Rightarrow> ('b, 'c) stream_map \<times> unit qres" where
  "sm_stream_set_priority sm sid urgency incremental =
     unless_closed (sm_get_or_create sm sid True) (\<lambda>sm1 st.
       if st_urgency st = urgency \<and> st_incremental st = incremental then (sm1, Ok ())
       else (sm_put sm1 sid (st\<lparr>st_urgency := urgency, st_incremental := incremental\<rparr>), Ok ()))"

definition sm_stream_bidi_new ::
    "('b, 'c) stream_map \<Rightarrow> nat \<Rightarrow> bool \<Rightarrow> ('b, 'c) stream_map \<times> nat qres" where
  "sm_stream_bidi_new sm urgency incremental =
     (let sid = sm_next_stream_id_bidi sm;
          (sm1, r) = sm_stream_set_priority sm sid urgency incremental
      in attempt sm1 r (\<lambda>_. (sm1, Ok sid)))"

definition sm_stream_uni_new ::
    "('b, 'c) stream_map \<Rightarrow> nat \<Rightarrow> bool \<Rightarrow> ('b, 'c) stream_map \<times> nat qres" where
  "sm_stream_uni_new sm urgency incremental =
     (let sid = sm_next_stream_id_uni sm;
          (sm1, r) = sm_stream_set_priority sm sid urgency incremental
      in attempt sm1 r (\<lambda>_. (sm1, Ok sid)))"

definition sm_stream_set_context ::
    "('b, 'c) stream_map \<Rightarrow> nat \<Rightarrow> 'c \<Rightarrow> ('b, 'c) stream_map \<times> unit qres" where
  "sm_stream_set_context sm sid ctx =
     unless_closed (sm_get_or_create sm sid True) (\<lambda>sm1 st.
       (sm_put sm1 sid (st\<lparr>st_context := Some ctx\<rparr>), Ok ()))"

definition sm_stream_writable ::
    "('b, 'c) stream_map \<Rightarrow> nat \<Rightarrow> nat \<Rightarrow> ('b, 'c) stream_map \<times> bool qres" where
  "sm_stream_writable sm sid len =
     attempt sm (sm_stream_capacity sm sid) (\<lambda>cap.
       if cap \<ge> len then (sm, Ok True)
       else attempt sm (sm_max_tx_data_left sm) (\<lambda>left.
         let sm1 = (if left < len
                    then sm_update_data_blocked_at sm (Some (sc_max_data (sm_send_capacity sm))) else sm)
         in case sm_get sm1 sid of
              None \<Rightarrow> (sm1, Panic)
            | Some st0 \<Rightarrow>
                let st = st0\<lparr>st_write_thresh := max 1 len\<rparr>;
                    sm2 = sm_put sm1 sid st
                in attempt sm2 (st_is_writable st) (\<lambda>is_writable.
                  attempt sm2 (sb_capacity (st_send st)) (\<lambda>capacity.
                    let max_data = sb_max_data (st_send st);
                        sm3 = (if capacity < len then
                                 if sb_blocked_at (st_send st) \<noteq> Some max_data then
                                   sm_mark_blocked (sm_put sm2 sid
                                     (st\<lparr>st_send := sb_update_blocked_at (st_send st) (Some max_data)\<rparr>))
                                     sid True max_data
                                 else sm2
                               else if is_writable then sm_mark_writable sm2 sid True else sm2)
                    in (sm3, Ok False)))))"

section \<open>Frames received\<close>

text \<open>\<open>Some(v) > b\<close> on options is \<open>exceeds_blocked\<close>.\<close>

definition sm_on_max_data_frame_received ::
    "('b, 'c) stream_map \<Rightarrow> nat \<Rightarrow> ('b, 'c) stream_map \<times> unit qres" where
  "sm_on_max_data_frame_received sm max_data =
     (let sc1 = sc_update_max_data (sm_send_capacity sm) max_data;
          sm1 = sm\<lparr>sm_send_capacity := sc1\<rparr>
      in attempt sm1 (sc_update_capacity sc1) (\<lambda>sc2.
        let sc3 = (if exceeds_blocked (sc_max_data sc2) (sc_blocked_at sc2)
                   then sc2\<lparr>sc_blocked_at := None\<rparr> else sc2)
        in (sm1\<lparr>sm_send_capacity := sc3\<rparr>, Ok ())))"

definition sm_raise_stream_limit ::
    "nat \<Rightarrow> nat \<Rightarrow> ('b, 'c) stream_map \<Rightarrow> ('b, 'c) stream \<Rightarrow> ('b, 'c) stream_map \<times> unit qres" where
  "sm_raise_stream_limit sid max_data sm st =
     (let st1 = st\<lparr>st_send := sb_update_max_data (st_send st) max_data\<rparr>;
          sm1 = sm_put sm sid st1
      in attempt sm1 (st_is_writable st1) (\<lambda>writable.
        let sm2 = (if st_is_sendable st1 \<and> \<not> st_is_sendable st
                   then sm_push_sendable sm1 sid (st_urgency st1) (st_incremental st1) else sm1)
        in (if writable then sm_mark_writable sm2 sid True else sm2, Ok ())))"

definition sm_on_max_stream_data_frame_received ::
    "('b, 'c) stream_map \<Rightarrow> nat \<Rightarrow> nat \<Rightarrow> ('b, 'c) stream_map \<times> unit qres" where
  "sm_on_max_stream_data_frame_received sm sid max_data =
     (if \<not> is_local sid (sm_is_server sm) \<and> \<not> is_bidi sid then (sm, Err StreamStateError)
      else unless_closed (sm_get_or_create sm sid False) (sm_raise_stream_limit sid max_data))"

definition sm_on_max_streams_frame_received ::
    "('b, 'c) stream_map \<Rightarrow> nat \<Rightarrow> bool \<Rightarrow> ('b, 'c) stream_map \<times> unit qres" where
  "sm_on_max_streams_frame_received sm max_streams bidi =
     (if max_streams > MAX_STREAMS_PER_TYPE then (sm, Err FrameEncodingError)
      else (sm\<lparr>sm_concurrency_control :=
              cc_update_peer_max_streams (sm_concurrency_control sm) bidi max_streams\<rparr>, Ok ()))"

definition sm_on_data_blocked_frame_received :: "('b, 'c) stream_map \<Rightarrow> nat \<Rightarrow> ('b, 'c) stream_map" where
  "sm_on_data_blocked_frame_received sm max_data = sm"

definition sm_on_stream_data_blocked_frame_received ::
    "('b, 'c) stream_map \<Rightarrow> nat \<Rightarrow> nat \<Rightarrow> ('b, 'c) stream_map \<times> unit qres" where
  "sm_on_stream_data_blocked_frame_received sm sid max_stream_data =
     (if is_local sid (sm_is_server sm) \<and> \<not> is_bidi sid then (sm, Err StreamStateError) else (sm, Ok ()))"

definition sm_on_streams_blocked_frame_received ::
    "('b, 'c) stream_map \<Rightarrow> nat \<Rightarrow> bool \<Rightarrow> ('b, 'c) stream_map \<times> unit qres" where
  "sm_on_streams_blocked_frame_received sm max_streams bidi =
     (if max_streams > MAX_STREAMS_PER_TYPE then (sm, Err FrameEncodingError) else (sm, Ok ()))"

text \<open>
  The handlers of \<open>RESET_STREAM\<close>, \<open>STOP_SENDING\<close> and \<open>STREAM\<close> frames: first what they do
  to the stream \<open>get_or_create\<close> has found, then the handler. \<open>left\<close> is the connection's receive
  credit, read before.
\<close>

definition sm_reset_stream ::
    "nat \<Rightarrow> nat \<Rightarrow> nat \<Rightarrow> nat \<Rightarrow> ('b, 'c) stream_map \<Rightarrow> ('b, 'c) stream \<Rightarrow> ('b, 'c) stream_map \<times> unit qres" where
  "sm_reset_stream sid error_code final_size left sm st =
     (let max_fc_off_delta = final_size - rv_read_off (st_recv st);
          (rv, r) = rv_reset (st_recv st) error_code final_size;
          st1 = st\<lparr>st_recv := rv\<rparr>;
          sm1 = sm_put sm sid st1
      in attempt sm1 r (\<lambda>max_rx_off_delta.
        if max_rx_off_delta > left then (sm1, Err FlowControlError)
        else
          let sm2 = (if \<not> st_is_readable st \<and> st_is_readable st1 then sm_mark_readable sm1 sid True else sm1);
              sm3 = (if st_is_complete st1 \<and> \<not> st_is_readable st1
                     then sm_mark_closed sm2 sid (st_local st1) else sm2)
          in attempt sm3 (fc_increase_recv_off (sm_flow_control sm3) max_rx_off_delta) (\<lambda>fc.
            sm_consume (sm3\<lparr>sm_flow_control := fc\<rparr>) max_fc_off_delta)))"

definition sm_on_reset_stream_frame_received ::
    "('b, 'c) stream_map \<Rightarrow> nat \<Rightarrow> nat \<Rightarrow> nat \<Rightarrow> ('b, 'c) stream_map \<times> unit qres" where
  "sm_on_reset_stream_frame_received sm sid error_code final_size =
     (if \<not> is_bidi sid \<and> is_local sid (sm_is_server sm) then (sm, Err StreamStateError)
      else attempt sm (sm_max_rx_data_left sm) (\<lambda>left.
        unless_closed (sm_get_or_create sm sid False) (sm_reset_stream sid error_code final_size left)))"

definition sm_stop_stream ::
    "nat \<Rightarrow> nat \<Rightarrow> ('b, 'c) stream_map \<Rightarrow> ('b, 'c) stream \<Rightarrow> ('b, 'c) stream_map \<times> unit qres" where
  "sm_stop_stream sid error_code sm st =
     attempt sm (st_is_writable st) (\<lambda>was_writable.
       let (snd_buf, r) = sb_stop (st_send st) error_code;
           sm1 = sm_put sm sid (st\<lparr>st_send := snd_buf\<rparr>)
       in case r of
            Ok (final_size, unsent) \<Rightarrow>
              let (sm2, r2) = sm_refund sm1 unsent
              in attempt sm2 r2 (\<lambda>_.
                let sm3 = sm_mark_reset sm2 sid True error_code final_size
                in (if \<not> was_writable then sm_mark_writable sm3 sid True else sm3, Ok ()))
          | Err e \<Rightarrow> (sm1, Ok ())
          | Panic \<Rightarrow> (sm1, Panic))"

definition sm_on_stop_sending_frame_received ::
    "('b, 'c) stream_map \<Rightarrow> nat \<Rightarrow> nat \<Rightarrow> ('b, 'c) stream_map \<times> unit qres" where
  "sm_on_stop_sending_frame_received sm sid error_code =
     (if \<not> is_local sid (sm_is_server sm) \<and> \<not> is_bidi sid then (sm, Err StreamStateError)
      else unless_closed (sm_get_or_create sm sid False) (sm_stop_stream sid error_code))"

definition sm_receive_data ::
    "nat \<Rightarrow> nat \<Rightarrow> nat \<Rightarrow> bool \<Rightarrow> 'b list \<Rightarrow> nat \<Rightarrow> ('b, 'c) stream_map \<Rightarrow> ('b, 'c) stream \<Rightarrow>
     ('b, 'c) stream_map \<times> unit qres" where
  "sm_receive_data sid offset len fin data left sm st =
     attempt sm (add64 offset len) (\<lambda>data_max_off.
       let max_rx_off_delta = data_max_off - rv_recv_off (st_recv st) in
       if max_rx_off_delta > left then (sm, Err FlowControlError)
       else
         let (rv, r) = rv_write (st_recv st) offset data fin;
             st1 = st\<lparr>st_recv := rv\<rparr>;
             sm1 = sm_put sm sid st1
         in attempt sm1 r (\<lambda>_.
           let sm2 = (if \<not> st_is_readable st \<and> st_is_readable st1 then sm_mark_readable sm1 sid True else sm1)
           in attempt sm2 (fc_increase_recv_off (sm_flow_control sm2) max_rx_off_delta) (\<lambda>fc.
             let sm3 = sm2\<lparr>sm_flow_control := fc\<rparr>
             in if st_is_draining st then sm_consume sm3 max_rx_off_delta else (sm3, Ok ()))))"

definition sm_on_stream_frame_received ::
    "('b, 'c) stream_map \<Rightarrow> nat \<Rightarrow> nat \<Rightarrow> nat \<Rightarrow> bool \<Rightarrow> 'b list \<Rightarrow> ('b, 'c) stream_map \<times> unit qres" where
  "sm_on_stream_frame_received sm sid offset len fin data =
     (if is_local sid (sm_is_server sm) \<and>
         (\<not> is_bidi sid \<or> sm_get sm sid = None \<and> \<not> sm_is_closed sm sid) then (sm, Err StreamStateError)
      else attempt sm (sm_max_rx_data_left sm) (\<lambda>left.
        unless_closed (sm_get_or_create sm sid False) (sm_receive_data sid offset len fin data left)))"

section \<open>Frames acknowledged and lost\<close>

definition sm_close_if_done :: "('b, 'c) stream_map \<Rightarrow> nat \<Rightarrow> ('b, 'c) stream \<Rightarrow> ('b, 'c) stream_map" where
  "sm_close_if_done sm sid st =
     (if st_is_complete st \<and> \<not> st_is_readable st then sm_mark_closed sm sid (st_local st) else sm)"

text \<open>\<open>ack_and_drop\<close> and \<open>retransmit\<close> return nothing; only a panic leaves the handler early.\<close>

definition sm_on_stream_frame_acked ::
    "('b, 'c) stream_map \<Rightarrow> nat \<Rightarrow> nat \<Rightarrow> nat \<Rightarrow> ('b, 'c) stream_map \<times> unit qres" where
  "sm_on_stream_frame_acked sm sid offset len =
     (case sm_get sm sid of
        None \<Rightarrow> (sm, Ok ())
      | Some st \<Rightarrow>
          let (snd_buf, r) = sb_ack_and_drop (st_send st) offset len;
              st1 = st\<lparr>st_send := snd_buf\<rparr>;
              sm1 = sm_put sm sid st1
          in attempt sm1 r (\<lambda>_. (sm_close_if_done sm1 sid st1, Ok ())))"

definition sm_on_reset_stream_frame_acked :: "('b, 'c) stream_map \<Rightarrow> nat \<Rightarrow> ('b, 'c) stream_map" where
  "sm_on_reset_stream_frame_acked sm sid =
     (case sm_get sm sid of None \<Rightarrow> sm | Some st \<Rightarrow> sm_close_if_done sm sid st)"

definition sm_on_stream_frame_lost ::
    "('b, 'c) stream_map \<Rightarrow> nat \<Rightarrow> nat \<Rightarrow> nat \<Rightarrow> bool \<Rightarrow> ('b, 'c) stream_map \<times> unit qres" where
  "sm_on_stream_frame_lost sm sid offset len fin =
     (case sm_get sm sid of
        None \<Rightarrow> (sm, Ok ())
      | Some st \<Rightarrow>
          let empty_fin = (len = 0 \<and> fin);
              (snd_buf, r) = sb_retransmit (st_send st) offset len;
              st1 = st\<lparr>st_send := snd_buf\<rparr>;
              sm1 = sm_put sm sid st1
          in attempt sm1 r (\<lambda>_.
            (if (st_is_sendable st1 \<or> empty_fin) \<and> \<not> st_is_sendable st
             then sm_push_sendable sm1 sid (st_urgency st1) (st_incremental st1) else sm1, Ok ())))"

definition sm_on_reset_stream_frame_lost ::
    "('b, 'c) stream_map \<Rightarrow> nat \<Rightarrow> nat \<Rightarrow> nat \<Rightarrow> ('b, 'c) stream_map" where
  "sm_on_reset_stream_frame_lost sm sid error_code final_size =
     (if sm_get sm sid \<noteq> None then sm_mark_reset sm sid True error_code final_size else sm)"

definition sm_on_stop_sending_frame_lost :: "('b, 'c) stream_map \<Rightarrow> nat \<Rightarrow> nat \<Rightarrow> ('b, 'c) stream_map" where
  "sm_on_stop_sending_frame_lost sm sid error_code =
     (case sm_get sm sid of
        None \<Rightarrow> sm
      | Some st \<Rightarrow> if \<not> rv_is_fin (st_recv st) then sm_mark_stopped sm sid True error_code else sm)"

definition sm_on_max_stream_data_frame_lost :: "('b, 'c) stream_map \<Rightarrow> nat \<Rightarrow> ('b, 'c) stream_map" where
  "sm_on_max_stream_data_frame_lost sm sid =
     (if sm_get sm sid \<noteq> None then sm_mark_almost_full sm sid True else sm)"

definition sm_on_max_data_frame_lost :: "('b, 'c) stream_map \<Rightarrow> ('b, 'c) stream_map" where
  "sm_on_max_data_frame_lost sm = sm\<lparr>sm_rx_almost_full := True\<rparr>"

definition sm_on_max_streams_frame_lost :: "('b, 'c) stream_map \<Rightarrow> bool \<Rightarrow> nat \<Rightarrow> ('b, 'c) stream_map" where
  "sm_on_max_streams_frame_lost sm bidi max_streams = sm"

definition sm_on_stream_data_blocked_frame_lost ::
    "('b, 'c) stream_map \<Rightarrow> nat \<Rightarrow> nat \<Rightarrow> ('b, 'c) stream_map" where
  "sm_on_stream_data_blocked_frame_lost sm sid blocked_at =
     (case sm_get sm sid of
        None \<Rightarrow> sm
      | Some st \<Rightarrow> if blocked_at = sb_max_data (st_send st) then sm_mark_blocked sm sid True blocked_at else sm)"

definition sm_on_data_blocked_frame_lost :: "('b, 'c) stream_map \<Rightarrow> nat \<Rightarrow> ('b, 'c) stream_map" where
  "sm_on_data_blocked_frame_lost sm max_data =
     (if max_data = sc_max_data (sm_send_capacity sm) then sm_update_data_blocked_at sm (Some max_data) else sm)"

definition sm_on_streams_blocked_frame_lost :: "('b, 'c) stream_map \<Rightarrow> bool \<Rightarrow> nat \<Rightarrow> ('b, 'c) stream_map" where
  "sm_on_streams_blocked_frame_lost sm bidi max_streams =
     (if max_streams = cc_peer_max_streams (sm_concurrency_control sm) bidi
      then sm\<lparr>sm_concurrency_control :=
             cc_update_streams_blocked_at (sm_concurrency_control sm) bidi (Some max_streams)\<rparr>
      else sm)"

section \<open>Connection-level windows and parameters\<close>

definition sm_autotune_window ::
    "('b, 'c) stream_map \<Rightarrow> instant \<Rightarrow> duration \<Rightarrow> ('b, 'c) stream_map \<times> unit qres" where
  "sm_autotune_window sm now srtt =
     attempt sm (fc_autotune_window (sm_flow_control sm) now srtt) (\<lambda>fc. (sm\<lparr>sm_flow_control := fc\<rparr>, Ok ()))"

definition sm_update_max_rx_data :: "('b, 'c) stream_map \<Rightarrow> instant \<Rightarrow> ('b, 'c) stream_map \<times> unit qres" where
  "sm_update_max_rx_data sm now =
     attempt sm (fc_update_max_data (sm_flow_control sm) now) (\<lambda>fc. (sm\<lparr>sm_flow_control := fc\<rparr>, Ok ()))"

definition sm_ensure_window_lower_bound :: "('b, 'c) stream_map \<Rightarrow> nat \<Rightarrow> ('b, 'c) stream_map" where
  "sm_ensure_window_lower_bound sm min_window =
     sm\<lparr>sm_flow_control := fc_ensure_window_lower_bound (sm_flow_control sm) min_window\<rparr>"

definition sm_update_peer_stream_transport_params ::
    "('b, 'c) stream_map \<Rightarrow> stream_transport_params \<Rightarrow> ('b, 'c) stream_map \<times> unit qres" where
  "sm_update_peer_stream_transport_params sm tp =
     (let sc1 = sc_update_max_data (sm_send_capacity sm) (stp_initial_max_data tp);
          sm1 = sm\<lparr>sm_peer_transport_params := tp, sm_send_capacity := sc1\<rparr>
      in attempt sm1 (sc_update_capacity sc1) (\<lambda>sc2.
        (sm1\<lparr>sm_send_capacity := sc2,
             sm_concurrency_control :=
               cc_update_peer_max_streams
                 (cc_update_peer_max_streams (sm_concurrency_control sm1) True (stp_initial_max_streams_bidi tp))
                 False (stp_initial_max_streams_uni tp)\<rparr>, Ok ())))"

end
