(* ===== verification/Stream_Map_Inv.thy ===== *)
theory Stream_Map_Inv
  imports Stream_Map
begin

text \<open>
  The invariant of the stream manager and what every operation keeps of it. The ghost streams
  \<open>c sid\<close> and \<open>w sid\<close> are the bytes the peer and the local application put on stream
  \<open>sid\<close>. The invariant carries slack: between two steps of one handler a stream may be ahead
  of the connection's totals by \<open>t\<close> written and \<open>r\<close> received bytes, and the streams in
  \<open>X\<close> may still be waiting to be queued. Outside a handler the slack is zero.
\<close>

section \<open>The invariant\<close>

definition st_ok :: "(nat \<Rightarrow> 'b) \<Rightarrow> (nat \<Rightarrow> 'b) \<Rightarrow> ('b, 'c) stream \<Rightarrow> bool" where
  "st_ok c w st \<longleftrightarrow> rv_inv c (st_recv st) \<and> sb_inv w (st_send st)"

definition sm_created :: "('b, 'c) stream_map \<Rightarrow> nat \<Rightarrow> bool" where
  "sm_created sm sid \<longleftrightarrow>
     sid div 4 \<in> cc_created (sm_concurrency_control sm) (is_local sid (sm_is_server sm)) (is_bidi sid)"

definition sm_core :: "(nat \<Rightarrow> nat \<Rightarrow> 'b) \<Rightarrow> (nat \<Rightarrow> nat \<Rightarrow> 'b) \<Rightarrow> ('b, 'c) stream_map \<Rightarrow> bool" where
  "sm_core c w sm \<longleftrightarrow> bm_sorted (sm_streams sm) \<and> cc_inv (sm_concurrency_control sm) \<and>
     (\<forall>sid st. sm_get sm sid = Some st \<longrightarrow>
        sid \<le> VINT_MAX \<and> sm_created sm sid \<and> st_local st = is_local sid (sm_is_server sm) \<and> st_bidi st = is_bidi sid \<and>
        fc_max_window (rv_flow_control (st_recv st)) = sm_max_stream_window sm \<and> st_ok (c sid) (w sid) st)"

abbreviation sm_written :: "('b, 'c) stream_map \<Rightarrow> nat" where
  "sm_written sm \<equiv> bm_sum (\<lambda>st. sb_write_off (st_send st)) (sm_streams sm)"

abbreviation sm_received :: "('b, 'c) stream_map \<Rightarrow> nat" where
  "sm_received sm \<equiv> bm_sum (\<lambda>st. rv_recv_off (st_recv st)) (sm_streams sm)"

definition sm_tx_ok :: "int \<Rightarrow> ('b, 'c) stream_map \<Rightarrow> bool" where
  "sm_tx_ok t sm \<longleftrightarrow>
     (let sc = sm_send_capacity sm in
      sc_tx_data sc \<le> sc_max_data sc \<and> sc_max_data sc \<le> u64_max \<and>
      sc_capacity sc = sc_max_data sc - sc_tx_data sc \<and> int (sm_written sm) \<le> int (sc_tx_data sc) + t)"

definition sm_rx_ok :: "int \<Rightarrow> ('b, 'c) stream_map \<Rightarrow> bool" where
  "sm_rx_ok r sm \<longleftrightarrow>
     (let fc = sm_flow_control sm in
      fc_recv_off fc \<le> fc_max_data fc \<and> int (sm_received sm) \<le> int (fc_recv_off fc) + r \<and>
      fc_window fc \<le> fc_max_window fc \<and> sm_max_stream_window sm < 2 ^ 51 \<and>
      sm_max_stream_window sm + sm_max_stream_window sm div 2 \<le> fc_max_window fc)"

definition stp_ok :: "nat \<Rightarrow> stream_transport_params \<Rightarrow> bool" where
  "stp_ok m tp \<longleftrightarrow> stp_initial_max_stream_data_bidi_local tp \<le> m \<and>
     stp_initial_max_stream_data_bidi_remote tp \<le> m \<and> stp_initial_max_stream_data_uni tp \<le> m"

definition sm_params_ok :: "('b, 'c) stream_map \<Rightarrow> bool" where
  "sm_params_ok sm \<longleftrightarrow> stp_ok (sm_max_stream_window sm) (sm_local_transport_params sm) \<and>
     stp_ok u64_max (sm_local_transport_params sm) \<and> stp_ok VINT_MAX (sm_peer_transport_params sm)"

definition pq_ids :: "stream_priority_queue \<Rightarrow> nat set" where
  "pq_ids q = set (pq_non_incremental q) \<union> set (pq_incremental q)"

definition sm_queued :: "('b, 'c) stream_map \<Rightarrow> nat \<Rightarrow> bool" where
  "sm_queued sm sid \<longleftrightarrow> (\<exists>e \<in> set (sm_sendable sm). sid \<in> pq_ids (snd e))"

definition sm_queues_ok :: "nat set \<Rightarrow> ('b, 'c) stream_map \<Rightarrow> bool" where
  "sm_queues_ok X sm \<longleftrightarrow> bm_sorted (sm_sendable sm) \<and> (\<forall>e \<in> set (sm_sendable sm). pq_ids (snd e) \<noteq> {}) \<and>
     (\<forall>sid st. sm_get sm sid = Some st \<and> sid \<notin> X \<longrightarrow>
        (st_is_sendable st \<longrightarrow> sm_queued sm sid) \<and>
        (st_is_readable st \<and> \<not> st_is_closed st \<longrightarrow> sid \<in> sm_readable sm))"

definition sm_inv ::
    "(nat \<Rightarrow> nat \<Rightarrow> 'b) \<Rightarrow> (nat \<Rightarrow> nat \<Rightarrow> 'b) \<Rightarrow> int \<Rightarrow> int \<Rightarrow> nat set \<Rightarrow> ('b, 'c) stream_map \<Rightarrow> bool" where
  "sm_inv c w t r X sm \<longleftrightarrow>
     sm_core c w sm \<and> sm_tx_ok t sm \<and> sm_rx_ok r sm \<and> sm_params_ok sm \<and> sm_queues_ok X sm"

lemma sm_inv_stream:
  assumes "sm_inv c w t r X sm" "sm_get sm sid = Some st"
  shows "sm_created sm sid" "st_local st = is_local sid (sm_is_server sm)" "st_bidi st = is_bidi sid"
    "st_ok (c sid) (w sid) st" "rv_inv (c sid) (st_recv st)" "sb_inv (w sid) (st_send st)"
    "fc_max_window (rv_flow_control (st_recv st)) = sm_max_stream_window sm" "sid \<le> VINT_MAX"
  using assms by (auto simp: sm_inv_def sm_core_def st_ok_def)

lemma sm_inv_weaken:
  "sm_inv c w t r X sm \<Longrightarrow> t \<le> t' \<Longrightarrow> r \<le> r' \<Longrightarrow> X \<subseteq> X' \<Longrightarrow> sm_inv c w t' r' X' sm"
  by (auto simp: sm_inv_def sm_tx_ok_def sm_rx_ok_def sm_queues_ok_def Let_def)

section \<open>What is delivered\<close>

text \<open>
  The read offset of a stream, and the streams that deliver nothing any more: destroyed ones and
  those whose receive side was reset or shut down.
\<close>

definition sm_ro :: "('b, 'c) stream_map \<Rightarrow> nat \<Rightarrow> nat" where
  "sm_ro sm sid = (case sm_get sm sid of Some st \<Rightarrow> rv_read_off (st_recv st) | None \<Rightarrow> 0)"

definition sm_destroyed :: "('b, 'c) stream_map \<Rightarrow> nat \<Rightarrow> bool" where
  "sm_destroyed sm sid \<longleftrightarrow> sm_created sm sid \<and> sm_get sm sid = None"

definition sm_gone :: "('b, 'c) stream_map \<Rightarrow> nat \<Rightarrow> bool" where
  "sm_gone sm sid \<longleftrightarrow> sm_destroyed sm sid \<or> (\<exists>st. sm_get sm sid = Some st \<and> rv_dead (st_recv st))"

definition rd_emits ::
    "(nat \<Rightarrow> nat \<Rightarrow> 'b) \<Rightarrow> ('b, 'c) stream_map \<Rightarrow> 'b list \<Rightarrow> ('b, 'c) stream_map \<Rightarrow> nat \<Rightarrow> bool" where
  "rd_emits c sm bs sm' sid \<longleftrightarrow>
     bs = map (c sid) [sm_ro sm sid..<sm_ro sm sid + length bs] \<and>
     (sm_gone sm sid \<longrightarrow> bs = [] \<and> sm_gone sm' sid) \<and>
     (\<not> sm_gone sm' sid \<longrightarrow> sm_ro sm' sid = sm_ro sm sid + length bs)"

text \<open>
  The send side: the write offset (zero before a stream is created), the streams that still
  accept data, and the offsets that may be in flight. An accepted byte is appended to an open
  stream, and what was sent stays sent.
\<close>

definition sm_wo :: "('b, 'c) stream_map \<Rightarrow> nat \<Rightarrow> nat" where
  "sm_wo sm sid = (case sm_get sm sid of Some st \<Rightarrow> sb_write_off (st_send st) | None \<Rightarrow> 0)"

definition sm_sent :: "('b, 'c) stream_map \<Rightarrow> nat \<Rightarrow> nat \<Rightarrow> bool" where
  "sm_sent sm sid e \<longleftrightarrow> (case sm_get sm sid of None \<Rightarrow> True | Some st \<Rightarrow> e \<le> sb_unsent_off (st_send st))"

definition sb_open :: "'b send_buf \<Rightarrow> bool" where
  "sb_open s \<longleftrightarrow> sb_error s = None \<and> sb_fin_off s = None"

definition sb_takes :: "'b send_buf \<Rightarrow> nat \<Rightarrow> 'b send_buf \<Rightarrow> bool" where
  "sb_takes s k s' \<longleftrightarrow> (0 < k \<longrightarrow> sb_open s) \<and>
     (sb_open s' \<longrightarrow> sb_open s \<and> sb_write_off s' = sb_write_off s + k) \<and> sb_unsent_off s \<le> sb_unsent_off s'"

lemma sb_takes_refl [simp]: "sb_takes s 0 s"
  by (simp add: sb_takes_def)

text \<open>Marks and limits do not touch the data, and a closed side takes nothing.\<close>

lemma sb_takes_quiet:
  "sb_takes s 0 (s\<lparr>sb_blocked_at := v\<rparr>)" "sb_takes s 0 (sb_update_max_data s m)"
  by (simp_all add: sb_takes_def sb_open_def sb_update_max_data_def)

lemma sb_takes_dead: "sb_dead s' \<Longrightarrow> sb_unsent_off s' = sb_unsent_off s \<Longrightarrow> sb_takes s 0 s'"
  by (simp add: sb_takes_def sb_open_def sb_dead_def)

lemma sb_takes_same:
  "sb_fin_off s' = sb_fin_off s \<Longrightarrow> sb_error s' = sb_error s \<Longrightarrow> sb_write_off s' = sb_write_off s \<Longrightarrow>
    sb_unsent_off s \<le> sb_unsent_off s' \<Longrightarrow> sb_takes s 0 s'"
  by (simp add: sb_takes_def sb_open_def)

definition sm_open :: "('b, 'c) stream_map \<Rightarrow> nat \<Rightarrow> bool" where
  "sm_open sm sid \<longleftrightarrow> \<not> sm_destroyed sm sid \<and> (\<forall>st. sm_get sm sid = Some st \<longrightarrow> sb_open (st_send st))"

definition wr_emits :: "('b, 'c) stream_map \<Rightarrow> nat \<Rightarrow> ('b, 'c) stream_map \<Rightarrow> nat \<Rightarrow> bool" where
  "wr_emits sm k sm' sid \<longleftrightarrow> (0 < k \<longrightarrow> sm_open sm sid) \<and>
     (sm_open sm' sid \<longrightarrow> sm_open sm sid \<and> sm_wo sm' sid = sm_wo sm sid + k) \<and>
     (sm_created sm sid \<longrightarrow> (\<forall>e. sm_sent sm sid e \<longrightarrow> sm_sent sm' sid e))"

text \<open>What the application exchanged with its streams during an operation.\<close>

datatype 'b app_event = AppRead nat "'b list" | AppWrote nat "'b list"

primrec read_by :: "nat \<Rightarrow> 'b app_event \<Rightarrow> 'b list" where
  "read_by sid (AppRead i bs) = (if i = sid then bs else [])"
| "read_by sid (AppWrote i bs) = []"

primrec written_by :: "nat \<Rightarrow> 'b app_event \<Rightarrow> 'b list" where
  "written_by sid (AppRead i bs) = []"
| "written_by sid (AppWrote i bs) = (if i = sid then bs else [])"

definition reads_of :: "nat \<Rightarrow> 'b app_event list \<Rightarrow> 'b list" where
  "reads_of sid out = concat (map (read_by sid) out)"

definition writes_of :: "nat \<Rightarrow> 'b app_event list \<Rightarrow> 'b list" where
  "writes_of sid out = concat (map (written_by sid) out)"

definition sm_evo ::
    "(nat \<Rightarrow> nat \<Rightarrow> 'b) \<Rightarrow> ('b, 'c) stream_map \<Rightarrow> 'b app_event list \<Rightarrow> ('b, 'c) stream_map \<Rightarrow> bool" where
  "sm_evo c sm out sm' \<longleftrightarrow> sm_is_server sm' = sm_is_server sm \<and>
     (\<forall>sid. (sm_created sm sid \<longrightarrow> sm_created sm' sid) \<and> (sm_destroyed sm sid \<longrightarrow> sm_destroyed sm' sid) \<and>
        rd_emits c sm (reads_of sid out) sm' sid \<and> wr_emits sm (length (writes_of sid out)) sm' sid)"

lemma reads_of_simps [simp]:
  "reads_of sid [] = []" "reads_of sid (xs @ ys) = reads_of sid xs @ reads_of sid ys"
  "reads_of sid (x # xs) = read_by sid x @ reads_of sid xs"
  by (auto simp: reads_of_def)

lemma writes_of_simps [simp]:
  "writes_of sid [] = []" "writes_of sid (xs @ ys) = writes_of sid xs @ writes_of sid ys"
  "writes_of sid (x # xs) = written_by sid x @ writes_of sid xs"
  by (auto simp: writes_of_def)

lemmas sm_evo_defs = sm_evo_def rd_emits_def wr_emits_def sm_ro_def sm_wo_def sm_sent_def sm_open_def
  sm_gone_def sm_destroyed_def

lemma rd_emits_trans:
  assumes "rd_emits c s out s' sid" "rd_emits c s' out' s'' sid"
  shows "rd_emits c s (out @ out') s'' sid"
proof (cases "sm_gone s' sid")
  case True
  then show ?thesis using assms by (auto simp: rd_emits_def)
next
  case False
  then have "sm_ro s' sid = sm_ro s sid + length out" using assms(1) by (simp add: rd_emits_def)
  moreover have "out @ out' = map (c sid) [sm_ro s sid..<sm_ro s sid + length out + length out']"
    using assms calculation unfolding rd_emits_def by (metis le_add1 map_append upt_add_eq_append)
  ultimately show ?thesis using assms False by (auto simp: rd_emits_def add.assoc)
qed

lemma wr_emits_trans:
  assumes "wr_emits s k s' sid" "wr_emits s' k' s'' sid" "sm_created s sid \<longrightarrow> sm_created s' sid"
  shows "wr_emits s (k + k') s'' sid"
  using assms by (auto simp: wr_emits_def)

lemma sm_evo_trans: "sm_evo c s out s' \<Longrightarrow> sm_evo c s' out' s'' \<Longrightarrow> sm_evo c s (out @ out') s''"
  by (auto simp: sm_evo_def intro: rd_emits_trans wr_emits_trans)

lemmas sm_evo_trans0 = sm_evo_trans[where out = "[]", unfolded append_Nil]

lemma sm_evo_refl: "sm_evo c s [] s"
  by (simp add: sm_evo_def rd_emits_def wr_emits_def)

text \<open>Steps that leave the streams alone and forget no created stream.\<close>

lemma sm_evo_same:
  assumes "sm_streams sm' = sm_streams sm" "sm_is_server sm' = sm_is_server sm"
    "\<And>l b. cc_created (sm_concurrency_control sm) l b \<subseteq> cc_created (sm_concurrency_control sm') l b"
  shows "sm_evo c sm [] sm'"
proof -
  have "sm_created sm sid \<longrightarrow> sm_created sm' sid" for sid using assms(2,3) by (auto simp: sm_created_def)
  then show ?thesis using assms
    by (auto simp: sm_evo_defs sm_get_def)
qed

section \<open>Marks\<close>

lemmas sm_mark_defs = sm_mark_readable_def sm_mark_writable_def sm_mark_almost_full_def
  sm_mark_blocked_def sm_mark_reset_def sm_mark_stopped_def sm_update_data_blocked_at_def
  sm_update_streams_blocked_at_def sc_update_blocked_at_def

lemmas sm_inv_parts = sm_core_def sm_tx_ok_def sm_rx_ok_def sm_params_ok_def sm_queues_ok_def
  sm_created_def sm_get_def sm_queued_def Let_def

named_theorems sm_frame \<open>what a step leaves of the invariant and of the parts it is about\<close>

lemma sm_inv_marks [sm_frame]:
  "sm_inv c w t r X (sm_mark_writable sm sid b) \<longleftrightarrow> sm_inv c w t r X sm"
  "sm_inv c w t r X (sm_mark_almost_full sm sid b) \<longleftrightarrow> sm_inv c w t r X sm"
  "sm_inv c w t r X (sm_mark_blocked sm sid b n) \<longleftrightarrow> sm_inv c w t r X sm"
  "sm_inv c w t r X (sm_mark_reset sm sid b n m) \<longleftrightarrow> sm_inv c w t r X sm"
  "sm_inv c w t r X (sm_mark_stopped sm sid b n) \<longleftrightarrow> sm_inv c w t r X sm"
  "sm_inv c w t r X (sm_update_data_blocked_at sm v) \<longleftrightarrow> sm_inv c w t r X sm"
  "sm_inv c w t r X (sm\<lparr>sm_rx_almost_full := b\<rparr>) \<longleftrightarrow> sm_inv c w t r X sm"
  "sm_inv c w t r X (sm\<lparr>sm_events := ev\<rparr>) \<longleftrightarrow> sm_inv c w t r X sm"
  "sm_inv c w t r X (sm\<lparr>sm_writable := wr\<rparr>) \<longleftrightarrow> sm_inv c w t r X sm"
  by (simp_all add: sm_inv_def sm_mark_defs sm_inv_parts)

lemma sm_evo_target:
  assumes "sm_streams sm' = sm_streams sm" "sm_is_server sm' = sm_is_server sm"
    "sm_concurrency_control sm' = sm_concurrency_control sm"
  shows "sm_evo c s out sm' \<longleftrightarrow> sm_evo c s out sm"
  using assms by (simp add: sm_evo_defs sm_created_def sm_get_def)

lemma sm_evo_marks [sm_frame]:
  "sm_evo c s out (sm_mark_readable sm sid b) \<longleftrightarrow> sm_evo c s out sm"
  "sm_evo c s out (sm_mark_writable sm sid b) \<longleftrightarrow> sm_evo c s out sm"
  "sm_evo c s out (sm_mark_almost_full sm sid b) \<longleftrightarrow> sm_evo c s out sm"
  "sm_evo c s out (sm_mark_blocked sm sid b n) \<longleftrightarrow> sm_evo c s out sm"
  "sm_evo c s out (sm_mark_reset sm sid b n m) \<longleftrightarrow> sm_evo c s out sm"
  "sm_evo c s out (sm_mark_stopped sm sid b n) \<longleftrightarrow> sm_evo c s out sm"
  "sm_evo c s out (sm_update_data_blocked_at sm v) \<longleftrightarrow> sm_evo c s out sm"
  "sm_evo c s out (sm_push_sendable sm sid u i) \<longleftrightarrow> sm_evo c s out sm"
  "sm_evo c s out (sm\<lparr>sm_rx_almost_full := b\<rparr>) \<longleftrightarrow> sm_evo c s out sm"
  "sm_evo c s out (sm\<lparr>sm_events := ev\<rparr>) \<longleftrightarrow> sm_evo c s out sm"
  "sm_evo c s out (sm\<lparr>sm_writable := wr\<rparr>) \<longleftrightarrow> sm_evo c s out sm"
  "sm_evo c s out (sm\<lparr>sm_send_capacity := sc\<rparr>) \<longleftrightarrow> sm_evo c s out sm"
  "sm_evo c s out (sm\<lparr>sm_flow_control := fc\<rparr>) \<longleftrightarrow> sm_evo c s out sm"
  by (rule sm_evo_target; simp add: sm_mark_defs sm_push_sendable_def Let_def)+

lemma sm_get_marks [sm_frame]:
  "sm_get (sm_mark_readable sm sid b) = sm_get sm" "sm_get (sm_mark_writable sm sid b) = sm_get sm"
  "sm_get (sm_mark_almost_full sm sid b) = sm_get sm" "sm_get (sm_mark_blocked sm sid b n) = sm_get sm"
  "sm_get (sm_mark_reset sm sid b n m) = sm_get sm" "sm_get (sm_mark_stopped sm sid b n) = sm_get sm"
  "sm_get (sm_update_data_blocked_at sm v) = sm_get sm" "sm_get (sm_push_sendable sm sid u i) = sm_get sm"
  "sm_get (sm_put sm sid st) = (sm_get sm)(sid \<mapsto> st)"
  by (auto simp: sm_get_def sm_mark_defs sm_push_sendable_def sm_put_def Let_def bm_get_insert fun_eq_iff)

lemma sm_parts_marks [sm_frame]:
  "sm_send_capacity (sm_mark_readable sm sid b) = sm_send_capacity sm"
  "sm_send_capacity (sm_mark_writable sm sid b) = sm_send_capacity sm"
  "sm_send_capacity (sm_mark_almost_full sm sid b) = sm_send_capacity sm"
  "sm_send_capacity (sm_mark_blocked sm sid b n) = sm_send_capacity sm"
  "sm_send_capacity (sm_push_sendable sm sid u i) = sm_send_capacity sm"
  "sm_send_capacity (sm_put sm sid st) = sm_send_capacity sm"
  "sm_flow_control (sm_mark_readable sm sid b) = sm_flow_control sm"
  "sm_flow_control (sm_mark_almost_full sm sid b) = sm_flow_control sm"
  "sm_flow_control (sm_mark_stopped sm sid b n) = sm_flow_control sm"
  "sm_flow_control (sm_update_data_blocked_at sm v) = sm_flow_control sm"
  "sm_flow_control (sm_put sm sid st) = sm_flow_control sm"
  "sm_is_server (sm_mark_readable sm sid b) = sm_is_server sm"
  "sm_is_server (sm_update_data_blocked_at sm v) = sm_is_server sm"
  "sm_is_server (sm_put sm sid st) = sm_is_server sm"
  "sm_max_stream_window (sm_put sm sid st) = sm_max_stream_window sm"
  "sm_readable (sm_put sm sid st) = sm_readable sm" "sm_readable (sm_push_sendable sm sid u i) = sm_readable sm"
  "sm_readable (sm_mark_readable sm sid b) = (if b then insert sid (sm_readable sm) else sm_readable sm - {sid})"
  "sm_readable (sm_mark_almost_full sm sid b) = sm_readable sm"
  "sm_queued (sm_put sm sid st) = sm_queued sm" "sm_queued (sm_mark_readable sm sid b) = sm_queued sm"
  "sm_concurrency_control (sm_put sm sid st) = sm_concurrency_control sm"
  "sm_streams (sm_put sm sid st) = bm_insert sid st (sm_streams sm)"
  "sm_sendable (sm_put sm sid st) = sm_sendable sm" "sm_created (sm_put sm sid st) = sm_created sm"
  by (auto simp: sm_mark_defs sm_push_sendable_def sm_put_def Let_def sm_queued_def sm_created_def fun_eq_iff)

lemma sm_inv_mark_readable:
  assumes "sm_inv c w t r X sm"
  shows "sm_inv c w t r X (sm_mark_readable sm sid True)"
    "sm_inv c w t r (insert sid X) (sm_mark_readable sm sid False)"
  using assms by (auto simp: sm_inv_def sm_mark_readable_def sm_inv_parts)

text \<open>The streams in \<open>X\<close> that are queued after all.\<close>

lemma sm_inv_settle:
  assumes "sm_inv c w t r (insert sid X) sm"
    "\<And>st. sm_get sm sid = Some st \<Longrightarrow> (st_is_sendable st \<longrightarrow> sm_queued sm sid) \<and>
       (st_is_readable st \<and> \<not> st_is_closed st \<longrightarrow> sid \<in> sm_readable sm)"
  shows "sm_inv c w t r X sm"
proof -
  have "sm_queues_ok X sm" using assms unfolding sm_inv_def sm_queues_ok_def by (metis insert_iff)
  then show ?thesis using assms(1) by (simp add: sm_inv_def)
qed

lemma sm_inv_queues:
  assumes "sm_inv c w t r X sm" "sm_get sm sid = Some st" "sid \<notin> X"
  shows "st_is_sendable st \<Longrightarrow> sm_queued sm sid"
    "st_is_readable st \<Longrightarrow> \<not> st_is_closed st \<Longrightarrow> sid \<in> sm_readable sm"
  using assms by (auto simp: sm_inv_def sm_queues_ok_def)

subsection \<open>Queueing a stream to send\<close>

lemma sm_queued_push:
  assumes s: "bm_sorted (sm_sendable sm)"
  shows "sm_queued (sm_push_sendable sm sid u i) x \<longleftrightarrow> x = sid \<or> sm_queued sm x"
    "\<forall>e \<in> set (sm_sendable sm). pq_ids (snd e) \<noteq> {} \<Longrightarrow>
      \<forall>e \<in> set (sm_sendable (sm_push_sendable sm sid u i)). pq_ids (snd e) \<noteq> {}"
proof -
  let ?S = "set (sm_sendable sm)"
  define q where "q = (case bm_get (sm_sendable sm) u of None \<Rightarrow> pq_default | Some q \<Rightarrow> q)"
  define q' where "q' = (if \<not> i then q\<lparr>pq_non_incremental := insort sid (pq_non_incremental q)\<rparr>
                     else q\<lparr>pq_incremental := pq_incremental q @ [sid]\<rparr>)"
  have ids: "pq_ids q' = insert sid (pq_ids q)" by (auto simp: q'_def pq_ids_def set_insort_key)
  have ins: "sm_sendable (sm_push_sendable sm sid u i) = bm_insert u q' (sm_sendable sm)"
    by (simp add: sm_push_sendable_def q'_def q_def Let_def)
  then show "\<forall>e \<in> set (sm_sendable sm). pq_ids (snd e) \<noteq> {} \<Longrightarrow>
      \<forall>e \<in> set (sm_sendable (sm_push_sendable sm sid u i)). pq_ids (snd e) \<noteq> {}"
    using ids set_bm_insert[OF s] by auto
  have "sm_queued (sm_push_sendable sm sid u i) x \<longleftrightarrow>
      x \<in> pq_ids q' \<or> (\<exists>e \<in> ?S. fst e \<noteq> u \<and> x \<in> pq_ids (snd e))"
    unfolding sm_queued_def ins using set_bm_insert[OF s] by (simp, force)
  moreover have "x \<in> pq_ids q \<longleftrightarrow> (\<exists>e \<in> ?S. fst e = u \<and> x \<in> pq_ids (snd e))"
  proof (cases "bm_get (sm_sendable sm) u")
    case None
    then have "q = pq_default" by (simp add: q_def)
    then show ?thesis using None by (auto simp: bm_get_None pq_default_def pq_ids_def)
  next
    case (Some q0)
    then have "(u, q0) \<in> ?S" "\<forall>e \<in> ?S. fst e = u \<longrightarrow> snd e = q0"
      using s bm_get_iff by (metis, metis option.inject prod.collapse)
    then show ?thesis using Some by (force simp: q_def)
  qed
  ultimately show "sm_queued (sm_push_sendable sm sid u i) x \<longleftrightarrow> x = sid \<or> sm_queued sm x"
    unfolding sm_queued_def ids by blast
qed

lemma sm_inv_push:
  assumes "sm_inv c w t r X sm"
  shows "sm_inv c w t r X (sm_push_sendable sm sid u i)"
proof -
  have s: "bm_sorted (sm_sendable sm)" using assms by (simp add: sm_inv_def sm_queues_ok_def)
  have "bm_sorted (sm_sendable (sm_push_sendable sm sid u i))" using s by (simp add: sm_push_sendable_def Let_def)
  moreover have "sm_readable (sm_push_sendable sm sid u i) = sm_readable sm"
    by (simp add: sm_push_sendable_def Let_def)
  ultimately have "sm_queues_ok X (sm_push_sendable sm sid u i)"
    using assms sm_queued_push(2)[OF s] by (simp add: sm_queues_ok_def sm_queued_push(1)[OF s] sm_frame sm_inv_def)
  moreover have "sm_core c w (sm_push_sendable sm sid u i)" "sm_tx_ok t (sm_push_sendable sm sid u i)"
    "sm_rx_ok r (sm_push_sendable sm sid u i)" "sm_params_ok (sm_push_sendable sm sid u i)"
    using assms by (simp_all add: sm_inv_def sm_core_def sm_tx_ok_def sm_rx_ok_def sm_params_ok_def
        sm_created_def sm_get_def sm_push_sendable_def Let_def)
  ultimately show ?thesis by (simp add: sm_inv_def)
qed

section \<open>Changing, creating and closing a stream\<close>

lemma sm_inv_put:
  assumes inv: "sm_inv c w t r X sm" and st: "sm_get sm sid = Some st"
    and ok: "st_ok (c sid) (w sid) st'" "st_local st' = st_local st" "st_bidi st' = st_bidi st"
      "fc_max_window (rv_flow_control (st_recv st')) = fc_max_window (rv_flow_control (st_recv st))"
    and t: "t + int (sb_write_off (st_send st')) - int (sb_write_off (st_send st)) \<le> t'"
    and r: "r + int (rv_recv_off (st_recv st')) - int (rv_recv_off (st_recv st)) \<le> r'"
    and X: "X \<subseteq> X'" "sid \<notin> X' \<Longrightarrow> (st_is_sendable st' \<longrightarrow> sm_queued sm sid) \<and>
       (st_is_readable st' \<and> \<not> st_is_closed st' \<longrightarrow> sid \<in> sm_readable sm)"
  shows "sm_inv c w t' r' X' (sm_put sm sid st')"
proof -
  have s: "bm_sorted (sm_streams sm)" using inv by (simp add: sm_inv_def sm_core_def)
  have "sm_core c w (sm_put sm sid st')"
    using inv ok sm_inv_stream[OF inv st] by (auto simp: sm_core_def sm_inv_def sm_frame)
  moreover have "sm_tx_ok t' (sm_put sm sid st')"
    using inv t bm_sum_insert[OF s, of "\<lambda>st. sb_write_off (st_send st)" sid st'] st
    by (simp add: sm_inv_def sm_tx_ok_def Let_def sm_put_def sm_get_def)
  moreover have "sm_rx_ok r' (sm_put sm sid st')"
    using inv r bm_sum_insert[OF s, of "\<lambda>st. rv_recv_off (st_recv st)" sid st'] st
    by (simp add: sm_inv_def sm_rx_ok_def Let_def sm_put_def sm_get_def)
  moreover have "sm_params_ok (sm_put sm sid st')" using inv by (simp add: sm_inv_def sm_params_ok_def sm_put_def)
  moreover have "sm_queues_ok X' (sm_put sm sid st')"
    using inv X by (auto simp: sm_inv_def sm_queues_ok_def sm_frame)
  ultimately show ?thesis by (simp add: sm_inv_def)
qed

text \<open>Changing the buffers of a stream: the usual case, with the stream exempt from the queues.\<close>

lemma sm_inv_put_recv:
  assumes "sm_inv c w t r X sm" "sm_get sm sid = Some st" "rv_inv (c sid) rv" "rv_emits (c sid) (st_recv st) bs rv"
  shows "sm_inv c w t (r + int (rv_recv_off rv) - int (rv_recv_off (st_recv st))) (insert sid X)
    (sm_put sm sid (st\<lparr>st_recv := rv\<rparr>))"
  by (rule sm_inv_put[OF assms(1,2)])
    (use assms sm_inv_stream[OF assms(1,2)] in \<open>auto simp: st_ok_def rv_emits_def\<close>)

lemma sm_inv_put_send:
  assumes "sm_inv c w t r X sm" "sm_get sm sid = Some st" "sb_inv (w sid) s"
  shows "sm_inv c w (t + int (sb_write_off s) - int (sb_write_off (st_send st))) r (insert sid X)
    (sm_put sm sid (st\<lparr>st_send := s\<rparr>))"
  by (rule sm_inv_put[OF assms(1,2)]) (use assms sm_inv_stream[OF assms(1,2)] in \<open>auto simp: st_ok_def\<close>)

lemma sm_evo_put:
  assumes st: "sm_get sm sid = Some st" "sm_created sm sid" and rv: "rv_emits (c sid) (st_recv st) bs (st_recv st')"
    and sb: "sb_takes (st_send st) (length bs') (st_send st')"
  shows "sm_evo c sm [AppRead sid bs, AppWrote sid bs'] (sm_put sm sid st')"
proof -
  have "rd_emits c sm (if i = sid then bs else []) (sm_put sm sid st') i" for i
    using st rv by (auto simp: rd_emits_def sm_ro_def sm_gone_def sm_destroyed_def sm_frame rv_emits_def)
  moreover have "wr_emits sm (if i = sid then length bs' else 0) (sm_put sm sid st') i" for i
    using st sb by (auto simp: wr_emits_def sm_open_def sm_wo_def sm_sent_def sm_destroyed_def sm_frame sb_takes_def)
  ultimately show ?thesis using st
    by (auto simp: sm_evo_def sm_frame sm_destroyed_def) (metis (full_types) length_0_conv)+
qed

lemma sm_evo_quiet: "sm_evo c sm [AppRead sid []] sm' \<longleftrightarrow> sm_evo c sm [] sm'"
  "sm_evo c sm [AppWrote sid []] sm' \<longleftrightarrow> sm_evo c sm [] sm'"
  "sm_evo c sm [AppRead sid bs, AppWrote sid []] sm' \<longleftrightarrow> sm_evo c sm [AppRead sid bs] sm'"
  "sm_evo c sm [AppRead sid [], AppWrote sid bs] sm' \<longleftrightarrow> sm_evo c sm [AppWrote sid bs] sm'"
  by (simp_all add: sm_evo_def)

lemma rv_emits_refl: "rv_inv c rv \<Longrightarrow> rv_emits c rv [] rv"
  by (simp add: rv_emits_def rv_inv_def)

text \<open>Changes of one side leave the other alone.\<close>

lemma sm_evo_put_recv:
  assumes "sm_get sm sid = Some st" "rv_emits (c sid) (st_recv st) bs (st_recv st')" "sm_created sm sid"
    "st_send st' = st_send st"
  shows "sm_evo c sm [AppRead sid bs] (sm_put sm sid st')"
  using sm_evo_put[of sm sid st c bs st' "[]"] assms by (simp add: sm_evo_quiet)

lemma sm_evo_put_send:
  assumes "sm_inv c w t r X sm" "sm_get sm sid = Some st" "st_recv st' = st_recv st"
    "sb_takes (st_send st) (length bs) (st_send st')"
  shows "sm_evo c sm [AppWrote sid bs] (sm_put sm sid st')"
  using sm_evo_put[OF assms(2), of c "[]" st' bs] sm_inv_stream(1)[OF assms(1,2)]
    rv_emits_refl[OF sm_inv_stream(5)[OF assms(1,2)]] assms(3,4)
  by (simp add: sm_evo_quiet)

lemma sm_evo_put_quiet:
  assumes "sm_inv c w t r X sm" "sm_get sm sid = Some st" "st_recv st' = st_recv st"
    "sb_takes (st_send st) 0 (st_send st')"
  shows "sm_evo c sm [] (sm_put sm sid st')"
  using sm_evo_put_send[OF assms(1-3), of "[]"] assms(4) by (simp add: sm_evo_quiet)

subsection \<open>Closing\<close>

lemma sm_inv_cc:
  assumes "sm_inv c w t r X sm" "cc_inv cc" "cc_created cc = cc_created (sm_concurrency_control sm)"
  shows "sm_inv c w t r X (sm\<lparr>sm_concurrency_control := cc\<rparr>)"
  using assms by (simp add: sm_inv_def sm_inv_parts)

lemma sm_inv_destroy:
  assumes inv: "sm_inv c w t r X sm"
  shows "sm_inv c w t r X (sm_stream_destroy sm sid)"
proof -
  have s: "bm_sorted (sm_streams sm)" using inv by (simp add: sm_inv_def sm_core_def)
  have "sm_written (sm_stream_destroy sm sid) \<le> sm_written sm"
    "sm_received (sm_stream_destroy sm sid) \<le> sm_received sm"
    using bm_sum_remove[OF s, of "\<lambda>st. sb_write_off (st_send st)" sid]
      bm_sum_remove[OF s, of "\<lambda>st. rv_recv_off (st_recv st)" sid] by (simp_all add: sm_stream_destroy_def)
  moreover have "sm_get (sm_stream_destroy sm sid) x = (if x = sid then None else sm_get sm x)" for x
    by (simp add: sm_get_def sm_stream_destroy_def bm_get_remove)
  ultimately show ?thesis using inv s
    by (auto simp: sm_inv_def sm_core_def sm_tx_ok_def sm_rx_ok_def sm_params_ok_def sm_queues_ok_def
        sm_created_def sm_queued_def Let_def sm_stream_destroy_def split: if_splits)
qed

lemma sm_evo_destroy:
  assumes "sm_get sm sid = None \<or> sm_created sm sid"
  shows "sm_evo c sm [] (sm_stream_destroy sm sid)"
proof -
  have cr: "sm_created (sm_stream_destroy sm sid) = sm_created sm"
    by (simp add: fun_eq_iff sm_created_def sm_stream_destroy_def)
  have "sm_get (sm_stream_destroy sm sid) x = (if x = sid then None else sm_get sm x)" for x
    by (simp add: sm_get_def sm_stream_destroy_def bm_get_remove)
  moreover have "sm_is_server (sm_stream_destroy sm sid) = sm_is_server sm" by (simp add: sm_stream_destroy_def)
  ultimately show ?thesis using assms
    by (auto simp: sm_evo_defs cr)
qed

lemma sm_mark_closed_ok:
  assumes inv: "sm_inv c w t r X sm"
  shows "sm_inv c w t r X (sm_mark_closed sm sid loc)" "sm_evo c sm [] (sm_mark_closed sm sid loc)"
    "sm_flow_control (sm_mark_closed sm sid loc) = sm_flow_control sm"
proof -
  let ?cc = "sm_concurrency_control sm"
  define sm1 where "sm1 = (if \<not> loc then
      sm\<lparr>sm_concurrency_control := cc_increase_max_streams_credits ?cc (is_bidi sid) 1\<rparr> else sm)"
  define sm2 where "sm2 = sm_mark_writable (sm_mark_readable sm1 sid False) sid False"
  define sm3 where "sm3 = (case sm_get sm2 sid of Some st \<Rightarrow> sm_put sm2 sid (st_mark_closed st) | None \<Rightarrow> sm2)"
  define sm4 where "sm4 = sm3\<lparr>sm_events := fst (eq_add (sm_events sm3) (StreamClosed sid))\<rparr>"
  have def: "sm_mark_closed sm sid loc = (if sm_is_closed sm sid then sm
      else if snd (eq_add (sm_events sm3) (StreamClosed sid)) then sm4 else sm_stream_destroy sm4 sid)"
    unfolding sm_mark_closed_def Let_def split_beta
      sm1_def[symmetric] sm2_def[symmetric] sm3_def[symmetric] sm4_def[symmetric] by (rule refl)
  have cc: "cc_inv ?cc" using inv by (simp add: sm_inv_def sm_core_def)
  have i1: "sm_inv c w t r X sm1" "sm_evo c sm [] sm1"
    unfolding sm1_def using inv cc_increase_max_streams_credits_spec[OF cc]
    by (auto intro!: sm_inv_cc sm_evo_same sm_evo_refl)
  then have i2: "sm_inv c w t r (insert sid X) sm2" "sm_evo c sm [] sm2"
    unfolding sm2_def using sm_inv_mark_readable(2) by (auto simp: sm_frame)
  have get: "sm_get sm2 = sm_get sm" by (auto simp: sm2_def sm1_def sm_frame sm_get_def fun_eq_iff)
  have q: "sm_queued sm2 = sm_queued sm" "sm_flow_control sm2 = sm_flow_control sm"
    by (auto simp: sm2_def sm1_def sm_mark_defs sm_queued_def fun_eq_iff)
  have i3: "sm_inv c w t r X sm3 \<and> sm_evo c sm [] sm3 \<and> sm_flow_control sm3 = sm_flow_control sm"
  proof (cases "sm_get sm sid")
    case None
    then have "sm3 = sm2" by (simp add: sm3_def get)
    then show ?thesis using i2 sm_inv_settle[OF i2(1)] None get q(2) by simp
  next
    case (Some st)
    then have e: "sm3 = sm_put sm2 sid (st_mark_closed st)" by (simp add: sm3_def get)
    have g2: "sm_get sm2 sid = Some st" using Some get by simp
    have a: "sm_inv c w t r (insert sid X) sm3"
      unfolding e by (rule sm_inv_put[OF i2(1) g2])
        (use sm_inv_stream[OF inv Some] in \<open>auto simp: st_mark_closed_def st_ok_def\<close>)
    have cl: "st_is_closed (st_mark_closed st)" "st_is_sendable (st_mark_closed st) = st_is_sendable st"
      by (auto simp: st_is_closed_def st_mark_closed_def st_is_sendable_def)
    have g3: "sm_get sm3 sid = Some (st_mark_closed st)" "sm_queued sm3 = sm_queued sm"
      by (simp_all add: e sm_get_marks sm_parts_marks q(1))
    have "sm_inv c w t r X sm3"
    proof (cases "sid \<in> X")
      case True
      then show ?thesis using a by (simp add: Set.insert_absorb)
    next
      case False
      show ?thesis
        by (rule sm_inv_settle[OF a]) (use g3 cl sm_inv_queues(1)[OF inv Some False] in simp)
    qed
    moreover have "sm_evo c sm2 [] sm3"
      unfolding e by (rule sm_evo_put_quiet[OF i2(1) g2]) (simp_all add: st_mark_closed_def)
    then have "sm_evo c sm [] sm3" by (rule sm_evo_trans0[OF i2(2)])
    ultimately show ?thesis using q(2) by (simp add: e sm_frame)
  qed
  then have i4: "sm_inv c w t r X sm4" "sm_evo c sm [] sm4" "sm_flow_control sm4 = sm_flow_control sm"
    by (simp_all add: sm4_def sm_frame)
  have "sm_get sm4 sid = None \<or> sm_created sm4 sid" 
    using sm_inv_stream(1)[OF i4(1), of sid] by (cases "sm_get sm4 sid") auto
  then have dst: "sm_evo c sm [] (sm_stream_destroy sm4 sid)"
    by (rule sm_evo_trans0[OF i4(2) sm_evo_destroy])
  have "sm_flow_control (sm_stream_destroy sm4 sid) = sm_flow_control sm"
    using i4(3) by (simp add: sm_stream_destroy_def)
  then show "sm_inv c w t r X (sm_mark_closed sm sid loc)" "sm_evo c sm [] (sm_mark_closed sm sid loc)"
    "sm_flow_control (sm_mark_closed sm sid loc) = sm_flow_control sm"
    unfolding def using inv i4 dst sm_inv_destroy[OF i4(1)] by (simp_all add: sm_evo_refl)
qed

subsection \<open>Finding or creating\<close>

lemma sm_new_stream_ok:
  assumes "sm_params_ok sm" "max_stream_data_limit loc bidi (sm_local_transport_params sm)
      (sm_peer_transport_params sm) = (rx, tx)"
  shows "st_ok c w (st_set_trace_id (st_new bidi loc tx rx (sm_max_stream_window sm)) tid)"
proof -
  have "rx \<le> sm_max_stream_window sm" "rx \<le> u64_max" "tx \<le> VINT_MAX"
    using assms by (auto simp: sm_params_ok_def stp_ok_def max_stream_data_limit_def split: if_splits)
  then show ?thesis
    using rv_inv_new[of rx "sm_max_stream_window sm" c] sb_inv_new[of tx w]
    by (simp add: st_ok_def st_new_trace_parts rv_trace_id_irrelevant sb_trace_id_irrelevant)
qed

lemma sm_new_stream_idle:
  fixes bidi loc :: bool and tx rx win :: nat and tid :: string
  defines "st \<equiv> st_set_trace_id (st_new bidi loc tx rx win) tid"
  shows "\<not> st_is_sendable st" "\<not> st_is_readable st" "sb_write_off (st_send st) = 0"
    "rv_recv_off (st_recv st) = 0" "rv_read_off (st_recv st) = 0" "\<not> rv_dead (st_recv st)"
  by (simp_all add: st_def st_is_sendable_def st_is_readable_def st_new_trace_parts sb_ready_def sb_new_def
      rv_ready_def rv_new_def chunks_ready_def rv_dead_def)

text \<open>\<open>get_or_create\<close> as seen by its callers.\<close>

definition sm_found ::
    "(nat \<Rightarrow> nat \<Rightarrow> 'b) \<Rightarrow> (nat \<Rightarrow> nat \<Rightarrow> 'b) \<Rightarrow> int \<Rightarrow> int \<Rightarrow> nat set \<Rightarrow> ('b, 'c) stream_map \<Rightarrow> nat \<Rightarrow>
     ('b, 'c) stream_map \<Rightarrow> ('b, 'c) stream qres \<Rightarrow> bool" where
  "sm_found c w t r X sm sid sm1 res \<longleftrightarrow>
     sm_inv c w t r X sm1 \<and> sm_evo c sm [] sm1 \<and> res \<noteq> Panic \<and>
     sm_send_capacity sm1 = sm_send_capacity sm \<and> sm_flow_control sm1 = sm_flow_control sm \<and>
     sm_is_server sm1 = sm_is_server sm \<and>
     (\<forall>st. res = Ok st \<longrightarrow> sm_get sm1 sid = Some st \<and> sb_write_off (st_send st) = sm_wo sm sid)"

lemma sm_found_create:
  fixes tid :: string
  assumes inv: "sm_inv c w t r X sm" and new: "sm_get sm sid = None" "\<not> sm_is_closed sm sid" "sid \<le> VINT_MAX"
    and loc: "loc = is_local sid (sm_is_server sm)"
    and lim: "max_stream_data_limit loc (is_bidi sid) (sm_local_transport_params sm)
        (sm_peer_transport_params sm) = (rx, tx)"
    and cc: "cc_check_concurrency_limits (sm_concurrency_control sm) sid (sm_is_server sm) = (cc1, Ok ())"
  defines "st \<equiv> st_set_trace_id (st_new (is_bidi sid) loc tx rx (sm_max_stream_window sm)) tid"
  assumes sm1: "sm_streams sm1 = bm_insert sid st (sm_streams sm)"
    "sm_concurrency_control sm1 = cc_remove_avail_id cc1 sid (sm_is_server sm)"
    "sm_is_server sm1 = sm_is_server sm" "sm_send_capacity sm1 = sm_send_capacity sm"
    "sm_flow_control sm1 = sm_flow_control sm" "sm_max_stream_window sm1 = sm_max_stream_window sm"
    "sm_local_transport_params sm1 = sm_local_transport_params sm"
    "sm_peer_transport_params sm1 = sm_peer_transport_params sm" "sm_sendable sm1 = sm_sendable sm"
    "sm_readable sm1 = sm_readable sm"
  shows "sm_found c w t r X sm sid sm1 (Ok st)"
proof -
  have s: "bm_sorted (sm_streams sm)" and ci: "cc_inv (sm_concurrency_control sm)" and p: "sm_params_ok sm"
    using inv by (simp_all add: sm_inv_def sm_core_def)
  note op = cc_open_spec[OF ci cc, folded sm1(2)]
  have cr: "sm_created sm x \<longrightarrow> sm_created sm1 x" for x
    using op(2,3) by (cases "(is_local x (sm_is_server sm), is_bidi x) = (is_local sid (sm_is_server sm), is_bidi sid)")
      (auto simp: sm_created_def sm1(3))
  have here: "sm_created sm1 sid" using op(2) by (simp add: sm_created_def sm1(3))
  have fresh: "\<not> sm_created sm sid"
    using new(1,2) cc_created_iff[OF ci, of sid "sm_is_server sm"] by (simp add: sm_is_closed_def sm_created_def)
  have get: "sm_get sm1 x = (if x = sid then Some st else sm_get sm x)" for x
    by (simp add: sm_get_def sm1(1) bm_get_insert)
  have parts: "st_local st = is_local sid (sm_is_server sm)" "st_bidi st = is_bidi sid"
    "fc_max_window (rv_flow_control (st_recv st)) = sm_max_stream_window sm"
    by (simp_all add: st_def st_new_trace_parts loc rv_new_def fc_new_def)
  have idle: "\<not> st_is_sendable st" "\<not> st_is_readable st" "sb_write_off (st_send st) = 0"
    "rv_recv_off (st_recv st) = 0" "rv_read_off (st_recv st) = 0" "\<not> rv_dead (st_recv st)"
    unfolding st_def by (rule sm_new_stream_idle)+
  have ok: "st_ok (c sid) (w sid) st" unfolding st_def by (rule sm_new_stream_ok[OF p lim])
  have "sm_core c w sm1"
    using inv op(1) s here cr parts ok new(3) by (auto simp: sm_core_def sm_inv_def get sm1(1,3,6))
  moreover have "sm_tx_ok t sm1"
    using inv bm_sum_insert[OF s, of "\<lambda>st. sb_write_off (st_send st)" sid st] new(1) idle(3)
    by (simp add: sm_inv_def sm_tx_ok_def Let_def sm1 sm_get_def)
  moreover have "sm_rx_ok r sm1"
    using inv bm_sum_insert[OF s, of "\<lambda>st. rv_recv_off (st_recv st)" sid st] new(1) idle(4)
    by (simp add: sm_inv_def sm_rx_ok_def Let_def sm1 sm_get_def)
  moreover have "sm_params_ok sm1" using p by (simp add: sm_params_ok_def sm1)
  moreover have "sm_queues_ok X sm1"
    using inv idle(1,2) by (auto simp: sm_inv_def sm_queues_ok_def get sm_queued_def sm1)
  moreover have "sm_evo c sm [] sm1"
    using cr fresh new(1) idle(3,5,6) by (auto simp: sm_evo_defs get sm1(3))
  ultimately show ?thesis using idle(3) new(1) by (simp add: sm_found_def sm_inv_def sm1 get sm_wo_def)
qed

lemma sm_advance_next_id_parts [sm_frame]:
  "sm_streams (sm_advance_next_id sm sid) = sm_streams sm"
  "sm_concurrency_control (sm_advance_next_id sm sid) = sm_concurrency_control sm"
  "sm_is_server (sm_advance_next_id sm sid) = sm_is_server sm"
  "sm_send_capacity (sm_advance_next_id sm sid) = sm_send_capacity sm"
  "sm_flow_control (sm_advance_next_id sm sid) = sm_flow_control sm"
  "sm_max_stream_window (sm_advance_next_id sm sid) = sm_max_stream_window sm"
  "sm_local_transport_params (sm_advance_next_id sm sid) = sm_local_transport_params sm"
  "sm_peer_transport_params (sm_advance_next_id sm sid) = sm_peer_transport_params sm"
  "sm_sendable (sm_advance_next_id sm sid) = sm_sendable sm"
  "sm_readable (sm_advance_next_id sm sid) = sm_readable sm"
  by (simp_all add: sm_advance_next_id_def)

lemma sm_get_or_create_new:
  assumes new: "sid \<le> VINT_MAX" "sm_get sm sid = None" "\<not> sm_is_closed sm sid"
      "loc = is_local sid (sm_is_server sm)"
    and lim: "max_stream_data_limit loc (is_bidi sid) (sm_local_transport_params sm)
        (sm_peer_transport_params sm) = (rx, tx)"
    and cc: "cc_check_concurrency_limits (sm_concurrency_control sm) sid (sm_is_server sm) = (cc1, q)"
  defines "sm1 \<equiv> sm\<lparr>sm_concurrency_control := cc1\<rparr>"
  defines "sm' \<equiv> sm_advance_next_id (if 1 \<le> tx then sm1\<lparr>sm_writable := insert sid (sm_writable sm1)\<rparr> else sm1) sid"
    and "st \<equiv> st_set_trace_id (st_new (is_bidi sid) loc tx rx (sm_max_stream_window sm1)) (sm_stream_trace_id sm1 sid)"
  shows "sm_get_or_create sm sid loc = attempt sm1 q (\<lambda>_.
    (sm_put (sm'\<lparr>sm_concurrency_control := cc_remove_avail_id (sm_concurrency_control sm') sid (sm_is_server sm'),
       sm_events := fst (eq_add (sm_events sm') (StreamCreated sid))\<rparr>) sid st, Ok st))"
proof -
  have c: "(VINT_MAX < sid) = False" "sm_is_closed sm sid = False" "(loc \<noteq> is_local sid (sm_is_server sm)) = False"
    using new by auto
  show ?thesis
    unfolding sm_get_or_create_def c if_False new(2) option.case Let_def lim cc prod.case st_new_writable
      attempt.simps sm1_def sm'_def st_def by (rule refl)
qed

lemma sm_get_or_create_ok:
  assumes inv: "sm_inv c w t r X sm" and g: "sm_get_or_create sm sid loc = (sm1, res)"
  shows "sm_found c w t r X sm sid sm1 res"
proof (cases "sid > VINT_MAX \<or> sm_get sm sid \<noteq> None \<or> sm_is_closed sm sid \<or> loc \<noteq> is_local sid (sm_is_server sm)")
  case True
  then have "sm1 = sm" "res \<noteq> Panic" "\<And>st. res = Ok st \<Longrightarrow> sm_get sm sid = Some st"
    using g by (auto simp: sm_get_or_create_def split: if_splits option.splits)
  then show ?thesis using inv by (auto simp: sm_found_def sm_evo_refl sm_wo_def)
next
  case False
  let ?cc = "sm_concurrency_control sm"
  have ci: "cc_inv ?cc" using inv by (simp add: sm_inv_def sm_core_def)
  have new: "sid \<le> VINT_MAX" "sm_get sm sid = None" "\<not> sm_is_closed sm sid" "loc = is_local sid (sm_is_server sm)"
    using False by auto
  obtain rx tx where lim: "max_stream_data_limit loc (is_bidi sid) (sm_local_transport_params sm)
      (sm_peer_transport_params sm) = (rx, tx)" by fastforce
  obtain cc1 q where cc: "cc_check_concurrency_limits ?cc sid (sm_is_server sm) = (cc1, q)" by fastforce
  let ?sm1 = "sm\<lparr>sm_concurrency_control := cc1\<rparr>"
  note eq = sm_get_or_create_new[OF new lim cc, unfolded g]
  show ?thesis
  proof (cases q)
    case (Ok u)
    have cc': "cc_check_concurrency_limits ?cc sid (sm_is_server sm) = (cc1, Ok ())" using cc Ok by simp
    let ?st = "st_set_trace_id (st_new (is_bidi sid) loc tx rx (sm_max_stream_window sm)) (sm_stream_trace_id ?sm1 sid)"
    define sm' where "sm' = sm_advance_next_id
      (if 1 \<le> tx then ?sm1\<lparr>sm_writable := insert sid (sm_writable ?sm1)\<rparr> else ?sm1) sid"
    have w: "(sm_max_stream_window ?sm1) = sm_max_stream_window sm" by simp
    have "sm1 = sm_put (sm'\<lparr>sm_concurrency_control := cc_remove_avail_id (sm_concurrency_control sm') sid
        (sm_is_server sm'), sm_events := fst (eq_add (sm_events sm') (StreamCreated sid))\<rparr>) sid ?st"
      and res: "res = Ok ?st"
      using eq[folded sm'_def, unfolded Ok attempt.simps prod.inject w] by blast+
    moreover have "sm_streams sm' = sm_streams sm" "sm_concurrency_control sm' = cc1"
      "sm_is_server sm' = sm_is_server sm" "sm_send_capacity sm' = sm_send_capacity sm"
      "sm_flow_control sm' = sm_flow_control sm" "sm_max_stream_window sm' = sm_max_stream_window sm"
      "sm_local_transport_params sm' = sm_local_transport_params sm"
      "sm_peer_transport_params sm' = sm_peer_transport_params sm" "sm_sendable sm' = sm_sendable sm"
      "sm_readable sm' = sm_readable sm"
      by (simp_all add: sm'_def sm_advance_next_id_parts)
    ultimately have "sm_found c w t r X sm sid sm1 (Ok ?st)"
      by (intro sm_found_create[OF inv new(2,3,1,4) lim cc']) (simp_all add: sm_put_def)
    then show ?thesis by (simp add: res)
  next
    case (Err e)
    then have "sm1 = sm\<lparr>sm_concurrency_control := cc1\<rparr>" "res = Err e" using eq by simp_all
    moreover have "cc_inv cc1 \<and> cc_created cc1 = cc_created ?cc" using cc_check_err[OF ci] cc Err by blast
    ultimately show ?thesis using inv by (auto simp: sm_found_def intro: sm_inv_cc sm_evo_same)
  next
    case Panic
    then show ?thesis using cc_check_iff[OF ci, of sid "sm_is_server sm"] cc by (auto split: if_splits)
  qed
qed

section \<open>Totals of the connection\<close>

lemma sm_inv_fc:
  assumes "sm_inv c w t r X sm" "fc_recv_off fc \<le> fc_max_data fc"
    "int (fc_recv_off (sm_flow_control sm)) + r \<le> int (fc_recv_off fc) + r'"
    "fc_window fc \<le> fc_max_window fc" "fc_max_window fc = fc_max_window (sm_flow_control sm)"
  shows "sm_inv c w t r' X (sm\<lparr>sm_flow_control := fc\<rparr>)"
  using assms by (simp add: sm_inv_def sm_inv_parts)

lemma sm_inv_sc:
  assumes "sm_inv c w t r X sm" "sc_tx_data sc \<le> sc_max_data sc" "sc_max_data sc \<le> u64_max"
    "sc_capacity sc = sc_max_data sc - sc_tx_data sc"
    "int (sc_tx_data (sm_send_capacity sm)) + t \<le> int (sc_tx_data sc) + t'"
  shows "sm_inv c w t' r X (sm\<lparr>sm_send_capacity := sc\<rparr>)"
  using assms by (simp add: sm_inv_def sm_inv_parts)

lemma sm_inv_capacity:
  assumes "sm_inv c w t r X sm"
  shows "sc_tx_data (sm_send_capacity sm) \<le> sc_max_data (sm_send_capacity sm)"
    "sc_max_data (sm_send_capacity sm) \<le> u64_max"
    "sc_capacity (sm_send_capacity sm) = sc_max_data (sm_send_capacity sm) - sc_tx_data (sm_send_capacity sm)"
    "fc_recv_off (sm_flow_control sm) \<le> fc_max_data (sm_flow_control sm)"
    "int (sm_written sm) \<le> int (sc_tx_data (sm_send_capacity sm)) + t"
    "int (sm_received sm) \<le> int (fc_recv_off (sm_flow_control sm)) + r"
    "fc_window (sm_flow_control sm) \<le> fc_max_window (sm_flow_control sm)"
    "sm_max_stream_window sm + sm_max_stream_window sm div 2 \<le> fc_max_window (sm_flow_control sm)"
    "sm_max_stream_window sm < 2 ^ 51"
  using assms by (simp_all add: sm_inv_def sm_tx_ok_def sm_rx_ok_def Let_def)

lemma sm_charge_ok:
  assumes inv: "sm_inv c w t r X sm" and n: "n \<le> sc_capacity (sm_send_capacity sm)"
  shows "\<exists>sc. sm_charge sm n = (sm\<lparr>sm_send_capacity := sc\<rparr>, Ok ()) \<and>
    sm_inv c w (t - int n) r X (sm\<lparr>sm_send_capacity := sc\<rparr>)"
proof -
  let ?sc = "sm_send_capacity sm"
  let ?sc' = "?sc\<lparr>sc_capacity := sc_capacity ?sc - n, sc_tx_data := sc_tx_data ?sc + n\<rparr>"
  note cap = sm_inv_capacity[OF inv]
  have "sm_charge sm n = (sm\<lparr>sm_send_capacity := ?sc'\<rparr>, Ok ())"
    using n cap(1-3) by (simp add: sm_charge_def sub64_def add64_def Let_def)
  moreover have "sm_inv c w (t - int n) r X (sm\<lparr>sm_send_capacity := ?sc'\<rparr>)"
    by (rule sm_inv_sc[OF inv]) (use n cap(1-3) in simp_all)
  ultimately show ?thesis by blast
qed

lemma sm_refund_ok:
  assumes inv: "sm_inv c w (t - int n) r X sm" and t: "t \<le> 0"
  shows "\<exists>sc. sm_refund sm n = (sm\<lparr>sm_send_capacity := sc\<rparr>, Ok ()) \<and>
    sm_inv c w t r X (sm\<lparr>sm_send_capacity := sc\<rparr>)"
proof -
  let ?sc = "sm_send_capacity sm"
  let ?sc' = "?sc\<lparr>sc_capacity := sc_max_data ?sc - (sc_tx_data ?sc - n), sc_tx_data := sc_tx_data ?sc - n\<rparr>"
  note cap = sm_inv_capacity[OF inv]
  have n: "n \<le> sc_tx_data ?sc" using cap(5) t by linarith
  have "sm_refund sm n = (sm\<lparr>sm_send_capacity := ?sc'\<rparr>, Ok ())"
    using cap(1) by (simp add: sm_refund_def sc_update_capacity_def sub64_def Let_def)
  moreover have "sm_inv c w t r X (sm\<lparr>sm_send_capacity := ?sc'\<rparr>)"
    by (rule sm_inv_sc[OF inv]) (use n cap(1,2) in simp_all)
  ultimately show ?thesis by blast
qed

lemma sm_consume_ok:
  assumes inv: "sm_inv c w t r X sm" and k: "sm_consume sm n = (sm', res)" "res \<noteq> Panic"
  shows "res = Ok ()" "sm_inv c w t r X sm'" "sm_evo c s out sm' \<longleftrightarrow> sm_evo c s out sm"
    "sm_get sm' = sm_get sm" "sm_queued sm' = sm_queued sm" "sm_readable sm' = sm_readable sm"
proof -
  let ?fc = "(sm_flow_control sm)\<lparr>fc_read_off := fc_read_off (sm_flow_control sm) + n\<rparr>"
  have "res = Ok () \<and> (sm' = sm\<lparr>sm_flow_control := ?fc\<rparr> \<or> sm' = sm\<lparr>sm_flow_control := ?fc, sm_rx_almost_full := True\<rparr>)"
    using k unfolding sm_consume_def fc_increase_read_off_def fc_should_send_max_data_def res_simps Let_def
    by (auto split: if_splits)
  moreover have "sm_inv c w t r X (sm\<lparr>sm_flow_control := ?fc\<rparr>)"
    by (rule sm_inv_fc[OF inv]) (use sm_inv_capacity(4,7)[OF inv] in simp_all)
  ultimately show "res = Ok ()" "sm_inv c w t r X sm'" "sm_evo c s out sm' \<longleftrightarrow> sm_evo c s out sm"
    "sm_get sm' = sm_get sm" "sm_queued sm' = sm_queued sm" "sm_readable sm' = sm_readable sm"
    by (auto simp: sm_frame sm_get_def sm_queued_def fun_eq_iff)
qed

section \<open>Operations of the application\<close>

lemma sm_mark_closed_closed:
  assumes "sm_get (sm_mark_closed sm sid loc) sid = Some st"
  shows "st_is_closed st"
  using assms
  by (auto simp: sm_mark_closed_def Let_def split_beta sm_stream_destroy_def sm_get_def sm_put_def bm_get_insert
      bm_get_remove sm_is_closed_def st_is_closed_def st_mark_closed_def sm_mark_defs split: if_splits option.splits)

lemma sm_inv_drop_readable:
  assumes inv: "sm_inv c w t r X sm"
    and st: "\<And>st. sm_get sm sid = Some st \<Longrightarrow> \<not> st_is_readable st \<or> st_is_closed st"
  shows "sm_inv c w t r X (sm_mark_readable sm sid False)"
proof (cases "sid \<in> X")
  case True
  then show ?thesis using sm_inv_mark_readable(2)[OF inv, of sid] by (simp add: Set.insert_absorb)
next
  case False
  show ?thesis
    by (rule sm_inv_settle[OF sm_inv_mark_readable(2)[OF inv]])
      (use st sm_inv_queues(1)[OF inv _ False] in \<open>auto simp: sm_get_marks sm_parts_marks\<close>)
qed

lemma rv_read_recv_off: "rv_recv_off (fst (rv_read rv cap)) = rv_recv_off rv"
  by (auto simp: rv_read_def Let_def fc_defs split: option.splits attempt_split)

lemma rv_read_err_empty:
  assumes "rv_inv c rv" "rv_ready rv" "rv_read rv cap = (rv', Err e)"
  shows "rv_data rv' = []"
proof (cases "rv_error rv")
  case None
  then show ?thesis using rv_read_accept[OF assms(1,2) None, of cap] assms(3) by auto
next
  case (Some x)
  then show ?thesis using assms(2,3) by (auto simp: rv_read_def)
qed

lemma rv_should_send_not_Err: "rv_should_send_max_data rv \<noteq> Err e"
  by (auto simp: rv_should_send_max_data_def fc_should_send_max_data_def res_simps)

lemma sm_stream_read_run:
  assumes inv: "sm_inv c w 0 0 {} sm" and st: "sm_get sm sid = Some st" "st_is_readable st"
    and rd: "rv_read (st_recv st) cap = (rv, q)" and sm1: "sm1 = sm_put sm sid (st\<lparr>st_recv := rv\<rparr>)"
  shows "sm_inv c w 0 0 {} sm1" "sm_evo c sm [AppRead sid (case q of Ok (out, fin) \<Rightarrow> out | _ \<Rightarrow> [])] sm1"
    "q \<noteq> Panic"
proof -
  note s = sm_inv_stream[OF inv st(1)]
  have rvi: "rv_inv (c sid) rv" "q \<noteq> Panic" using rv_read_inv[OF s(5), of cap] rd by simp_all
  have off: "rv_recv_off rv = rv_recv_off (st_recv st)" using rv_read_recv_off[of "st_recv st" cap] rd by simp
  have em: "rv_emits (c sid) (st_recv st) (case q of Ok (out, fin) \<Rightarrow> out | _ \<Rightarrow> []) rv"
    using rv_emits_read[OF s(5), of cap] rd by (auto split: res.splits)
  have "sm_inv c w 0 0 (insert sid {}) sm1"
    using sm_inv_put_recv[OF inv st(1) rvi(1) em] by (simp add: off sm1)
  moreover have "(st_is_sendable st' \<longrightarrow> sm_queued sm1 sid) \<and>
      (st_is_readable st' \<and> \<not> st_is_closed st' \<longrightarrow> sid \<in> sm_readable sm1)"
    if "sm_get sm1 sid = Some st'" for st'
    using that sm_inv_queues[OF inv st(1)] st(2)
    by (auto simp: sm1 sm_get_marks sm_parts_marks st_is_sendable_def st_is_closed_def)
  ultimately show "sm_inv c w 0 0 {} sm1" by (rule sm_inv_settle)
  show "sm_evo c sm [AppRead sid (case q of Ok (out, fin) \<Rightarrow> out | _ \<Rightarrow> [])] sm1"
    unfolding sm1 by (intro sm_evo_put_recv[OF st(1) _ s(1)]) (use em in simp_all)
  show "q \<noteq> Panic" by (rule rvi(2))
qed

lemma sm_stream_read_ok:
  assumes inv: "sm_inv c w 0 0 {} sm" and op: "sm_stream_read sm sid cap = (sm', res)" "res \<noteq> Panic"
  shows "sm_inv c w 0 0 {} sm' \<and>
    sm_evo c sm [AppRead sid (case res of Ok (out, fin) \<Rightarrow> out | _ \<Rightarrow> [])] sm'"
proof (cases "\<not> (\<not> is_bidi sid \<and> is_local sid (sm_is_server sm)) \<and>
    (\<exists>st. sm_get sm sid = Some st \<and> st_is_readable st)")
  case False
  then have "sm' = sm" "\<exists>e. res = Err e"
    using op by (auto simp: sm_stream_read_def ok_or_def split: if_splits option.splits)
  then show ?thesis using inv by (auto simp: sm_evo_quiet sm_evo_refl)
next
  case True
  then obtain st where st: "sm_get sm sid = Some st" "st_is_readable st" by blast
  obtain rv q where q: "rv_read (st_recv st) cap = (rv, q)" by fastforce
  define st1 where "st1 = st\<lparr>st_recv := rv\<rparr>"
  define sm1 where "sm1 = sm_put sm sid st1"
  note run = sm_stream_read_run[OF inv st q sm1_def[unfolded st1_def]]
  have get1: "sm_get sm1 sid = Some st1" by (simp add: sm1_def sm_get_marks)
  have c: "(\<not> is_bidi sid \<and> is_local sid (sm_is_server sm)) = False" "(\<not> st_is_readable st) = False"
    using True st(2) by auto
  show ?thesis
  proof (cases q)
    case (Err e)
    let ?sm2 = "if st_is_complete st1 then sm_mark_closed sm1 sid (st_local st) else sm1"
    have r: "sm' = sm_mark_readable ?sm2 sid False" "res = Err e"
      using op True st q Err by (auto simp: sm_stream_read_def st1_def sm1_def Let_def)
    have "rv_data rv = []"
      using rv_read_err_empty[OF sm_inv_stream(5)[OF inv st(1)]] st(2) q Err by (simp add: st_is_readable_def)
    then have "\<not> st_is_readable st1" by (simp add: st1_def st_is_readable_def rv_ready_def chunks_ready_def)
    then have "sm_inv c w 0 0 {} sm'" unfolding r(1)
      using run(1) sm_mark_closed_ok(1)[OF run(1)] get1 sm_mark_closed_closed
      by (intro sm_inv_drop_readable) (auto split: if_splits)
    moreover have "sm_evo c sm [AppRead sid []] sm1" using run(2) Err by simp
    then have "sm_evo c sm [] sm'" unfolding r(1) sm_evo_marks sm_evo_quiet
      using sm_mark_closed_ok(2)[OF run(1), of sid "st_local st"] sm_evo_trans0 by (simp, blast)
    ultimately show ?thesis by (simp add: r(2) sm_evo_quiet)
  next
    case (Ok p)
    obtain out fin where p: "p = (out, fin)" by fastforce
    obtain full where full: "rv_should_send_max_data rv = Ok full"
      using op True st q Ok p rv_should_send_not_Err[of rv]
      by (cases "rv_should_send_max_data rv") (auto simp: sm_stream_read_def Let_def)
    define sm2 where "sm2 = (if full then sm_mark_almost_full sm1 sid True else sm1)"
    obtain sm3 r3 where c3: "sm_consume sm2 (length out) = (sm3, r3)" by fastforce
    let ?sm4 = "if \<not> st_is_readable st1 then sm_mark_readable sm3 sid False else sm3"
    have eq: "(sm', res) = attempt sm3 r3 (\<lambda>_. (if st_is_complete st1 then sm_mark_closed ?sm4 sid (st_local st)
        else ?sm4, Ok (out, fin)))"
      using op(1) unfolding sm_stream_read_def c if_False st(1) ok_or_simps attempt.simps Let_def q prod.case
        Ok res.case p st1_def[symmetric] sm1_def[symmetric] full sm2_def[symmetric] c3 by (rule sym)
    then have r3: "r3 \<noteq> Panic" using op(2) by auto
    have i2: "sm_inv c w 0 0 {} sm2" "sm_evo c sm [AppRead sid out] sm2"
      using run(1,2) Ok p by (simp_all add: sm2_def sm_frame)
    note k = sm_consume_ok[OF i2(1) c3 r3]
    have g3: "sm_get sm3 sid = Some st1" using k(4) get1 by (simp add: sm2_def sm_get_marks)
    have "sm_inv c w 0 0 {} (sm_mark_readable sm3 sid False)" if "\<not> st_is_readable st1"
      by (rule sm_inv_drop_readable[OF k(2)]) (use that g3 in simp)
    then have i4: "sm_inv c w 0 0 {} ?sm4" "sm_evo c sm [AppRead sid out] ?sm4"
      using k(2) i2(2) k(3) by (simp_all add: sm_evo_marks)
    then show ?thesis
      using eq k(1) sm_mark_closed_ok[OF i4(1)] sm_evo_trans[OF i4(2) sm_mark_closed_ok(2)[OF i4(1)]]
      by (auto split: if_splits)
  qed (use run(3) in blast)
qed

lemma sm_want_write_ok:
  assumes inv: "sm_inv c w t r X sm"
  shows "sm_inv c w t r X (fst (sm_want_write sm sid b))" "sm_evo c sm [] (fst (sm_want_write sm sid b))"
proof -
  have "sm_inv c w t r X (fst (sm_want_write sm sid b)) \<and> sm_evo c sm [] (fst (sm_want_write sm sid b))"
  proof (cases "sm_get sm sid")
    case None
    then show ?thesis using inv by (simp add: sm_want_write_def sm_evo_refl)
  next
    case (Some st)
    obtain F where F: "fst (st_mark_wantwrite st b) = st\<lparr>st_flags := F\<rparr>" "Closed \<in> F \<longleftrightarrow> Closed \<in> st_flags st"
      using st_mark_wantwrite_parts[of st b] by blast
    have eq: "fst (sm_want_write sm sid b) = sm_put sm sid (st\<lparr>st_flags := F\<rparr>)"
      by (simp add: sm_want_write_def Some split_beta F(1))
    have "sm_inv c w t r X (sm_put sm sid (st\<lparr>st_flags := F\<rparr>))"
      by (rule sm_inv_put[OF inv Some]) (use sm_inv_stream[OF inv Some] sm_inv_queues[OF inv Some] F(2) in
        \<open>auto simp: st_ok_def st_is_sendable_def st_is_readable_def st_is_closed_def\<close>)
    then show ?thesis unfolding eq by (simp add: sm_evo_put_quiet[OF inv Some])
  qed
  then show "sm_inv c w t r X (fst (sm_want_write sm sid b))" "sm_evo c sm [] (fst (sm_want_write sm sid b))"
    by simp_all
qed

text \<open>
  A write is judged by the bytes it accepted: what the application offered beyond them is not on
  the stream yet.
\<close>

lemma seg_chain_max: "seg_chain a xs b \<Longrightarrow> x \<in> set xs \<Longrightarrow> rb_max_off x \<le> b"
  by (induction a xs b rule: seg_chain.induct) (auto dest: seg_chain_le)

lemma sb_inv_cong:
  assumes "sb_inv c s" "\<And>i. i < sb_write_off s \<Longrightarrow> c' i = c i"
  shows "sb_inv c' s"
proof -
  have "rb_agrees c' b" if "b \<in> set (sb_data s)" for b
  proof -
    have "rb_max_off b \<le> sb_write_off s" using assms(1) that seg_chain_max by (auto simp: sb_inv_def)
    then show ?thesis using assms that by (auto simp: sb_inv_def rb_agrees_def)
  qed
  then show ?thesis using assms(1) by (simp add: sb_inv_def)
qed

lemma st_is_writable_not_Err: "st_is_writable st \<noteq> Err e"
  by (auto simp: st_is_writable_def res_simps split: if_splits)

lemma sb_write_short: "sb_write s d fin = (s', Ok n) \<Longrightarrow> n \<le> length d"
  by (auto simp: sb_write_def Let_def split: if_splits attempt_splits prod.splits)

lemma sm_charge_not_Err: "snd (sm_charge sm n) \<noteq> Err e"
  by (auto simp: sm_charge_def res_simps Let_def split: attempt_splits if_splits)

lemma sm_stream_write_result:
  assumes "attempt sm0 (st_is_writable st) (\<lambda>wb. case sm_charge (g wb) n of
      (sm7, r7) \<Rightarrow> attempt sm7 r7 (\<lambda>_. (h sm7, if n = 0 \<and> P then Err Done else Ok n))) = (sm', res)" "res \<noteq> Panic"
  shows "res = Ok n \<or> n = 0 \<and> res = Err Done"
proof -
  obtain wb where wb: "st_is_writable st = Ok wb"
    using assms st_is_writable_not_Err[of st] by (cases "st_is_writable st") auto
  obtain sm7 r7 where c: "sm_charge (g wb) n = (sm7, r7)" by fastforce
  show ?thesis using assms sm_charge_not_Err[of "g wb" n] by (cases r7) (auto simp: wb c split: if_splits)
qed

lemma sb_write_agreed:
  assumes inv: "sb_inv c s" and d: "d = map c [sb_write_off s..<sb_write_off s + length d]"
    and wr: "sb_write s d fin = (s', q)" "q \<noteq> Panic"
  shows "sb_inv c s' \<and> (\<forall>n. q = Ok n \<longrightarrow> sb_write_off s' = sb_write_off s + n \<and> n \<le> length d \<and> sb_takes s n s') \<and>
    (\<forall>e. q = Err e \<longrightarrow> s' = s)"
proof -
  have ov: "sb_write_off s + length d \<le> u64_max"
    using wr by (auto simp: sb_write_def add64_def split: if_splits)
  have un: "sb_unsent_off s' = sb_unsent_off s" "sb_error s' = sb_error s"
    using wr(1) by (auto simp: sb_write_def Let_def split: if_splits attempt_splits prod.splits)
  show ?thesis
  proof (cases "sb_open s")
    case True
    then show ?thesis using sb_write_open[OF inv _ _ d ov, of fin] wr(1) un
      by (auto simp: sb_open_def sb_takes_def)
  next
    case False
    then show ?thesis using sb_write_closed[OF inv _ ov, of fin] wr(1) inv
      by (auto simp: sb_open_def split: option.splits if_splits)
  qed
qed

lemma sb_write_any:
  assumes inv: "sb_inv c s" and wr: "sb_write s d fin = (s', q)" "q \<noteq> Panic"
    and d: "\<And>n. q = Ok n \<Longrightarrow> take n d = map c [sb_write_off s..<sb_write_off s + n]"
  shows "sb_inv c s'"
    "\<And>n. q = Ok n \<Longrightarrow> sb_write_off s' = sb_write_off s + n \<and> n \<le> length d \<and> sb_takes s n s'"
    "\<And>e. q = Err e \<Longrightarrow> s' = s"
proof -
  let ?wo = "sb_write_off s"
  define c' where "c' i = (if ?wo \<le> i \<and> i < ?wo + length d then d ! (i - ?wo) else c i)" for i
  have "sb_inv c' s" by (rule sb_inv_cong[OF inv]) (simp add: c'_def)
  moreover have "d = map c' [?wo..<?wo + length d]" by (rule nth_equalityI) (simp_all add: c'_def)
  ultimately have w: "sb_inv c' s' \<and>
      (\<forall>n. q = Ok n \<longrightarrow> sb_write_off s' = ?wo + n \<and> n \<le> length d \<and> sb_takes s n s') \<and> (\<forall>e. q = Err e \<longrightarrow> s' = s)"
    using wr by (rule sb_write_agreed)
  show "\<And>n. q = Ok n \<Longrightarrow> sb_write_off s' = ?wo + n \<and> n \<le> length d \<and> sb_takes s n s'" "\<And>e. q = Err e \<Longrightarrow> s' = s"
    using w by blast+
  show "sb_inv c s'"
  proof (cases q)
    case (Ok n)
    have "c i = c' i" if "i < ?wo + n" for i
    proof (cases "?wo \<le> i")
      case True
      then have "take n d ! (i - ?wo) = c i" using that by (simp add: d[OF Ok])
      then show ?thesis using True that w Ok by (auto simp: c'_def)
    qed (simp add: c'_def)
    moreover have "sb_write_off s' = ?wo + n" using w Ok by blast
    ultimately show ?thesis by (intro sb_inv_cong[OF conjunct1[OF w]]) simp
  next
    case (Err e)
    then show ?thesis using w inv by simp
  qed (use wr(2) in simp)
qed

text \<open>What the second half of \<open>stream_write\<close> does to the stream: only the blocked mark.\<close>

lemma sm_note_blocked_ok:
  assumes inv: "sm_inv c w t r X sm" and st: "sm_get sm sid = Some st" and X: "sid \<in> X"
  shows "sm_inv c w t r X (sm_note_blocked sm sid st b)" "sm_evo c sm [] (sm_note_blocked sm sid st b)"
    "\<exists>v. sm_get (sm_note_blocked sm sid st b) sid = Some (st\<lparr>st_send := (st_send st)\<lparr>sb_blocked_at := v\<rparr>\<rparr>)"
    "sm_queued (sm_note_blocked sm sid st b) = sm_queued sm" "sm_readable (sm_note_blocked sm sid st b) = sm_readable sm"
    "sm_send_capacity (sm_note_blocked sm sid st b) = sm_send_capacity sm"
    "sm_sendable (sm_note_blocked sm sid st b) = sm_sendable sm"
proof -
  let ?st = "\<lambda>v. st\<lparr>st_send := sb_update_blocked_at (st_send st) v\<rparr>"
  have put: "sm_inv c w t r X (sm_put sm sid (?st v))" "sm_evo c sm [] (sm_put sm sid (?st v))" for v
    by (rule sm_inv_put[OF inv st]) (use X sm_inv_stream[OF inv st] in
      \<open>auto simp: st_ok_def sb_update_blocked_at_def sb_trace_id_irrelevant sb_takes_quiet intro: sm_evo_put_quiet[OF inv st]\<close>)
  have cases: "sm_note_blocked sm sid st b = sm \<or>
      (\<exists>v b' n. sm_note_blocked sm sid st b = sm_mark_blocked (sm_put sm sid (?st v)) sid b' n)"
    unfolding sm_note_blocked_def Let_def by (simp split: if_split) blast
  show "sm_inv c w t r X (sm_note_blocked sm sid st b)" "sm_evo c sm [] (sm_note_blocked sm sid st b)"
    using cases inv put by (auto simp: sm_frame sm_evo_refl)
  have self: "st\<lparr>st_send := (st_send st)\<lparr>sb_blocked_at := sb_blocked_at (st_send st)\<rparr>\<rparr> = st" by simp
  show "\<exists>v. sm_get (sm_note_blocked sm sid st b) sid = Some (st\<lparr>st_send := (st_send st)\<lparr>sb_blocked_at := v\<rparr>\<rparr>)"
    using cases
  proof (elim disjE exE)
    assume "sm_note_blocked sm sid st b = sm"
    then show ?thesis using st self by (intro exI[of _ "sb_blocked_at (st_send st)"]) simp
  qed (auto simp: sm_get_marks sb_update_blocked_at_def)
  show "sm_queued (sm_note_blocked sm sid st b) = sm_queued sm" "sm_readable (sm_note_blocked sm sid st b) = sm_readable sm"
    "sm_send_capacity (sm_note_blocked sm sid st b) = sm_send_capacity sm"
    "sm_sendable (sm_note_blocked sm sid st b) = sm_sendable sm"
    using cases by (auto simp: sm_mark_blocked_def sm_put_def sm_queued_def fun_eq_iff)
qed

lemma sm_marks_writable_if [sm_frame]:
  "sm_inv c w t r X (if p then sm_mark_writable sm sid b else sm) \<longleftrightarrow> sm_inv c w t r X sm"
  "sm_evo c s out (if p then sm_mark_writable sm sid b else sm) \<longleftrightarrow> sm_evo c s out sm"
  by (simp_all add: sm_frame)

lemma sm_write_buffered_ok:
  assumes inv: "sm_inv c w 0 0 {} sm" and st: "sm_get sm sid = Some st"
    and wr: "sb_inv (w sid) s" "sb_write_off s = sb_write_off (st_send st) + n"
      "n \<le> sc_capacity (sm_send_capacity sm)" "sb_takes (st_send st) n s" "length bs = n"
  defines "st1 \<equiv> st\<lparr>st_send := s\<rparr>"
  assumes sm5: "sm5 = (if (st_is_sendable st1 \<or> emptyfin) \<and> \<not> st_is_sendable st
      then sm_push_sendable (sm_note_blocked (sm_put sm sid st1) sid st1 b) sid u i
      else sm_note_blocked (sm_put sm sid st1) sid st1 b)"
  shows "sm_inv c w (int n) 0 {} sm5" "sm_evo c sm [AppWrote sid bs] sm5" "sm_send_capacity sm5 = sm_send_capacity sm"
proof -
  let ?sm3 = "sm_put sm sid st1" let ?sm4 = "sm_note_blocked ?sm3 sid st1 b"
  have i3: "sm_inv c w (int n) 0 {sid} ?sm3"
    using sm_inv_put_send[OF inv st wr(1)] wr(2) by (simp add: st1_def)
  have g3: "sm_get ?sm3 sid = Some st1" by (simp add: sm_get_marks)
  have e3: "sm_evo c sm [AppWrote sid bs] ?sm3" by (rule sm_evo_put_send[OF inv st]) (simp_all add: st1_def wr(4,5))
  note nb = sm_note_blocked_ok[OF i3 g3, of b]
  have i4: "sm_inv c w (int n) 0 {sid} ?sm4" "sm_evo c sm [AppWrote sid bs] ?sm4"
    using nb(1,2) sm_evo_trans[OF e3, of "[]"] by simp_all
  have i5: "sm_inv c w (int n) 0 {sid} sm5" unfolding sm5 using i4(1) by (simp add: sm_inv_push)
  show "sm_evo c sm [AppWrote sid bs] sm5" unfolding sm5 using i4(2) by (simp add: sm_evo_marks)
  show "sm_send_capacity sm5 = sm_send_capacity sm"
    unfolding sm5 using nb(6) by (simp add: sm_parts_marks)
  have q4: "sm_queued ?sm4 = sm_queued sm" "sm_readable ?sm4 = sm_readable sm" "bm_sorted (sm_sendable ?sm4)"
    using nb(4,5) i4(1) by (simp_all add: sm_parts_marks sm_inv_def sm_queues_ok_def)
  have q5: "sm_queued sm5 sid" if "st_is_sendable st1"
    unfolding sm5 using that sm_queued_push[OF q4(3)] q4(1) sm_inv_queues(1)[OF inv st] by simp
  have r5: "sm_readable sm5 = sm_readable sm" unfolding sm5 using q4(2) by (simp add: sm_push_sendable_def Let_def)
  have g5: "sm_get sm5 = sm_get ?sm4" unfolding sm5 by (simp add: sm_get_marks)
  have settled: "(st_is_sendable st' \<longrightarrow> sm_queued sm5 sid) \<and>
      (st_is_readable st' \<and> \<not> st_is_closed st' \<longrightarrow> sid \<in> sm_readable sm5)" if g: "sm_get sm5 sid = Some st'" for st'
  proof -
    obtain v where "st' = st1\<lparr>st_send := (st_send st1)\<lparr>sb_blocked_at := v\<rparr>\<rparr>"
      using nb(3) g g5 by auto
    then have "st_is_sendable st' = st_is_sendable st1" "st_is_readable st' = st_is_readable st"
      "st_is_closed st' = st_is_closed st"
      by (simp_all add: st1_def st_is_sendable_def st_is_readable_def st_is_closed_def sb_trace_id_irrelevant)
    then show ?thesis using q5 r5 sm_inv_queues(2)[OF inv st] by simp
  qed
  show "sm_inv c w (int n) 0 {} sm5" by (rule sm_inv_settle[OF i5 settled])
qed

lemma sm_stream_write_ok:
  assumes inv: "sm_inv c w 0 0 {} sm" and op: "sm_stream_write sm sid buf fin = (sm', res)" "res \<noteq> Panic"
    and buf: "\<And>n. res = Ok n \<Longrightarrow> take n buf = map (w sid) [sm_wo sm sid..<sm_wo sm sid + n]"
  shows "sm_inv c w 0 0 {} sm' \<and> sm_evo c sm [AppWrote sid (case res of Ok n \<Rightarrow> take n buf | _ \<Rightarrow> [])] sm'"
proof (cases "\<not> is_bidi sid \<and> \<not> is_local sid (sm_is_server sm)")
  case True
  then show ?thesis using op inv by (auto simp: sm_stream_write_def sm_evo_refl sm_evo_quiet)
next
  case False
  let ?sc = "sm_send_capacity sm"
  have left: "sm_max_tx_data_left sm = Ok (sc_max_data ?sc - sc_tx_data ?sc)"
    using sm_inv_capacity(1)[OF inv] by (simp add: sm_max_tx_data_left_def sub64_def)
  define sm1 where "sm1 = (if sc_max_data ?sc - sc_tx_data ?sc < length buf
      then sm_update_data_blocked_at sm (Some (sc_max_data ?sc)) else sm)"
  have i1: "sm_inv c w 0 0 {} sm1" "sm_evo c sm [] sm1" "sm_wo sm1 sid = sm_wo sm sid"
    using inv by (simp_all add: sm1_def sm_frame sm_evo_refl sm_wo_def)
  obtain sm2 q where g: "sm_get_or_create sm1 sid True = (sm2, q)" by fastforce
  have f: "sm_inv c w 0 0 {} sm2" "sm_evo c sm [] sm2" "q \<noteq> Panic" "sm_send_capacity sm2 = sm_send_capacity sm1"
    "\<And>st. q = Ok st \<Longrightarrow> sm_get sm2 sid = Some st \<and> sb_write_off (st_send st) = sm_wo sm sid"
    using sm_get_or_create_ok[OF i1(1) g] sm_evo_trans0[OF i1(2)] i1(3) by (auto simp: sm_found_def)
  note eq = op(1)[unfolded sm_stream_write_def if_not_P[OF False] left attempt.simps Let_def, folded sm1_def,
      unfolded g prod.case]
  show ?thesis
  proof (cases q)
    case (Err e)
    then show ?thesis using eq f by (auto simp: sm_evo_quiet)
  next
    case (Ok st)
    note st = f(5)[OF Ok, THEN conjunct1] and wo = f(5)[OF Ok, THEN conjunct2]
    let ?cap = "sc_capacity (sm_send_capacity sm1)"
    note eq1 = eq[unfolded Ok attempt.simps]
    obtain was where was: "st_is_writable st = Ok was"
      using eq1 op(2) by (cases "st_is_writable st") (auto simp: st_is_writable_def res_simps split: if_splits)
    note eq2 = eq1[unfolded was attempt.simps]
    show ?thesis
    proof (cases "?cap = 0 \<and> buf \<noteq> []")
      case True
      let ?sm3 = "if was then sm_mark_writable sm2 sid True else sm2"
      have i3: "sm_inv c w 0 0 {} ?sm3" "sm_evo c sm [] ?sm3" using f(1,2) by (simp_all add: sm_marks_writable_if)
      have "sm' = fst (sm_want_write ?sm3 sid True)" "res = Err Done" using eq2[unfolded if_P[OF True]] by simp_all
      then show ?thesis using sm_want_write_ok[OF i3(1)] sm_evo_trans0[OF i3(2)] by (simp add: sm_evo_quiet)
    next
      case False
      define buf' where "buf' = (if ?cap < length buf then take ?cap buf else buf)"
      obtain s q' where wr: "sb_write (st_send st) buf' (fin \<and> \<not> ?cap < length buf) = (s, q')" by fastforce
      define st1 where "st1 = st\<lparr>st_send := s\<rparr>"
      note eq3 = eq2[unfolded if_not_P[OF False] buf'_def[symmetric] wr prod.case st1_def[symmetric]]
      have len: "length buf' \<le> ?cap" using False by (auto simp: buf'_def)
      have np: "q' \<noteq> Panic" using eq3 op(2) by auto
      have acc: "(res = Ok n \<or> n = 0 \<and> res = Err Done) \<and> take n buf' = take n buf" if n: "q' = Ok n" for n
      proof -
        have "n \<le> length buf'" using sb_write_short wr n by blast
        then have "take n buf' = take n buf" by (auto simp: buf'_def min_absorb1 split: if_splits)
        moreover have "res = Ok n \<or> n = 0 \<and> res = Err Done"
          using eq3[unfolded n res.case] op(2) by (rule sm_stream_write_result)
        ultimately show ?thesis by blast
      qed
      have agree: "take n buf' = map (w sid) [sb_write_off (st_send st)..<sb_write_off (st_send st) + n]" if "q' = Ok n" for n
        using acc[OF that] buf wo by auto
      note any = sb_write_any[OF sm_inv_stream(6)[OF f(1) st] wr np]
      have sb: "sb_inv (w sid) s" "\<And>n. q' = Ok n \<Longrightarrow>
          sb_write_off s = sb_write_off (st_send st) + n \<and> n \<le> length buf' \<and> sb_takes (st_send st) n s"
          "\<And>e. q' = Err e \<Longrightarrow> s = st_send st"
        using any agree by blast+
      show ?thesis
      proof (cases q')
        case (Err e)
        have "s = st_send st" using sb(3) Err by blast
        then have "sm_inv c w 0 0 {} (sm_put sm2 sid st1)"
          by (intro sm_inv_put[OF f(1) st]) (use sm_inv_stream[OF f(1) st] sm_inv_queues[OF f(1) st] in
            \<open>auto simp: st1_def\<close>)
        moreover have "sm_evo c sm [] (sm_put sm2 sid st1)"
          by (rule sm_evo_trans0[OF f(2) sm_evo_put_quiet[OF f(1) st]]) (simp_all add: st1_def \<open>s = st_send st\<close>)
        ultimately show ?thesis using eq3 Err by (auto simp: sm_frame sm_evo_quiet)
      next
        case (Ok n)
        note n = sb(2)[OF Ok]
        note eq4 = eq3[unfolded Ok res.case]
        obtain wb where wb: "st_is_writable st1 = Ok wb"
          using eq4 op(2) by (cases "st_is_writable st1") (auto simp: st_is_writable_def res_simps split: if_splits)
        define sm5 where "sm5 = (if (st_is_sendable st1 \<or> length buf' = 0 \<and> fin \<and> \<not> ?cap < length buf) \<and>
            \<not> st_is_sendable st
          then sm_push_sendable (sm_note_blocked (sm_put sm2 sid st1) sid st1 (n < length buf')) sid
            (st_urgency st1) (st_incremental st1)
          else sm_note_blocked (sm_put sm2 sid st1) sid st1 (n < length buf'))"
        define sm6 where "sm6 = (if \<not> wb then sm_mark_writable sm5 sid False
            else if was \<and> ?cap < length buf then sm_mark_writable sm5 sid True else sm5)"
        have cap: "n \<le> sc_capacity (sm_send_capacity sm2)" using n len f(4) by simp
        define bs where "bs = (case res of Ok n \<Rightarrow> take n buf | _ \<Rightarrow> [])"
        have "length bs = n" using acc[OF Ok] n by (auto simp: bs_def buf'_def split: if_splits)
        note i5 = sm_write_buffered_ok[OF f(1) st sb(1) conjunct1[OF n] cap conjunct2[OF conjunct2[OF n]] this
            sm5_def[unfolded st1_def]]
        have i6: "sm_inv c w (int n) 0 {} sm6" "sm_evo c sm [AppWrote sid bs] sm6"
          using i5(1) sm_evo_trans[OF f(2) i5(2)] by (auto simp: sm6_def sm_frame)
        have "n \<le> sc_capacity (sm_send_capacity sm6)" using cap i5(3) by (simp add: sm6_def sm_parts_marks)
        then obtain sc where ch: "sm_charge sm6 n = (sm6\<lparr>sm_send_capacity := sc\<rparr>, Ok ())"
          "sm_inv c w 0 0 {} (sm6\<lparr>sm_send_capacity := sc\<rparr>)"
          using sm_charge_ok[OF i6(1), of n] by auto
        have ev: "sm_evo c sm [AppWrote sid bs] (sm6\<lparr>sm_send_capacity := sc\<rparr>)" using i6(2) by (simp add: sm_evo_marks)
        moreover have "sm' = sm6\<lparr>sm_send_capacity := sc\<rparr> \<or>
            sm' = fst (sm_want_write (sm6\<lparr>sm_send_capacity := sc\<rparr>) sid True)"
          using eq4[unfolded wb attempt.simps sm5_def[symmetric] sm6_def[symmetric] ch(1) prod.case]
          by (auto split: if_splits)
        ultimately show ?thesis unfolding bs_def[symmetric]
          using ch(2) sm_want_write_ok[OF ch(2)] sm_evo_trans[OF ev, of "[]"] by auto
      qed (use np in simp)
    qed
  qed (use f(3) in simp)
qed

text \<open>The invariant speaks of the local stream only below the write offset.\<close>

lemma sm_inv_cong:
  assumes "sm_inv c w t r X sm" "\<And>sid i. i < sm_wo sm sid \<Longrightarrow> w' sid i = w sid i"
  shows "sm_inv c w' t r X sm"
proof -
  have "sb_inv (w' sid) (st_send st)" if "sm_get sm sid = Some st" for sid st
    by (rule sb_inv_cong[OF sm_inv_stream(6)[OF assms(1) that]]) (use assms(2)[of _ sid] that in \<open>simp add: sm_wo_def\<close>)
  then show ?thesis using assms(1) by (auto simp: sm_inv_def sm_core_def st_ok_def)
qed

lemma snd_elims:
  "snd (attempt s m f) = Ok w \<Longrightarrow> (\<And>v. m = Ok v \<Longrightarrow> snd (f v) = Ok w \<Longrightarrow> P) \<Longrightarrow> P"
  "snd (Let t g) = q \<Longrightarrow> (\<And>x. x = t \<Longrightarrow> snd (g x) = q \<Longrightarrow> P) \<Longrightarrow> P"
  "snd (case t' of (a, b) \<Rightarrow> h a b) = q \<Longrightarrow> (\<And>a b. t' = (a, b) \<Longrightarrow> snd (h a b) = q \<Longrightarrow> P) \<Longrightarrow> P"
  "snd (if c then x else y) = q \<Longrightarrow> (c \<Longrightarrow> snd x = q \<Longrightarrow> P) \<Longrightarrow> (\<not> c \<Longrightarrow> snd y = q \<Longrightarrow> P) \<Longrightarrow> P"
  "snd (case k of Ok v \<Rightarrow> k1 v | Err e \<Rightarrow> (k2 e, Err (k3 e)) | Panic \<Rightarrow> (k4, Panic)) = Ok w \<Longrightarrow>
     (\<And>v. k = Ok v \<Longrightarrow> snd (k1 v) = Ok w \<Longrightarrow> P) \<Longrightarrow> P"
  by (cases m; cases t'; cases k; auto split: if_splits)+

lemma sm_stream_write_short: "sm_stream_write sm sid buf fin = (sm', Ok n) \<Longrightarrow> n \<le> length buf"
proof -
  assume "sm_stream_write sm sid buf fin = (sm', Ok n)"
  then have "snd (sm_stream_write sm sid buf fin) = Ok n" by simp
  then show "n \<le> length buf"
    unfolding sm_stream_write_def
    by (elim snd_elims) (simp_all, (drule sb_write_short[OF sym], simp split: if_split_asm)+)
qed

lemma sm_stream_write_taken:
  assumes inv: "sm_inv c w 0 0 {} sm" and op: "sm_stream_write sm sid buf fin = (sm', Ok n)"
  shows "n \<le> length buf \<and> (0 < n \<longrightarrow> sm_open sm sid)"
proof -
  let ?wo = "sm_wo sm sid"
  define w' where "w' = w(sid := \<lambda>i. if ?wo \<le> i \<and> i < ?wo + length buf then buf ! (i - ?wo) else w sid i)"
  have inv': "sm_inv c w' 0 0 {} sm" by (rule sm_inv_cong[OF inv]) (auto simp: w'_def)
  have n: "n \<le> length buf" by (rule sm_stream_write_short[OF op])
  then have "take n buf = map (w' sid) [?wo..<?wo + n]" by (intro nth_equalityI) (simp_all add: w'_def)
  then have "sm_evo c sm [AppWrote sid (take n buf)] sm'" using sm_stream_write_ok[OF inv' op] by simp
  then have "wr_emits sm (length (take n buf)) sm' sid" by (auto simp: sm_evo_def dest: spec[of _ sid])
  then show ?thesis using n by (auto simp: wr_emits_def)
qed

text \<open>
  An outcome of an operation that began in \<open>sm\<close>: unless it panicked, the invariant holds again
  and nothing was delivered that should not have been. \<open>sm_fine\<close> asks this only of a
  successful outcome; after an error a frame handler's connection is closed.
\<close>

definition sm_good where
  "sm_good c w sm p \<longleftrightarrow> snd p \<noteq> Panic \<longrightarrow> sm_inv c w 0 0 {} (fst p) \<and> sm_evo c sm [] (fst p)"

definition sm_fine where
  "sm_fine c w sm p \<longleftrightarrow> snd p = Ok () \<longrightarrow> sm_inv c w 0 0 {} (fst p) \<and> sm_evo c sm [] (fst p)"

lemma sm_goodI: "sm_inv c w 0 0 {} sm' \<Longrightarrow> sm_evo c sm [] sm' \<Longrightarrow> sm_good c w sm (sm', r)"
  "sm_good c w sm (sm', Panic)"
  by (simp_all add: sm_good_def)

lemma sm_fineI: "sm_inv c w 0 0 {} sm' \<Longrightarrow> sm_evo c sm [] sm' \<Longrightarrow> sm_fine c w sm (sm', r)"
  "sm_fine c w sm (sm', Panic)" "sm_fine c w sm (sm', Err e)"
  by (simp_all add: sm_fine_def)

lemma sm_good_fine: "sm_good c w sm p \<Longrightarrow> sm_fine c w sm p"
  by (auto simp: sm_fine_def sm_good_def)

lemma unless_closed_good:
  assumes inv: "sm_inv c w 0 0 {} sm"
    and f: "\<And>sm1 st. sm_found c w 0 0 {} sm sid sm1 (Ok st) \<Longrightarrow> sm_good c w sm (f sm1 st)"
  shows "sm_good c w sm (unless_closed (sm_get_or_create sm sid loc) f)"
proof -
  obtain sm1 q where g: "sm_get_or_create sm sid loc = (sm1, q)" by fastforce
  show ?thesis using sm_get_or_create_ok[OF inv g] f
    by (cases q) (auto simp: g unless_closed_def sm_found_def intro!: sm_goodI)
qed

lemma unless_closed_fine:
  assumes inv: "sm_inv c w 0 0 {} sm"
    and f: "\<And>sm1 st. sm_found c w 0 0 {} sm sid sm1 (Ok st) \<Longrightarrow> sm_fine c w sm (f sm1 st)"
  shows "sm_fine c w sm (unless_closed (sm_get_or_create sm sid loc) f)"
proof -
  obtain sm1 q where g: "sm_get_or_create sm sid loc = (sm1, q)" by fastforce
  show ?thesis using sm_get_or_create_ok[OF inv g] f
    by (cases q) (auto simp: g unless_closed_def sm_found_def intro!: sm_fineI)
qed

lemma sm_foundD:
  assumes "sm_found c w t r X sm sid sm1 (Ok st)"
  shows "sm_inv c w t r X sm1" "sm_evo c sm [] sm1" "sm_get sm1 sid = Some st"
    "sm_send_capacity sm1 = sm_send_capacity sm" "sm_flow_control sm1 = sm_flow_control sm"
    "sm_is_server sm1 = sm_is_server sm"
  using assms by (simp_all add: sm_found_def)

text \<open>Changes of a stream that touch neither buffer nor the closed flag.\<close>

lemma sm_put_passive:
  assumes inv: "sm_inv c w t r X sm" and st: "sm_get sm sid = Some st" and ev: "sm_evo c s [] sm"
    and same: "st_recv st' = st_recv st" "st_send st' = st_send st" "st_local st' = st_local st"
      "st_bidi st' = st_bidi st" "st_is_closed st' = st_is_closed st"
  shows "sm_inv c w t r X (sm_put sm sid st')" "sm_evo c s [] (sm_put sm sid st')"
proof -
  show "sm_inv c w t r X (sm_put sm sid st')"
    by (rule sm_inv_put[OF inv st]) (use same sm_inv_stream[OF inv st] sm_inv_queues[OF inv st] in
      \<open>auto simp: st_ok_def st_is_sendable_def st_is_readable_def\<close>)
  show "sm_evo c s [] (sm_put sm sid st')"
    by (rule sm_evo_trans0[OF ev sm_evo_put_quiet[OF inv st same(1)]]) (simp add: same(2))
qed

lemma sm_stream_set_priority_ok:
  assumes inv: "sm_inv c w 0 0 {} sm"
  shows "sm_good c w sm (sm_stream_set_priority sm sid u i)"
  unfolding sm_stream_set_priority_def
proof (rule unless_closed_good[OF inv])
  fix sm1 :: "('a, 'b) stream_map" and st assume "sm_found c w 0 0 {} sm sid sm1 (Ok st)"
  note f = sm_foundD[OF this]
  show "sm_good c w sm (if st_urgency st = u \<and> st_incremental st = i then (sm1, Ok ())
      else (sm_put sm1 sid (st\<lparr>st_urgency := u, st_incremental := i\<rparr>), Ok ()))"
    using sm_put_passive[OF f(1,3,2), of "st\<lparr>st_urgency := u, st_incremental := i\<rparr>"] f(1,2)
    by (auto simp: st_is_closed_def intro!: sm_goodI)
qed

lemma sm_stream_new_ok:
  assumes inv: "sm_inv c w 0 0 {} sm"
  shows "sm_good c w sm (sm_stream_bidi_new sm u i)" "sm_good c w sm (sm_stream_uni_new sm u i)"
  using sm_stream_set_priority_ok[OF inv]
  by (auto simp: sm_stream_bidi_new_def sm_stream_uni_new_def sm_good_def Let_def split_beta split: attempt_split)

lemma sm_stream_set_context_ok:
  assumes inv: "sm_inv c w 0 0 {} sm"
  shows "sm_good c w sm (sm_stream_set_context sm sid ctx)"
  unfolding sm_stream_set_context_def
proof (rule unless_closed_good[OF inv])
  fix sm1 :: "('a, 'b) stream_map" and st assume "sm_found c w 0 0 {} sm sid sm1 (Ok st)"
  note f = sm_foundD[OF this]
  show "sm_good c w sm (sm_put sm1 sid (st\<lparr>st_context := Some ctx\<rparr>), Ok ())"
    using sm_put_passive[OF f(1,3,2), of "st\<lparr>st_context := Some ctx\<rparr>"] by (auto simp: st_is_closed_def intro!: sm_goodI)
qed

lemma sm_want_good:
  assumes inv: "sm_inv c w 0 0 {} sm"
  shows "sm_good c w sm (sm_want_write sm sid b)" "sm_good c w sm (sm_want_read sm sid b)"
proof -
  show "sm_good c w sm (sm_want_write sm sid b)" using sm_want_write_ok[OF inv] by (simp add: sm_good_def)
  show "sm_good c w sm (sm_want_read sm sid b)"
  proof (cases "sm_get sm sid")
    case None
    then show ?thesis using inv by (simp add: sm_want_read_def sm_good_def sm_evo_refl)
  next
    case (Some st)
    let ?st = "fst (st_mark_wantread st b)"
    have "st_recv ?st = st_recv st" "st_send ?st = st_send st" "st_local ?st = st_local st"
      "st_bidi ?st = st_bidi st" "st_is_closed ?st = st_is_closed st"
      by (auto simp: st_mark_wantread_def st_is_closed_def)
    then show ?thesis using sm_put_passive[OF inv Some sm_evo_refl, of ?st]
      by (simp add: sm_want_read_def Some split_beta sm_good_def)
  qed
qed

lemma sm_shutdown_read_ok:
  assumes inv: "sm_inv c w 0 0 {} sm" and st: "sm_get sm sid = Some st"
  shows "sm_good c w sm (sm_shutdown_read sm sid err st)"
proof (cases "is_local sid (sm_is_server sm) \<and> \<not> is_bidi sid")
  case True
  then show ?thesis using inv by (simp add: sm_shutdown_read_def sm_good_def sm_evo_refl)
next
  case False
  note s = sm_inv_stream[OF inv st]
  obtain rv q where q: "rv_shutdown (st_recv st) = (rv, q)" by fastforce
  let ?st1 = "st\<lparr>st_recv := rv\<rparr>"
  let ?sm1 = "sm_put sm sid ?st1"
  have rvi: "rv_inv (c sid) rv" "q \<noteq> Panic" "rv_recv_off rv = rv_recv_off (st_recv st)"
    using rv_shutdown_inv[OF s(5)] q by (auto simp: rv_shutdown_def Let_def sub64_def split: if_splits attempt_splits)
  have em: "rv_emits (c sid) (st_recv st) [] rv" using rv_emits_shutdown[OF s(5)] q by simp
  have e1: "sm_evo c sm [] ?sm1" using sm_evo_put_recv[OF st, of c "[]" ?st1] em s(1) by (simp add: sm_evo_quiet)
  have i1: "sm_inv c w 0 0 {sid} ?sm1" using sm_inv_put_recv[OF inv st rvi(1) em] rvi(3) by simp
  show ?thesis
  proof (cases q)
    case (Err e)
    then have same: "rv = st_recv st" using q by (auto simp: rv_shutdown_def Let_def sub64_def split: if_splits attempt_splits)
    have "sm_inv c w 0 0 {} ?sm1 \<and> sm_evo c sm [] ?sm1"
      using sm_put_passive[OF inv st sm_evo_refl, of ?st1] same by (simp add: st_is_closed_def)
    then show ?thesis unfolding sm_shutdown_read_def if_not_P[OF False] using q Err by (simp add: sm_good_def)
  next
    case (Ok n)
    have "rv_data rv = []" using q Ok by (auto simp: rv_shutdown_def Let_def sub64_def split: if_splits attempt_splits)
    then have nr: "\<not> st_is_readable ?st1" by (simp add: st_is_readable_def rv_ready_def chunks_ready_def)
    have "sm_inv c w 0 0 {} ?sm1"
      by (rule sm_inv_settle[OF i1]) (use nr sm_inv_queues(1)[OF inv st] in
        \<open>auto simp: sm_get_marks sm_parts_marks st_is_sendable_def\<close>)
    define sm2 where "sm2 = (if \<not> rv_is_fin rv then sm_mark_stopped ?sm1 sid True err else ?sm1)"
    have i2: "sm_inv c w 0 0 {} sm2" "sm_evo c sm [] sm2" "sm_get sm2 sid = Some ?st1"
      using \<open>sm_inv c w 0 0 {} ?sm1\<close> e1 by (simp_all add: sm2_def sm_frame)
    have i3: "sm_inv c w 0 0 {} (sm_mark_readable sm2 sid False)"
      by (rule sm_inv_drop_readable[OF i2(1)]) (use i2(3) nr in simp)
    obtain sm4 r where k: "sm_consume (sm_mark_readable sm2 sid False) n = (sm4, r)" by fastforce
    have "sm_shutdown_read sm sid err st = (sm4, r)"
      unfolding sm_shutdown_read_def if_not_P[OF False] q Let_def prod.case Ok attempt.simps
      using k by (simp add: sm2_def)
    then show ?thesis using sm_consume_ok(2)[OF i3 k] sm_consume_ok(3)[OF i3 k, of sm "[]"] i2(2)
      by (auto simp: sm_good_def sm_evo_marks)
  qed (use rvi(2) in simp)
qed

text \<open>Ending the send side: the unsent bytes leave both the stream and the connection.\<close>

lemma sm_close_send_ok:
  assumes inv: "sm_inv c w 0 0 {} sm" and st: "sm_get sm sid = Some st"
    and s: "sb_inv (w sid) s" "sb_dead s" "sb_write_off s + n = sb_write_off (st_send st)"
      "sb_unsent_off s = sb_unsent_off (st_send st)"
  shows "\<exists>sc. sm_refund (sm_put sm sid (st\<lparr>st_send := s\<rparr>)) n =
      ((sm_put sm sid (st\<lparr>st_send := s\<rparr>))\<lparr>sm_send_capacity := sc\<rparr>, Ok ()) \<and>
    sm_inv c w 0 0 {} ((sm_put sm sid (st\<lparr>st_send := s\<rparr>))\<lparr>sm_send_capacity := sc\<rparr>)"
    and "sm_evo c sm [] (sm_put sm sid (st\<lparr>st_send := s\<rparr>))"
proof -
  let ?st1 = "st\<lparr>st_send := s\<rparr>" let ?sm1 = "sm_put sm sid ?st1"
  have "sm_inv c w (0 - int n) 0 {sid} ?sm1"
    by (rule sm_inv_weaken[OF sm_inv_put_send[OF inv st s(1)]]) (use s(3) in auto)
  then have "sm_inv c w (0 - int n) 0 {} ?sm1"
  proof (rule sm_inv_settle)
    fix st' assume "sm_get ?sm1 sid = Some st'"
    then have e: "st' = ?st1" by (simp add: sm_get_marks)
    have "\<not> st_is_sendable ?st1" using s(2) by (simp add: st_is_sendable_def sb_ready_def sb_dead_def)
    then show "(st_is_sendable st' \<longrightarrow> sm_queued ?sm1 sid) \<and>
        (st_is_readable st' \<and> \<not> st_is_closed st' \<longrightarrow> sid \<in> sm_readable ?sm1)"
      using sm_inv_queues(2)[OF inv st] by (auto simp: e sm_parts_marks st_is_readable_def st_is_closed_def)
  qed
  from sm_refund_ok[OF this] show "\<exists>sc. sm_refund ?sm1 n = (?sm1\<lparr>sm_send_capacity := sc\<rparr>, Ok ()) \<and>
      sm_inv c w 0 0 {} (?sm1\<lparr>sm_send_capacity := sc\<rparr>)" by simp
  show "sm_evo c sm [] ?sm1" by (rule sm_evo_put_quiet[OF inv st]) (simp_all add: sb_takes_dead s(2,4))
qed

lemma sm_shutdown_write_ok:
  assumes inv: "sm_inv c w 0 0 {} sm" and st: "sm_get sm sid = Some st"
  shows "sm_good c w sm (sm_shutdown_write sm sid err st)"
proof (cases "\<not> is_local sid (sm_is_server sm) \<and> \<not> is_bidi sid")
  case True
  then show ?thesis using inv by (simp add: sm_shutdown_write_def sm_good_def sm_evo_refl)
next
  case False
  let ?s = "st_send st"
  note sbi = sm_inv_stream(6)[OF inv st]
  obtain s where s: "sb_shutdown ?s = (s, if sb_shutdown_flag ?s then Err Done
      else Ok (sb_unsent_off ?s, sb_write_off ?s - sb_unsent_off ?s))" "sb_inv (w sid) s"
      "sb_unsent_off s = sb_unsent_off ?s" "\<not> sb_shutdown_flag ?s \<longrightarrow> sb_dead s" "sb_shutdown_flag ?s \<longrightarrow> s = ?s"
    using sb_shutdown_spec[OF sbi] by blast
  let ?sm1 = "sm_put sm sid (st\<lparr>st_send := s\<rparr>)"
  show ?thesis
  proof (cases "sb_shutdown_flag ?s")
    case True
    then have "sm_shutdown_write sm sid err st = (?sm1, Err Done)"
      unfolding sm_shutdown_write_def if_not_P[OF False] s(1) by (simp add: Let_def)
    then show ?thesis using sm_put_passive[OF inv st sm_evo_refl, of "st\<lparr>st_send := s\<rparr>"] s(5) True
      by (simp add: sm_good_def st_is_closed_def)
  next
    case live: False
    have "sb_write_off s + (sb_write_off ?s - sb_unsent_off ?s) = sb_write_off ?s"
      using s(3,4) live sbi by (auto simp: sb_dead_def sb_inv_def)
    note cl = sm_close_send_ok[OF inv st s(2) mp[OF s(4) live] this s(3)]
    obtain sc where sc: "sm_refund ?sm1 (sb_write_off ?s - sb_unsent_off ?s) = (?sm1\<lparr>sm_send_capacity := sc\<rparr>, Ok ())"
      "sm_inv c w 0 0 {} (?sm1\<lparr>sm_send_capacity := sc\<rparr>)" using cl(1) by blast
    have "sm_shutdown_write sm sid err st = (sm_mark_writable (sm_mark_reset (?sm1\<lparr>sm_send_capacity := sc\<rparr>) sid True err
        (sb_unsent_off ?s)) sid False, Ok ())"
      unfolding sm_shutdown_write_def if_not_P[OF False] s(1) Let_def prod.case if_not_P[OF live] attempt.simps sc(1)
      by (rule refl)
    then show ?thesis using sc(2) cl(2) by (simp add: sm_good_def sm_frame)
  qed
qed

lemma sm_stream_shutdown_ok:
  assumes inv: "sm_inv c w 0 0 {} sm"
  shows "sm_good c w sm (sm_stream_shutdown sm sid dir err)"
  using sm_shutdown_read_ok[OF inv] sm_shutdown_write_ok[OF inv] inv
  by (cases "sm_get sm sid"; cases dir) (simp_all add: sm_stream_shutdown_def sm_good_def sm_evo_refl)

lemma sm_stream_writable_ok:
  assumes inv: "sm_inv c w 0 0 {} sm"
  shows "sm_good c w sm (sm_stream_writable sm sid len)"
proof (cases "\<exists>cap left. sm_stream_capacity sm sid = Ok cap \<and> \<not> cap \<ge> len \<and> sm_max_tx_data_left sm = Ok left")
  case False
  then show ?thesis using inv
    by (auto simp: sm_stream_writable_def sm_good_def sm_evo_refl split: attempt_split)
next
  case True
  then obtain cap left where c: "sm_stream_capacity sm sid = Ok cap" "\<not> cap \<ge> len" "sm_max_tx_data_left sm = Ok left"
    by blast
  then obtain st0 where st0: "sm_get sm sid = Some st0" by (auto simp: sm_stream_capacity_def split: option.splits)
  define sm1 where "sm1 = (if left < len
      then sm_update_data_blocked_at sm (Some (sc_max_data (sm_send_capacity sm))) else sm)"
  have i1: "sm_inv c w 0 0 {} sm1" "sm_evo c sm [] sm1" "sm_get sm1 sid = Some st0"
    using inv st0 by (simp_all add: sm1_def sm_frame sm_evo_refl)
  define st where "st = st0\<lparr>st_write_thresh := max 1 len\<rparr>"
  have st': "st_recv st = st_recv st0" "st_send st = st_send st0" "st_local st = st_local st0" "st_bidi st = st_bidi st0"
    "st_is_closed st = st_is_closed st0" by (simp_all add: st_def st_is_closed_def)
  note i2 = sm_put_passive[OF i1(1,3,2) st']
  have g2: "sm_get (sm_put sm1 sid st) sid = Some st" by (simp add: sm_get_marks)
  have i3: "sm_inv c w 0 0 {} (sm_put (sm_put sm1 sid st) sid (st\<lparr>st_send := sb_update_blocked_at (st_send st) v\<rparr>))"
    "sm_evo c sm [] (sm_put (sm_put sm1 sid st) sid (st\<lparr>st_send := sb_update_blocked_at (st_send st) v\<rparr>))" for v
  proof -
    show "sm_inv c w 0 0 {} (sm_put (sm_put sm1 sid st) sid (st\<lparr>st_send := sb_update_blocked_at (st_send st) v\<rparr>))"
      by (rule sm_inv_put[OF i2(1) g2]) (use sm_inv_stream[OF i2(1) g2] sm_inv_queues[OF i2(1) g2] in
        \<open>auto simp: st_ok_def sb_update_blocked_at_def sb_trace_id_irrelevant st_is_sendable_def
          st_is_readable_def st_is_closed_def\<close>)
    show "sm_evo c sm [] (sm_put (sm_put sm1 sid st) sid (st\<lparr>st_send := sb_update_blocked_at (st_send st) v\<rparr>))"
      by (rule sm_evo_trans0[OF i2(2) sm_evo_put_quiet[OF i2(1) g2]]) (simp_all add: sb_update_blocked_at_def sb_takes_quiet)
  qed
  have ne: "st_is_writable st \<noteq> Err e" for e by (auto simp: st_is_writable_def res_simps split: if_splits)
  show ?thesis
    unfolding sm_stream_writable_def c attempt.simps if_not_P[OF c(2)] Let_def sm1_def[symmetric] i1(3) option.case
      st_def[symmetric]
    using i2 i3 ne by (auto simp: sm_good_def sm_frame split: attempt_split)
qed

section \<open>Frames received\<close>

lemma sm_on_max_data_ok:
  assumes inv: "sm_inv c w 0 0 {} sm" and m: "m \<le> u64_max"
  shows "sm_good c w sm (sm_on_max_data_frame_received sm m)"
proof -
  let ?sc = "sm_send_capacity sm"
  let ?m = "max (sc_max_data ?sc) m"
  note cap = sm_inv_capacity[OF inv]
  have le: "sc_tx_data ?sc \<le> ?m" using cap(1) by simp
  have i: "sm_inv c w 0 0 {} (sm\<lparr>sm_send_capacity := ?sc\<lparr>sc_max_data := ?m, sc_capacity := ?m - sc_tx_data ?sc,
      sc_blocked_at := b\<rparr>\<rparr>)" for b
    by (rule sm_inv_sc[OF inv]) (use cap m in simp_all)
  have i0: "sm_inv c w 0 0 {} (sm\<lparr>sm_send_capacity := ?sc\<lparr>sc_max_data := ?m, sc_capacity := ?m - sc_tx_data ?sc\<rparr>\<rparr>)"
    by (rule sm_inv_sc[OF inv]) (use cap m in simp_all)
  show ?thesis unfolding sm_on_max_data_frame_received_def sc_update_max_data_def sc_update_capacity_def
    using i i0 le by (auto simp: Let_def sub64_def sm_good_def sm_evo_marks sm_evo_refl)
qed

lemma sm_raise_stream_limit_ok:
  assumes fd: "sm_found c w 0 0 {} sm sid sm1 (Ok st)" and m: "m \<le> VINT_MAX"
  shows "sm_good c w sm (sm_raise_stream_limit sid m sm1 st)"
proof -
  note f = sm_foundD[OF fd]
  define st1 where "st1 = st\<lparr>st_send := sb_update_max_data (st_send st) m\<rparr>"
  have sbi: "sb_inv (w sid) (sb_update_max_data (st_send st) m)"
    by (rule sb_update_max_data_inv[OF sm_inv_stream(6)[OF f(1,3)] m])
  have rdy: "st_is_sendable st1 = st_is_sendable st"
    by (simp add: st1_def st_is_sendable_def sb_update_max_data_def sb_ready_def sb_send_off_def cong: option.case_cong)
  have "sm_inv c w 0 0 {} (sm_put sm1 sid st1)"
    by (rule sm_inv_put[OF f(1,3)]) (use sm_inv_stream[OF f(1,3)] sm_inv_queues[OF f(1,3)] sbi rdy in
      \<open>auto simp: st1_def st_ok_def sb_update_max_data_def st_is_readable_def st_is_closed_def\<close>)
  moreover have "sm_evo c sm [] (sm_put sm1 sid st1)"
    by (rule sm_evo_trans0[OF f(2) sm_evo_put_quiet[OF f(1,3)]]) (simp_all add: st1_def sb_takes_quiet)
  ultimately show ?thesis
    unfolding sm_raise_stream_limit_def Let_def st1_def[symmetric] using rdy st_is_writable_not_Err[of st1]
    by (auto simp: sm_good_def sm_frame split: attempt_split)
qed

lemma sm_on_max_stream_data_ok:
  assumes inv: "sm_inv c w 0 0 {} sm" and m: "m \<le> VINT_MAX"
  shows "sm_good c w sm (sm_on_max_stream_data_frame_received sm sid m)"
  unfolding sm_on_max_stream_data_frame_received_def
  by (auto intro!: unless_closed_good[OF inv] sm_raise_stream_limit_ok m sm_goodI(1)[OF inv sm_evo_refl])

lemma sm_on_max_streams_ok:
  assumes inv: "sm_inv c w 0 0 {} sm"
  shows "sm_good c w sm (sm_on_max_streams_frame_received sm m bidi)"
proof (cases "m > MAX_STREAMS_PER_TYPE")
  case True
  then show ?thesis using inv by (simp add: sm_on_max_streams_frame_received_def sm_good_def sm_evo_refl)
next
  case False
  let ?cc = "sm_concurrency_control sm"
  have "cc_inv ?cc" using inv by (simp add: sm_inv_def sm_core_def)
  moreover have "m \<le> u64_max" using False by (simp add: MAX_STREAMS_PER_TYPE_def u64_max_def)
  ultimately show ?thesis using cc_update_peer_max_streams_spec(1,2)[of ?cc m bidi] inv False
    by (auto simp: sm_on_max_streams_frame_received_def sm_good_def intro!: sm_inv_cc sm_evo_same)
qed

lemma sm_stop_stream_ok:
  assumes fd: "sm_found c w 0 0 {} sm sid sm1 (Ok st)"
  shows "sm_good c w sm (sm_stop_stream sid e sm1 st)"
proof -
  note f = sm_foundD[OF fd] and sbi = sm_inv_stream(6)[OF sm_foundD(1,3)[OF fd]]
  let ?s = "st_send st"
  define s where "s = fst (sb_stop ?s e)"
  have s: "sb_stop ?s e = (s, if sb_error ?s = None
      then Ok (sb_unsent_off ?s, sb_write_off ?s - sb_unsent_off ?s) else Err Done)" "sb_inv (w sid) s"
      "sb_unsent_off s = sb_unsent_off ?s" "sb_error ?s = None \<longrightarrow> sb_dead s" "sb_error ?s \<noteq> None \<longrightarrow> s = ?s"
    using sb_stop_spec[OF sbi, of e] by (auto simp: s_def)
  let ?sm2 = "sm_put sm1 sid (st\<lparr>st_send := s\<rparr>)"
  show ?thesis
  proof (cases "sb_error ?s = None")
    case True
    have "sb_write_off s + (sb_write_off ?s - sb_unsent_off ?s) = sb_write_off ?s"
      using s(3,4) True sbi by (auto simp: sb_dead_def sb_inv_def)
    note cl = sm_close_send_ok[OF f(1,3) s(2) mp[OF s(4) True] this s(3)]
    obtain sc where sc: "sm_refund ?sm2 (sb_write_off ?s - sb_unsent_off ?s) = (?sm2\<lparr>sm_send_capacity := sc\<rparr>, Ok ())"
      "sm_inv c w 0 0 {} (?sm2\<lparr>sm_send_capacity := sc\<rparr>)" using cl(1) by blast
    show ?thesis
      unfolding sm_stop_stream_def s(1) if_P[OF True] Let_def prod.case res.case sc(1) attempt.simps
      using sc(2) sm_evo_trans0[OF f(2) cl(2)] st_is_writable_not_Err[of st]
      by (auto simp: sm_good_def sm_frame split: attempt_split)
  next
    case False
    then have q: "sb_stop ?s e = (s, Err Done)" "s = ?s" using s(1,5) by simp_all
    show ?thesis unfolding sm_stop_stream_def q(1) Let_def prod.case res.case
      using sm_put_passive[OF f(1,3,2), of "st\<lparr>st_send := s\<rparr>"] q(2) st_is_writable_not_Err[of st]
      by (auto simp: sm_good_def st_is_closed_def split: attempt_split)
  qed
qed

lemma sm_on_stop_sending_ok:
  assumes inv: "sm_inv c w 0 0 {} sm"
  shows "sm_good c w sm (sm_on_stop_sending_frame_received sm sid e)"
  unfolding sm_on_stop_sending_frame_received_def
  by (auto intro!: unless_closed_good[OF inv] sm_stop_stream_ok sm_goodI(1)[OF inv sm_evo_refl])

text \<open>Raising the connection's received total after a stream's received offset has grown.\<close>

lemma sm_recv_ok:
  assumes inv: "sm_inv c w t (int d) X sm" and rec: "fc_increase_recv_off (sm_flow_control sm) d = Ok fc"
    and lim: "d \<le> fc_max_data (sm_flow_control sm) - fc_recv_off (sm_flow_control sm)"
  shows "sm_inv c w t 0 X (sm\<lparr>sm_flow_control := fc\<rparr>)"
proof -
  have "fc = (sm_flow_control sm)\<lparr>fc_recv_off := fc_recv_off (sm_flow_control sm) + d\<rparr>"
    using rec by (auto simp: fc_increase_recv_off_def)
  then show ?thesis using sm_inv_capacity(4,7)[OF inv] lim by (intro sm_inv_fc[OF inv]) simp_all
qed

lemma sm_rx_data_left:
  assumes "sm_inv c w t r X sm"
  shows "sm_max_rx_data_left sm = Ok (fc_max_data (sm_flow_control sm) - fc_recv_off (sm_flow_control sm))"
  using sm_inv_capacity(4)[OF assms] by (simp add: sm_max_rx_data_left_def sub64_def)

text \<open>
  The common end of the handlers of \<open>STREAM\<close> and \<open>RESET_STREAM\<close>: the stream becomes
  readable, perhaps complete.
\<close>

lemma sm_put_recv_marked:
  assumes inv: "sm_inv c w 0 0 {} sm" and st: "sm_get sm sid = Some st"
    and rv: "rv_inv (c sid) rv" "rv_emits (c sid) (st_recv st) [] rv"
      "rv_recv_off rv \<le> rv_recv_off (st_recv st) + d"
  defines "st1 \<equiv> st\<lparr>st_recv := rv\<rparr>"
  defines "sm3 \<equiv> (if \<not> st_is_readable st \<and> st_is_readable st1
      then sm_mark_readable (sm_put sm sid st1) sid True else sm_put sm sid st1)"
  shows "sm_inv c w 0 (int d) {} sm3" "sm_evo c sm [] sm3" "sm_flow_control sm3 = sm_flow_control sm"
    "sm_get sm3 sid = Some st1"
proof -
  let ?sm2 = "sm_put sm sid st1"
  have "sm_inv c w 0 (int d) {sid} ?sm2"
    unfolding st1_def by (rule sm_inv_weaken[OF sm_inv_put_recv[OF inv st rv(1,2)]]) (use rv(3) in auto)
  then have i3: "sm_inv c w 0 (int d) {sid} sm3" by (simp add: sm3_def sm_inv_mark_readable)
  have get: "sm_get sm3 sid = Some st1" by (simp add: sm3_def sm_get_marks)
  have "sm_queued sm3 = sm_queued sm" by (simp add: sm3_def sm_parts_marks)
  moreover have "st_is_readable st1 \<Longrightarrow> \<not> st_is_closed st1 \<Longrightarrow> sid \<in> sm_readable sm3"
    using sm_inv_queues(2)[OF inv st] by (auto simp: sm3_def sm_parts_marks st1_def st_is_closed_def)
  moreover have "st_is_sendable st1 = st_is_sendable st" by (simp add: st1_def st_is_sendable_def)
  ultimately show "sm_inv c w 0 (int d) {} sm3"
    using sm_inv_queues(1)[OF inv st] get by (intro sm_inv_settle[OF i3]) simp
  show "sm_get sm3 sid = Some st1" by (rule get)
  have "sm_evo c sm [] ?sm2"
    using sm_evo_put_recv[OF st, of c "[]" st1] rv(2) sm_inv_stream(1)[OF inv st] by (simp add: st1_def sm_evo_quiet)
  then show "sm_evo c sm [] sm3" by (simp add: sm3_def sm_evo_marks)
  show "sm_flow_control sm3 = sm_flow_control sm" by (simp add: sm3_def sm_parts_marks)
qed

lemma rv_reset_recv_off:
  assumes "rv_inv c rv" "rv_reset rv e final = (rv', Ok d)"
  shows "rv_recv_off rv' \<le> rv_recv_off rv + d"
proof (cases "rv_error rv = None \<and> final \<le> rv_max_data rv")
  case True
  then show ?thesis using rv_reset_accept[OF assms(1), of final e] assms(2)
    by (auto simp: rv_reset_def Let_def split: if_splits option.splits)
next
  case False
  then show ?thesis using assms(2)
    by (auto simp: rv_reset_def rv_write_def rv_max_data_def Let_def split: if_splits option.splits attempt_splits)
qed

lemma sm_reset_stream_ok:
  assumes fd: "sm_found c w 0 0 {} sm sid sm1 (Ok st)"
    and left: "left = fc_max_data (sm_flow_control sm) - fc_recv_off (sm_flow_control sm)"
  shows "sm_fine c w sm (sm_reset_stream sid e final left sm1 st)"
proof -
  note f = sm_foundD[OF fd] and s = sm_inv_stream[OF sm_foundD(1,3)[OF fd]]
  obtain rv q where q: "rv_reset (st_recv st) e final = (rv, q)" by fastforce
  define st1 where "st1 = st\<lparr>st_recv := rv\<rparr>"
  define sm3 where "sm3 = (if \<not> st_is_readable st \<and> st_is_readable st1
    then sm_mark_readable (sm_put sm1 sid st1) sid True else sm_put sm1 sid st1)"
  define sm4 where "sm4 = (if st_is_complete st1 \<and> \<not> st_is_readable st1
    then sm_mark_closed sm3 sid (st_local st1) else sm3)"
  have goal: "sm_fine c w sm (attempt sm4 (fc_increase_recv_off (sm_flow_control sm4) d)
      (\<lambda>fc. sm_consume (sm4\<lparr>sm_flow_control := fc\<rparr>) (final - rv_read_off (st_recv st))))"
    if d: "q = Ok d" "\<not> left < d" for d
  proof -
    have "rv_inv (c sid) rv" "rv_emits (c sid) (st_recv st) [] rv"
      using rv_reset_inv[OF s(5), of e final] rv_emits_reset[OF s(5), of e final] q by simp_all
    note m = sm_put_recv_marked[OF f(1,3) this rv_reset_recv_off[OF s(5) q[unfolded d(1)]],
        folded st1_def, folded sm3_def]
    have i4: "sm_inv c w 0 (int d) {} sm4" "sm_evo c sm [] sm4" "sm_flow_control sm4 = sm_flow_control sm"
      using m sm_mark_closed_ok[OF m(1)] sm_evo_trans0[OF sm_evo_trans0[OF f(2) m(2)]] sm_evo_trans0[OF f(2) m(2)] f(5)
      by (simp_all add: sm4_def)
    show ?thesis
    proof (cases "fc_increase_recv_off (sm_flow_control sm4) d")
      case (Ok fc)
      have i5: "sm_inv c w 0 0 {} (sm4\<lparr>sm_flow_control := fc\<rparr>)"
        by (rule sm_recv_ok[OF i4(1) Ok]) (use d(2) i4(3) left in simp)
      obtain sm6 r where k: "sm_consume (sm4\<lparr>sm_flow_control := fc\<rparr>) (final - rv_read_off (st_recv st)) = (sm6, r)"
        by fastforce
      show ?thesis using sm_consume_ok(2,3)[OF i5 k] i4(2) Ok k by (auto simp: sm_fine_def sm_evo_marks)
    qed (simp_all add: sm_fineI)
  qed
  then show ?thesis
    unfolding sm_reset_stream_def q Let_def prod.case st1_def[symmetric] sm3_def[symmetric] sm4_def[symmetric]
    by (cases q) (simp_all add: sm_fineI)
qed

lemma sm_on_reset_stream_ok:
  assumes inv: "sm_inv c w 0 0 {} sm"
  shows "sm_fine c w sm (sm_on_reset_stream_frame_received sm sid e final)"
  unfolding sm_on_reset_stream_frame_received_def sm_rx_data_left[OF inv]
  by (auto intro!: unless_closed_fine[OF inv] sm_reset_stream_ok sm_fineI)

text \<open>
  An accepted \<open>STREAM\<close> frame moves the received offset by at most what the connection charges.
\<close>

lemma rv_write_recv_off:
  assumes "rv_inv c rv" "rb_agrees c (rb_new d off fin)" "rv_write rv off d fin = (rv', q)" "q \<noteq> Panic"
  shows "rv_recv_off rv' \<le> rv_recv_off rv + (off + length d - rv_recv_off rv)"
  using assms(1,2)
proof (cases rule: rv_write_cases)
  case (accept rv'')
  then show ?thesis using assms(3) by (auto simp: rv_write_post_def split: if_splits)
qed (use assms(3) in simp)

lemma sm_receive_data_ok:
  assumes fd: "sm_found c w 0 0 {} sm sid sm1 (Ok st)"
    and left: "left = fc_max_data (sm_flow_control sm) - fc_recv_off (sm_flow_control sm)"
    and data: "data = map (c sid) [offset..<offset + length data]"
  shows "sm_fine c w sm (sm_receive_data sid offset (length data) fin data left sm1 st)"
proof (cases "offset + length data \<le> u64_max \<and> offset + length data - rv_recv_off (st_recv st) \<le> left")
  case False
  then show ?thesis by (auto simp: sm_receive_data_def add64_def sm_fineI Let_def)
next
  case True
  note f = sm_foundD[OF fd] and s = sm_inv_stream[OF sm_foundD(1,3)[OF fd]]
  let ?d = "offset + length data - rv_recv_off (st_recv st)"
  have add: "add64 offset (length data) = Ok (offset + length data)" using True by simp
  have lim: "\<not> ?d > left" using True by simp
  have ag: "rb_agrees (c sid) (rb_new data offset fin)" using data by (simp add: rb_agrees_def rb_basic)
  obtain rv q where q: "rv_write (st_recv st) offset data fin = (rv, q)" by fastforce
  have rv: "rv_inv (c sid) rv" "q \<noteq> Panic" "rv_emits (c sid) (st_recv st) [] rv"
    using rv_write_inv[OF s(5) ag] rv_emits_write[OF s(5) data, of fin] q by simp_all
  define st1 where "st1 = st\<lparr>st_recv := rv\<rparr>"
  define sm3 where "sm3 = (if \<not> st_is_readable st \<and> st_is_readable st1
    then sm_mark_readable (sm_put sm1 sid st1) sid True else sm_put sm1 sid st1)"
  note m = sm_put_recv_marked[OF f(1,3) rv(1,3) rv_write_recv_off[OF s(5) ag q rv(2)], folded st1_def, folded sm3_def]
  have "sm_fine c w sm (attempt sm3 (fc_increase_recv_off (sm_flow_control sm3) ?d) (\<lambda>fc.
      if st_is_draining st then sm_consume (sm3\<lparr>sm_flow_control := fc\<rparr>) ?d else (sm3\<lparr>sm_flow_control := fc\<rparr>, Ok ())))"
  proof (cases "fc_increase_recv_off (sm_flow_control sm3) ?d")
    case (Ok fc)
    have i5: "sm_inv c w 0 0 {} (sm3\<lparr>sm_flow_control := fc\<rparr>)"
      by (rule sm_recv_ok[OF m(1) Ok]) (use lim m(3) f(5) left in simp)
    have e5: "sm_evo c sm [] (sm3\<lparr>sm_flow_control := fc\<rparr>)" using sm_evo_trans0[OF f(2) m(2)] by (simp add: sm_evo_marks)
    obtain sm6 r where k: "sm_consume (sm3\<lparr>sm_flow_control := fc\<rparr>) ?d = (sm6, r)" by fastforce
    show ?thesis using sm_consume_ok(2,3)[OF i5 k] i5 e5 Ok k by (auto simp: sm_fine_def)
  qed (simp_all add: sm_fineI)
  then show ?thesis
    unfolding sm_receive_data_def add attempt.simps Let_def if_not_P[OF lim] q prod.case st1_def[symmetric] sm3_def[symmetric]
    by (cases q) (simp_all add: sm_fineI)
qed

lemma sm_on_stream_frame_ok:
  assumes inv: "sm_inv c w 0 0 {} sm" and data: "data = map (c sid) [offset..<offset + length data]"
  shows "sm_fine c w sm (sm_on_stream_frame_received sm sid offset (length data) fin data)"
  unfolding sm_on_stream_frame_received_def sm_rx_data_left[OF inv]
  by (auto intro!: unless_closed_fine[OF inv] sm_receive_data_ok data sm_fineI)

section \<open>Acknowledgement and loss\<close>

text \<open>Fewer offsets pending: a buffer with nothing to send does not become ready.\<close>

lemma sb_ready_shrink:
  assumes "sb_inv c s" "sb_inv c s'" "sb_R s' \<subseteq> sb_R s" "sb_unsent_off s \<le> sb_unsent_off s'"
    "sb_write_off s' = sb_write_off s" "sb_data s = [] \<Longrightarrow> sb_data s' = []" "sb_ready s'"
  shows "sb_ready s"
proof -
  have "sb_send_off s \<le> sb_send_off s'"
    by (rule least_pending_mono[OF send_off_least send_off_least]) (use assms in \<open>auto simp: sb_inv_def\<close>)
  then show ?thesis using assms(5,6,7) by (auto simp: sb_ready_def)
qed

lemma sb_ack_ready:
  assumes "sb_inv c s" "off + len \<le> sb_unsent_off s" "sb_ready (fst (sb_ack_and_drop s off len))"
  shows "sb_ready s"
proof -
  obtain s' where s': "sb_ack_and_drop s off len = (s', Ok ())" "sb_inv c s'" "sb_write_off s' = sb_write_off s"
    "sb_unsent_off s' = sb_unsent_off s" "sb_R s' \<subseteq> sb_R s"
    using sb_ack_and_drop_spec[OF assms(1,2)] by (cases "sb_data s = []") auto
  have "sb_data s' = []" if "sb_data s = []" using s'(1) that by (auto simp: sb_ack_and_drop_def)
  with s' assms show ?thesis using sb_ready_shrink[OF assms(1) s'(2)] by auto
qed

lemma sm_close_if_done_good:
  assumes "sm_inv c w 0 0 {} sm" "sm_evo c s [] sm"
  shows "sm_inv c w 0 0 {} (sm_close_if_done sm sid st)" "sm_evo c s [] (sm_close_if_done sm sid st)"
  using assms sm_mark_closed_ok[OF assms(1)] sm_evo_trans0[OF assms(2)] by (simp_all add: sm_close_if_done_def)

text \<open>
  Acknowledgements and losses are reported for ranges that were sent: the packet that carried
  them was built from the stream's own data.
\<close>

lemma sm_put_send_quiet:
  assumes inv: "sm_inv c w 0 0 {} sm" and st: "sm_get sm sid = Some st" and s: "sb_inv (w sid) s"
    and wr: "sb_write_off s = sb_write_off (st_send st)" "sb_takes (st_send st) 0 s"
  shows "sm_inv c w 0 0 {sid} (sm_put sm sid (st\<lparr>st_send := s\<rparr>))" "sm_evo c sm [] (sm_put sm sid (st\<lparr>st_send := s\<rparr>))"
    "(sb_ready s \<longrightarrow> sm_queued sm sid) \<Longrightarrow> sm_inv c w 0 0 {} (sm_put sm sid (st\<lparr>st_send := s\<rparr>))"
proof -
  let ?sm = "sm_put sm sid (st\<lparr>st_send := s\<rparr>)"
  show "sm_inv c w 0 0 {sid} ?sm" using sm_inv_put_send[OF inv st s] wr by simp
  show "sm_evo c sm [] ?sm" by (rule sm_evo_put_quiet[OF inv st]) (simp_all add: wr(2))
  show "sm_inv c w 0 0 {} ?sm" if "sb_ready s \<longrightarrow> sm_queued sm sid"
    by (rule sm_inv_put[OF inv st])
      (use that wr s sm_inv_stream[OF inv st] sm_inv_queues[OF inv st] in
        \<open>auto simp: st_ok_def st_is_sendable_def st_is_readable_def st_is_closed_def\<close>)
qed

lemma sm_on_stream_frame_acked_ok:
  assumes inv: "sm_inv c w 0 0 {} sm" and sent: "sm_sent sm sid (off + len)"
  shows "sm_good c w sm (sm_on_stream_frame_acked sm sid off len)"
proof (cases "sm_get sm sid")
  case None
  then show ?thesis using inv by (simp add: sm_on_stream_frame_acked_def sm_goodI sm_evo_refl)
next
  case (Some st)
  have leg: "off + len \<le> sb_unsent_off (st_send st)" using sent Some by (simp add: sm_sent_def)
  note sbi = sm_inv_stream(6)[OF inv Some]
  obtain s where s: "sb_ack_and_drop (st_send st) off len = (s, Ok ())" "sb_inv (w sid) s"
    "sb_write_off s = sb_write_off (st_send st)" "sb_takes (st_send st) 0 s"
    using sb_ack_and_drop_spec[OF sbi leg] by (auto simp: sb_takes_same)
  have "sb_ready s \<longrightarrow> sm_queued sm sid"
    using sb_ack_ready[OF sbi leg] s(1) sm_inv_queues(1)[OF inv Some] by (simp add: st_is_sendable_def)
  note p = sm_put_send_quiet[OF inv Some s(2,3,4)]
  show ?thesis using sm_close_if_done_good[OF p(3) p(2)] \<open>sb_ready s \<longrightarrow> _\<close>
    by (simp add: sm_on_stream_frame_acked_def Some s(1) Let_def sm_goodI)
qed

lemma sm_on_reset_stream_frame_acked_ok:
  assumes inv: "sm_inv c w 0 0 {} sm"
  shows "sm_inv c w 0 0 {} (sm_on_reset_stream_frame_acked sm sid)"
    "sm_evo c sm [] (sm_on_reset_stream_frame_acked sm sid)"
  using inv sm_close_if_done_good[OF inv sm_evo_refl] sm_evo_refl[of c sm]
  by (auto simp: sm_on_reset_stream_frame_acked_def split: option.split)

lemma sm_on_stream_frame_lost_ok:
  assumes inv: "sm_inv c w 0 0 {} sm" and sent: "sm_sent sm sid (off + len)"
  shows "sm_good c w sm (sm_on_stream_frame_lost sm sid off len fin)"
proof (cases "sm_get sm sid")
  case None
  then show ?thesis using inv by (simp add: sm_on_stream_frame_lost_def sm_goodI sm_evo_refl)
next
  case (Some st)
  have leg: "off + len \<le> sb_unsent_off (st_send st)" using sent Some by (simp add: sm_sent_def)
  obtain s where s: "sb_retransmit (st_send st) off len = (s, Ok ())" "sb_inv (w sid) s"
    "sb_write_off s = sb_write_off (st_send st)" "sb_takes (st_send st) 0 s"
    using sb_retransmit_spec[OF sm_inv_stream(6)[OF inv Some] leg] by (auto simp: sb_frame_def sb_takes_same)
  let ?st = "st\<lparr>st_send := s\<rparr>" and ?sm1 = "sm_put sm sid (st\<lparr>st_send := s\<rparr>)"
  note p = sm_put_send_quiet[OF inv Some s(2,3,4)]
  let ?sm2 = "sm_push_sendable ?sm1 sid (st_urgency ?st) (st_incremental ?st)"
  have rd: "st_is_readable st \<Longrightarrow> \<not> st_is_closed st \<Longrightarrow> sid \<in> sm_readable sm" using sm_inv_queues(2)[OF inv Some] by simp
  have "sm_inv c w 0 0 {} ?sm2"
    by (rule sm_inv_settle[OF sm_inv_push[OF p(1)]])
      (use sm_queued_push[of ?sm1] p(1) rd in
        \<open>auto simp: sm_frame sm_inv_def sm_queues_ok_def st_is_readable_def st_is_closed_def\<close>)
  moreover have "sm_evo c sm [] ?sm2" using p(2) by (simp add: sm_frame)
  moreover have "sm_inv c w 0 0 {} ?sm1" if "st_is_sendable ?st \<longrightarrow> st_is_sendable st"
    by (rule p(3)) (use that sm_inv_queues(1)[OF inv Some] in \<open>auto simp: st_is_sendable_def\<close>)
  ultimately show ?thesis using p(2)
    by (auto simp: sm_on_stream_frame_lost_def Some s(1) Let_def intro!: sm_goodI(1))
qed

text \<open>The other reports of losses and the notices of a blocked peer only set marks.\<close>

lemma sm_lost_marks_ok:
  assumes inv: "sm_inv c w 0 0 {} sm"
  shows "sm_inv c w 0 0 {} (sm_on_reset_stream_frame_lost sm sid e f) \<and> sm_evo c sm [] (sm_on_reset_stream_frame_lost sm sid e f)"
    "sm_inv c w 0 0 {} (sm_on_stop_sending_frame_lost sm sid e) \<and> sm_evo c sm [] (sm_on_stop_sending_frame_lost sm sid e)"
    "sm_inv c w 0 0 {} (sm_on_max_stream_data_frame_lost sm sid) \<and> sm_evo c sm [] (sm_on_max_stream_data_frame_lost sm sid)"
    "sm_inv c w 0 0 {} (sm_on_max_data_frame_lost sm) \<and> sm_evo c sm [] (sm_on_max_data_frame_lost sm)"
    "sm_inv c w 0 0 {} (sm_on_stream_data_blocked_frame_lost sm sid m) \<and> sm_evo c sm [] (sm_on_stream_data_blocked_frame_lost sm sid m)"
    "sm_inv c w 0 0 {} (sm_on_data_blocked_frame_lost sm m) \<and> sm_evo c sm [] (sm_on_data_blocked_frame_lost sm m)"
  using inv by (auto simp: sm_on_reset_stream_frame_lost_def sm_on_stop_sending_frame_lost_def
    sm_on_max_stream_data_frame_lost_def sm_on_max_data_frame_lost_def sm_on_stream_data_blocked_frame_lost_def
    sm_on_data_blocked_frame_lost_def sm_frame sm_evo_refl split: option.split)

lemma sm_evo_cc:
  assumes "cc_created cc = cc_created (sm_concurrency_control sm)"
  shows "sm_evo c sm [] (sm\<lparr>sm_concurrency_control := cc\<rparr>)"
  using assms by (auto simp: sm_evo_defs sm_created_def sm_get_def)

lemma sm_cc_marks_ok:
  assumes inv: "sm_inv c w 0 0 {} sm"
  shows "sm_inv c w 0 0 {} (sm_on_streams_blocked_frame_lost sm b m) \<and> sm_evo c sm [] (sm_on_streams_blocked_frame_lost sm b m)"
    "sm_inv c w 0 0 {} (sm_update_streams_blocked_at sm b v) \<and> sm_evo c sm [] (sm_update_streams_blocked_at sm b v)"
    "sm_inv c w 0 0 {} (sm_update_local_max_streams sm b) \<and> sm_evo c sm [] (sm_update_local_max_streams sm b)"
proof -
  have cc: "cc_inv (sm_concurrency_control sm)" using inv by (simp add: sm_inv_def sm_core_def)
  note s = cc_update_streams_blocked_at_spec[OF cc] cc_update_local_max_streams_spec[OF cc]
  show "sm_inv c w 0 0 {} (sm_on_streams_blocked_frame_lost sm b m) \<and> sm_evo c sm [] (sm_on_streams_blocked_frame_lost sm b m)"
    "sm_inv c w 0 0 {} (sm_update_streams_blocked_at sm b v) \<and> sm_evo c sm [] (sm_update_streams_blocked_at sm b v)"
    "sm_inv c w 0 0 {} (sm_update_local_max_streams sm b) \<and> sm_evo c sm [] (sm_update_local_max_streams sm b)"
    using inv s sm_inv_cc[OF inv]
    by (auto simp: sm_on_streams_blocked_frame_lost_def sm_update_streams_blocked_at_def
        sm_update_local_max_streams_def sm_evo_cc sm_evo_refl)
qed

text \<open>Parameters of the peer, all of which are QUIC integers.\<close>

definition peer_params_ok :: "stream_transport_params \<Rightarrow> bool" where
  "peer_params_ok tp \<longleftrightarrow> stp_ok VINT_MAX tp \<and> stp_initial_max_data tp \<le> u64_max \<and>
     stp_initial_max_streams_bidi tp \<le> u64_max \<and> stp_initial_max_streams_uni tp \<le> u64_max"

lemma sm_update_peer_params_ok:
  assumes inv: "sm_inv c w 0 0 {} sm" and tp: "peer_params_ok tp"
  shows "sm_good c w sm (sm_update_peer_stream_transport_params sm tp)"
proof -
  let ?sc = "sm_send_capacity sm" and ?cc = "sm_concurrency_control sm"
  let ?m = "max (sc_max_data ?sc) (stp_initial_max_data tp)"
  let ?sc' = "?sc\<lparr>sc_max_data := ?m, sc_capacity := ?m - sc_tx_data ?sc\<rparr>"
  let ?cc1 = "cc_update_peer_max_streams ?cc True (stp_initial_max_streams_bidi tp)"
  let ?cc2 = "cc_update_peer_max_streams ?cc1 False (stp_initial_max_streams_uni tp)"
  let ?sm1 = "sm\<lparr>sm_peer_transport_params := tp, sm_send_capacity := ?sc'\<rparr>"
  note cap = sm_inv_capacity[OF inv]
  have m: "stp_initial_max_data tp \<le> u64_max" "stp_initial_max_streams_bidi tp \<le> u64_max"
    "stp_initial_max_streams_uni tp \<le> u64_max" "stp_ok VINT_MAX tp" using tp by (simp_all add: peer_params_ok_def)
  have cc: "cc_inv ?cc" using inv by (simp add: sm_inv_def sm_core_def)
  have "sm_inv c w 0 0 {} (sm\<lparr>sm_peer_transport_params := tp\<rparr>)"
    using inv m(4) by (simp add: sm_inv_def sm_inv_parts)
  then have i1: "sm_inv c w 0 0 {} ?sm1" using cap m(1) by (auto dest: sm_inv_sc[where sc = ?sc'])
  note k = cc_update_peer_max_streams_spec[OF cc m(2), of True]
  note k2 = cc_update_peer_max_streams_spec[OF k(1) m(3), of False]
  have "sm_inv c w 0 0 {} (?sm1\<lparr>sm_concurrency_control := ?cc2\<rparr>)"
    by (rule sm_inv_cc[OF i1 k2(1)]) (use k(2) k2(2) in simp)
  moreover have "sm_evo c sm [] (?sm1\<lparr>sm_concurrency_control := ?cc2\<rparr>)"
    by (rule sm_evo_trans0[OF _ sm_evo_cc]) (use k(2) k2(2) in \<open>simp_all add: sm_evo_marks sm_evo_refl sm_evo_same\<close>)
  ultimately show ?thesis using cap(1)
    by (simp add: sm_update_peer_stream_transport_params_def sc_update_max_data_def sc_update_capacity_def sub64_def
        Let_def sm_goodI)
qed

section \<open>The initial state\<close>

definition local_params_ok :: "nat \<Rightarrow> nat \<Rightarrow> stream_transport_params \<Rightarrow> bool" where
  "local_params_ok conn_window stream_window tp \<longleftrightarrow>
     stp_ok stream_window tp \<and> peer_params_ok tp \<and> stp_initial_max_data tp \<le> conn_window \<and>
     stream_window < 2 ^ 51 \<and> stream_window + stream_window div 2 \<le> conn_window"

lemma sm_inv_new:
  assumes "local_params_ok cw sw tp"
  shows "sm_inv c w 0 0 {} (sm_new srv cw sw tp)" "\<not> sm_created (sm_new srv cw sw tp) sid"
  using assms cc_inv_new[of "stp_initial_max_streams_bidi tp" "stp_initial_max_streams_uni tp"]
  by (auto simp: sm_inv_def sm_inv_parts sm_new_def sm_get_def local_params_ok_def peer_params_ok_def fc_new_def
      sc_default_def stp_default_def stp_ok_def sm_created_def bm_get_def VINT_MAX_u64)

section \<open>The send queue\<close>

text \<open>
  The stream chosen by \<open>peek_sendable\<close> and the removal that may follow: peeking rotates a
  queue and changes no membership; removing takes away the peeked stream only.
\<close>

lemma sm_set_sendable:
  assumes "sm_inv c w t r X sm" "bm_sorted q" "\<forall>e \<in> set q. pq_ids (snd e) \<noteq> {}"
    "\<And>sid st. sm_get sm sid = Some st \<Longrightarrow> sid \<notin> X \<Longrightarrow> st_is_sendable st \<Longrightarrow> \<exists>e \<in> set q. sid \<in> pq_ids (snd e)"
  shows "sm_inv c w t r X (sm\<lparr>sm_sendable := q\<rparr>)"
  using assms by (auto simp: sm_inv_def sm_inv_parts)

lemma sm_evo_sendable [sm_frame]: "sm_evo c s out (sm\<lparr>sm_sendable := q\<rparr>) \<longleftrightarrow> sm_evo c s out sm"
  "sm_get (sm\<lparr>sm_sendable := q\<rparr>) = sm_get sm"
  by (rule sm_evo_target; simp) (simp add: sm_get_def fun_eq_iff)

lemma sm_peek_cases:
  assumes inv: "sm_inv c w t r X sm"
  obtains (none) "sm_sendable sm = []" "sm_peek_sendable sm = (sm, None)"
  | (ordered) u q rest sid sids where "sm_sendable sm = (u, q) # rest" "pq_non_incremental q = sid # sids"
      "sm_peek_sendable sm = (sm, Some sid)"
  | (rotated) u q rest sid sids where "sm_sendable sm = (u, q) # rest" "pq_non_incremental q = []"
      "pq_incremental q = sid # sids"
      "sm_peek_sendable sm = (sm\<lparr>sm_sendable := (u, q\<lparr>pq_incremental := sids @ [sid]\<rparr>) # rest\<rparr>, Some sid)"
proof (cases "sm_sendable sm")
  case (Cons e rest)
  obtain u q where e: "e = (u, q)" by fastforce
  have "pq_ids q \<noteq> {}" using inv Cons e by (auto simp: sm_inv_def sm_queues_ok_def)
  then show ?thesis using that(2,3) Cons e
    by (cases "pq_non_incremental q"; cases "pq_incremental q") (auto simp: pq_ids_def sm_peek_sendable_def)
qed (use that(1) in \<open>simp add: sm_peek_sendable_def\<close>)

lemma sm_peek_ok:
  assumes inv: "sm_inv c w t r X sm" and pk: "sm_peek_sendable sm = (sm', res)"
  shows "sm_inv c w t r X sm'" "sm_evo c s out sm' \<longleftrightarrow> sm_evo c s out sm" "sm_get sm' = sm_get sm"
    "sm_queued sm' = sm_queued sm" "res = None \<longleftrightarrow> sm_sendable sm = []"
proof -
  have "sm_inv c w t r X sm' \<and> (sm_evo c s out sm' \<longleftrightarrow> sm_evo c s out sm) \<and> sm_get sm' = sm_get sm \<and>
    sm_queued sm' = sm_queued sm \<and> (res = None \<longleftrightarrow> sm_sendable sm = [])"
    using inv
  proof (cases rule: sm_peek_cases)
    case (rotated u q rest sid sids)
    let ?q = "(u, q\<lparr>pq_incremental := sids @ [sid]\<rparr>) # rest"
    have ids: "pq_ids (q\<lparr>pq_incremental := sids @ [sid]\<rparr>) = pq_ids q" using rotated by (auto simp: pq_ids_def)
    have s: "sm_queues_ok X sm" using inv by (simp add: sm_inv_def)
    have "sm_inv c w t r X (sm\<lparr>sm_sendable := ?q\<rparr>)"
      by (rule sm_set_sendable[OF inv]) (use s rotated ids in \<open>auto simp: sm_queues_ok_def sm_queued_def bm_sorted_Cons\<close>)
    moreover have "sm_queued (sm\<lparr>sm_sendable := ?q\<rparr>) = sm_queued sm"
      using rotated ids by (simp add: sm_queued_def fun_eq_iff)
    ultimately show ?thesis using pk rotated by (auto simp: sm_frame)
  qed (use pk inv in auto)
  then show "sm_inv c w t r X sm'" "sm_evo c s out sm' \<longleftrightarrow> sm_evo c s out sm" "sm_get sm' = sm_get sm"
    "sm_queued sm' = sm_queued sm" "res = None \<longleftrightarrow> sm_sendable sm = []" by blast+
qed

text \<open>After a peek the peeked stream is what \<open>remove_sendable\<close> takes out.\<close>

definition pq_size :: "('b, 'c) stream_map \<Rightarrow> nat" where
  "pq_size sm = sum_list (map (\<lambda>e. length (pq_non_incremental (snd e)) + length (pq_incremental (snd e))) (sm_sendable sm))"

definition peeked :: "('b, 'c) stream_map \<Rightarrow> nat \<Rightarrow> bool" where
  "peeked sm sid \<longleftrightarrow> (\<exists>u q rest. sm_sendable sm = (u, q) # rest \<and>
     (case pq_non_incremental q of x # _ \<Rightarrow> x = sid | [] \<Rightarrow> pq_incremental q \<noteq> [] \<and> last (pq_incremental q) = sid))"

lemma sm_peek_peeked:
  assumes "sm_inv c w t r X sm" "sm_peek_sendable sm = (sm', Some sid)"
  shows "peeked sm' sid \<and> pq_size sm' = pq_size sm"
  using assms(1) by (cases rule: sm_peek_cases) (use assms(2) in \<open>auto simp: peeked_def pq_size_def\<close>)

lemma sm_remove_ok:
  assumes inv: "sm_inv c w t r X sm" and pk: "peeked sm sid"
    and st: "\<And>st. sm_get sm sid = Some st \<Longrightarrow> \<not> st_is_sendable st"
  shows "sm_inv c w t r X (sm_remove_sendable sm)" "pq_size (sm_remove_sendable sm) < pq_size sm"
    "sm_evo c s out (sm_remove_sendable sm) \<longleftrightarrow> sm_evo c s out sm" "sm_get (sm_remove_sendable sm) = sm_get sm"
proof -
  obtain u q rest where q: "sm_sendable sm = (u, q) # rest" using pk by (auto simp: peeked_def)
  define q' where "q' = (case pq_non_incremental q of _ # sids \<Rightarrow> q\<lparr>pq_non_incremental := sids\<rparr>
     | [] \<Rightarrow> q\<lparr>pq_incremental := butlast (pq_incremental q)\<rparr>)"
  define Q where "Q = (if pq_non_incremental q' = [] \<and> pq_incremental q' = [] then rest else (u, q') # rest)"
  have rm: "sm_remove_sendable sm = sm\<lparr>sm_sendable := Q\<rparr>"
    by (simp add: sm_remove_sendable_def q Let_def Q_def q'_def)
  have len: "length (pq_non_incremental q') + length (pq_incremental q') < length (pq_non_incremental q) + length (pq_incremental q)"
    using pk q by (auto simp: peeked_def q'_def split: list.splits)
  have ids: "pq_ids q \<subseteq> insert sid (pq_ids q')"
  proof (cases "pq_non_incremental q")
    case Nil
    then have "pq_incremental q = butlast (pq_incremental q) @ [sid]"
      using pk q by (auto simp: peeked_def simp del: append_butlast_last_id intro!: append_butlast_last_id[symmetric])
    then have "set (pq_incremental q) = insert sid (set (butlast (pq_incremental q)))"
      by (metis Un_insert_right list.simps(15) set_append sup_bot.right_neutral list.set(1))
    then show ?thesis using Nil by (auto simp: pq_ids_def q'_def)
  next
    case (Cons x xs)
    then show ?thesis using pk q by (auto simp: peeked_def pq_ids_def q'_def)
  qed
  have qok: "sm_queues_ok X sm" using inv by (simp add: sm_inv_def)
  show "sm_inv c w t r X (sm_remove_sendable sm)" unfolding rm
  proof (rule sm_set_sendable[OF inv])
    show "bm_sorted Q" "\<forall>e \<in> set Q. pq_ids (snd e) \<noteq> {}"
      using qok q by (auto simp: sm_queues_ok_def Q_def bm_sorted_Cons pq_ids_def)
    fix i st' assume g: "sm_get sm i = Some st'" "i \<notin> X" "st_is_sendable st'"
    then have "i \<noteq> sid" "sm_queued sm i" using st qok by (auto simp: sm_queues_ok_def)
    then show "\<exists>e \<in> set Q. i \<in> pq_ids (snd e)" using ids q by (auto simp: sm_queued_def Q_def pq_ids_def)
  qed
  show "pq_size (sm_remove_sendable sm) < pq_size sm" using len by (auto simp: rm pq_size_def q Q_def)
  show "sm_evo c s out (sm_remove_sendable sm) \<longleftrightarrow> sm_evo c s out sm" "sm_get (sm_remove_sendable sm) = sm_get sm"
    by (simp_all add: rm sm_frame)
qed


section \<open>Properties of scheduling and of the connection window\<close>

text \<open>\<open>peek_sendable\<close> called repeatedly, as the packet writer does.\<close>

fun peeks :: "nat \<Rightarrow> ('b, 'c) stream_map \<Rightarrow> nat option list" where
  "peeks 0 sm = []"
| "peeks (Suc n) sm = (case sm_peek_sendable sm of (sm', sid) \<Rightarrow> sid # peeks n sm')"

lemma peeks_rotate:
  assumes "sm_sendable sm = (u, q) # rest" "pq_non_incremental q = []" "n \<le> length (pq_incremental q)"
  shows "peeks n sm = map Some (take n (pq_incremental q))"
  using assms
proof (induction n arbitrary: sm q)
  case (Suc n)
  then obtain x xs where x: "pq_incremental q = x # xs" by (cases "pq_incremental q") auto
  let ?q = "q\<lparr>pq_incremental := xs @ [x]\<rparr>"
  have "sm_peek_sendable sm = (sm\<lparr>sm_sendable := (u, ?q) # rest\<rparr>, Some x)"
    using Suc.prems x by (simp add: sm_peek_sendable_def)
  then show ?case using Suc.IH[of "sm\<lparr>sm_sendable := (u, ?q) # rest\<rparr>" ?q] Suc.prems x by simp
qed simp

text \<open>
  C27: Scheduling: the stream offered for sending belongs to the most urgent level that has any;
  within it a non-incremental stream is served first and keeps being served, and
  incremental streams are served in turn, each of them once in every round.
\<close>

theorem peek_urgent_and_fair:
  assumes inv: "sm_inv c w t r X sm" and q: "sm_sendable sm = (u, q) # rest"
  shows "(\<forall>e \<in> set (sm_sendable sm). u \<le> fst e) \<and>
    (\<forall>sid sids. pq_non_incremental q = sid # sids \<longrightarrow> peeks n sm = replicate n (Some sid)) \<and>
    (pq_non_incremental q = [] \<longrightarrow> peeks (length (pq_incremental q)) sm = map Some (pq_incremental q))"
proof -
  have "bm_sorted (sm_sendable sm)" using inv by (simp add: sm_inv_def sm_queues_ok_def)
  then have "\<forall>e \<in> set (sm_sendable sm). u \<le> fst e" using q by (auto simp: bm_sorted_Cons less_imp_le)
  moreover have "peeks n sm = replicate n (Some sid)" if "pq_non_incremental q = sid # sids" for sid sids
    using that q by (induction n) (simp_all add: sm_peek_sendable_def)
  ultimately show ?thesis using peeks_rotate[OF q, of "length (pq_incremental q)"] by simp
qed

definition two_levels :: "(nat, unit) stream_map" where
  "two_levels =
     (sm_new False 1000 100 stp_default)\<lparr>sm_sendable :=
        [(3, \<lparr>pq_non_incremental = [], pq_incremental = [0, 4]\<rparr>), (127, \<lparr>pq_non_incremental = [8], pq_incremental = []\<rparr>)]\<rparr>"

theorem peek_urgent_and_fair_witness:
  "sm_inv (\<lambda>_ _. 0) (\<lambda>_ _. 0) 0 0 {} two_levels \<and> peeks 2 two_levels = [Some 0, Some 4]"
proof -
  have "sm_inv (\<lambda>_ _. 0) (\<lambda>_ _. 0) 0 0 {} (sm_new False 1000 100 stp_default :: (nat, unit) stream_map)"
    by (rule sm_inv_new(1)) (simp add: local_params_ok_def stp_ok_def peer_params_ok_def stp_default_def VINT_MAX_def u64_max_def)
  then have inv: "sm_inv (\<lambda>_ _. 0) (\<lambda>_ _. 0) 0 0 {} two_levels" unfolding two_levels_def
    by (rule sm_set_sendable) (simp_all add: bm_sorted_Cons pq_ids_def sm_get_def sm_new_def bm_get_def)
  have "sm_sendable two_levels = (3, \<lparr>pq_non_incremental = [], pq_incremental = [0, 4]\<rparr>) #
      [(127, \<lparr>pq_non_incremental = [8], pq_incremental = []\<rparr>)]" by (simp add: two_levels_def)
  then show ?thesis using peek_urgent_and_fair[OF inv, of 3 _ _ 0] inv by (simp add: numeral_2_eq_2)
qed

end
