(* ===== verification/Frame.thy ===== *)
theory Frame
  imports Codec Range_Set "HOL-Library.Sublist"
begin

text \<open>
  The frames of \<open>src/src/frame.rs\<close>: the type, the decoder, the encoder, the length
  calculation, and which packets may carry which frame. Shown about them: the encoder writes
  exactly the announced number of bytes or reports a short buffer, the decoder inverts the
  encoder, and on arbitrary bytes the decoder returns a well-formed frame or an error, never
  panics and always makes progress.
\<close>

section \<open>Types\<close>

definition MAX_STREAM_SIZE :: nat where
  "MAX_STREAM_SIZE = 2 ^ 62"

definition MAX_CRYPTO_OVERHEAD :: nat where
  "MAX_CRYPTO_OVERHEAD = 8"

definition MAX_STREAM_OVERHEAD :: nat where
  "MAX_STREAM_OVERHEAD = 19"

definition MAX_CID_LEN :: nat where
  "MAX_CID_LEN = 20"

definition RESET_TOKEN_LEN :: nat where
  "RESET_TOKEN_LEN = 16"

text \<open>A connection ID is the slice it dereferences to.\<close>

type_synonym ConnectionId = bytes

definition cid_new :: "bytes \<Rightarrow> ConnectionId" where
  "cid_new bs = take (min (length bs) MAX_CID_LEN) bs"

datatype PacketType = VersionNegotiation | Initial | ZeroRTT | Handshake | Retry | OneRTT

record EcnCounts =
  ect0_count :: nat
  ect1_count :: nat
  ecn_ce_count :: nat

datatype Frame =
    Paddings nat
  | Ping "(nat \<times> nat) option"
  | Ack nat range_set "EcnCounts option"
  | ResetStream nat nat nat
  | StopSending nat nat
  | Crypto nat nat bytes
  | NewToken bytes
  | Stream nat nat nat bool bytes
  | MaxData nat
  | MaxStreamData nat nat
  | MaxStreams bool nat
  | DataBlocked nat
  | StreamDataBlocked nat nat
  | StreamsBlocked bool nat
  | NewConnectionId nat nat ConnectionId bytes
  | RetireConnectionId nat
  | PathChallenge bytes
  | PathResponse bytes
  | ConnectionClose nat nat bytes
  | ApplicationClose nat bytes
  | HandshakeDone
  | PathAbandon nat nat bytes
  | PathStatus nat nat nat
  | Datagram bytes

section \<open>Decoding\<close>

text \<open>The loop over the ACK ranges that follow the first one.\<close>

fun parse_ack_ranges :: "nat \<Rightarrow> nat \<Rightarrow> range_set \<Rightarrow> range_set reader" where
  "parse_ack_ranges 0 smallest_ack ack_ranges b = Ok (ack_ranges, b)"
| "parse_ack_ranges (Suc i) smallest_ack ack_ranges b =
     rbind (read_varint b) (\<lambda>(gap, b). rbind (add64 2 gap) (\<lambda>least.
       if smallest_ack < least then Err FrameEncodingError
       else
         rbind (sub64 smallest_ack gap) (\<lambda>d. rbind (sub64 d 2) (\<lambda>largest_ack.
         rbind (read_varint b) (\<lambda>(ack_range_len, b).
           if largest_ack < ack_range_len then Err FrameEncodingError
           else
             rbind (sub64 largest_ack ack_range_len) (\<lambda>smallest_ack.
             rbind (add64 largest_ack 1) (\<lambda>range_end.
               parse_ack_ranges i smallest_ack (rs_insert ack_ranges (smallest_ack, range_end)) b)))))))"

definition parse_ecn_counts :: "nat \<Rightarrow> EcnCounts option reader" where
  "parse_ecn_counts first b =
     (if first AND 1 \<noteq> 0 then
        rbind (read_varint b) (\<lambda>(ect0, b).
        rbind (read_varint b) (\<lambda>(ect1, b).
        rbind (read_varint b) (\<lambda>(ce, b).
          Ok (Some \<lparr>ect0_count = ect0, ect1_count = ect1, ecn_ce_count = ce\<rparr>, b))))
      else Ok (None, b))"

definition parse_ack_frame :: "nat \<Rightarrow> bytes \<Rightarrow> (Frame \<times> nat) qres" where
  "parse_ack_frame frame_type b0 =
     rbind (read_varint b0) (\<lambda>(largest_ack, b).
     rbind (read_varint b) (\<lambda>(ack_delay, b).
     rbind (read_varint b) (\<lambda>(range_count, b).
     rbind (read_varint b) (\<lambda>(ack_range_len, b).
       if largest_ack < ack_range_len then Err FrameEncodingError
       else
         rbind (sub64 largest_ack ack_range_len) (\<lambda>smallest_ack.
         rbind (add64 largest_ack 1) (\<lambda>range_end.
         rbind (parse_ack_ranges range_count smallest_ack (rs_insert rs_default (smallest_ack, range_end)) b)
           (\<lambda>(ack_ranges, b).
         rbind (parse_ecn_counts (take_bit 8 frame_type) b) (\<lambda>(ecn_counts, b).
         rbind (sub64 (length b0) (length b)) (\<lambda>len. Ok (Ack ack_delay ack_ranges ecn_counts, len))))))))))"

text \<open>
  \<open>buf.slice(start..start + length)\<close>, where \<open>start\<close> is the offset of \<open>b\<close> in \<open>buf\<close>: it panics past
  the end; followed by \<open>b.skip(length)\<close>.
\<close>

definition take_data :: "nat \<Rightarrow> bytes reader" where
  "take_data len b =
     (if len > length b then Err BufferTooShort
      else rbind (split_to len b) (\<lambda>(data, _). rbind (skip len b) (\<lambda>(_, b'). Ok (data, b'))))"

fun count_zeros :: "nat \<Rightarrow> bytes \<Rightarrow> nat \<times> bytes" where
  "count_zeros len [] = (len, [])"
| "count_zeros len (x # b) = (if x = 0 then count_zeros (len + 1) b else (len, x # b))"

definition parse_stream :: "nat \<Rightarrow> Frame reader" where
  "parse_stream first b =
     rbind (read_varint b) (\<lambda>(stream_id, b).
     rbind (if first AND 4 \<noteq> 0 then read_varint b else Ok (0, b)) (\<lambda>(offset, b).
     rbind (if first AND 2 \<noteq> 0 then read_varint b else Ok (length b, b)) (\<lambda>(len, b).
     rbind (add64 offset len) (\<lambda>max_off.
       if max_off \<ge> MAX_STREAM_SIZE then Err FrameEncodingError
       else
         let fin = (first AND 1 \<noteq> 0) in
         rbind (take_data len b) (\<lambda>(data, b). Ok (Stream stream_id offset len fin data, b))))))"

definition read1 :: "(nat \<Rightarrow> Frame) \<Rightarrow> Frame reader" where
  "read1 f b = rbind (read_varint b) (\<lambda>(x, b). Ok (f x, b))"

definition read2 :: "(nat \<Rightarrow> nat \<Rightarrow> Frame) \<Rightarrow> Frame reader" where
  "read2 f b = rbind (read_varint b) (\<lambda>(x, b). read1 (f x) b)"

definition read3 :: "(nat \<Rightarrow> nat \<Rightarrow> nat \<Rightarrow> Frame) \<Rightarrow> Frame reader" where
  "read3 f b = rbind (read_varint b) (\<lambda>(x, b). read2 (f x) b)"

definition read_tail :: "(bytes \<Rightarrow> Frame) \<Rightarrow> bytes reader \<Rightarrow> Frame reader" where
  "read_tail f rd b = rbind (rd b) (\<lambda>(x, b). Ok (f x, b))"

definition parse_frame :: "nat \<Rightarrow> Frame reader" where
  "parse_frame ty b =
     (if ty = 0x00 then let (len, b) = count_zeros 1 b in Ok (Paddings len, b)
      else if ty = 0x01 then Ok (Ping None, b)
      else if ty = 0x02 \<or> ty = 0x03 then
        rbind (parse_ack_frame ty b) (\<lambda>(frame, len). rbind (skip len b) (\<lambda>(_, b). Ok (frame, b)))
      else if ty = 0x04 then read3 ResetStream b
      else if ty = 0x05 then read2 StopSending b
      else if ty = 0x06 then
        rbind (read_varint b) (\<lambda>(offset, b). rbind (read_varint b) (\<lambda>(len, b).
          read_tail (Crypto offset len) (take_data len) b))
      else if ty = 0x07 then read_tail NewToken read_with_varint_length b
      else if 0x08 \<le> ty \<and> ty \<le> 0x0f then parse_stream (take_bit 8 ty) b
      else if ty = 0x10 then read1 MaxData b
      else if ty = 0x11 then read2 MaxStreamData b
      else if ty = 0x12 then read1 (MaxStreams True) b
      else if ty = 0x13 then read1 (MaxStreams False) b
      else if ty = 0x14 then read1 DataBlocked b
      else if ty = 0x15 then read2 StreamDataBlocked b
      else if ty = 0x16 then read1 (StreamsBlocked True) b
      else if ty = 0x17 then read1 (StreamsBlocked False) b
      else if ty = 0x18 then
        rbind (read_varint b) (\<lambda>(seq_num, b). rbind (read_varint b) (\<lambda>(retire_prior_to, b).
        rbind (read_with_u8_length b) (\<lambda>(cid, b).
          read_tail (NewConnectionId seq_num retire_prior_to (cid_new cid)) (read_bytes 16) b)))
      else if ty = 0x19 then read1 RetireConnectionId b
      else if ty = 0x1a then read_tail PathChallenge (read_bytes 8) b
      else if ty = 0x1b then read_tail PathResponse (read_bytes 8) b
      else if ty = 0x1c then
        rbind (read_varint b) (\<lambda>(error_code, b). rbind (read_varint b) (\<lambda>(frame_type, b).
          read_tail (ConnectionClose error_code frame_type) read_with_varint_length b))
      else if ty = 0x1d then
        rbind (read_varint b) (\<lambda>(error_code, b).
          read_tail (ApplicationClose error_code) read_with_varint_length b)
      else if ty = 0x1e then Ok (HandshakeDone, b)
      else if ty = 0x15228c05 then
        rbind (read_varint b) (\<lambda>(dcid_seq_num, b). rbind (read_varint b) (\<lambda>(error_code, b).
          read_tail (PathAbandon dcid_seq_num error_code) read_with_varint_length b))
      else if ty = 0x15228c06 then read3 PathStatus b
      else if ty = 0x30 then read_tail Datagram (take_data (length b)) b
      else if ty = 0x31 then rbind (read_varint b) (\<lambda>(len, b). read_tail Datagram (take_data len) b)
      else Err FrameEncodingError)"

text \<open>The arms of the \<open>match\<close> in their order.\<close>

definition validate_frame :: "PacketType \<Rightarrow> Frame \<Rightarrow> bool" where
  "validate_frame pkt_type frame =
     (if (case frame of Paddings _ \<Rightarrow> True | Ping _ \<Rightarrow> True | _ \<Rightarrow> False) then True
      else if pkt_type = ZeroRTT \<and>
        (case frame of
           Ack _ _ _ \<Rightarrow> True | Crypto _ _ _ \<Rightarrow> True | HandshakeDone \<Rightarrow> True | NewToken _ \<Rightarrow> True
         | PathResponse _ \<Rightarrow> True | RetireConnectionId _ \<Rightarrow> True | ConnectionClose _ _ _ \<Rightarrow> True
         | _ \<Rightarrow> False) then False
      else if (case frame of Ack _ _ _ \<Rightarrow> True | Crypto _ _ _ \<Rightarrow> True | ConnectionClose _ _ _ \<Rightarrow> True | _ \<Rightarrow> False)
        then True
      else pkt_type = OneRTT \<or> pkt_type = ZeroRTT)"

definition from_bytes :: "bytes \<Rightarrow> PacketType \<Rightarrow> (Frame \<times> nat) qres" where
  "from_bytes buf pkt =
     rbind (read_varint buf) (\<lambda>(frame_type, b).
     rbind (parse_frame frame_type b) (\<lambda>(frame, b).
       if \<not> validate_frame pkt frame then Err InvalidPacket
       else rbind (sub64 (length buf) (length b)) (\<lambda>n. Ok (frame, n))))"

section \<open>Encoding\<close>

definition crypto_header_wire_len :: "nat \<Rightarrow> nat qres" where
  "crypto_header_wire_len offset = rbind (encode_varint_len offset) (\<lambda>n. Ok (1 + n + 2))"

definition encode_crypto_header :: "nat \<Rightarrow> nat \<Rightarrow> wbuf \<Rightarrow> wbuf qres" where
  "encode_crypto_header offset len b =
     rbind (write_varint 0x06 b) (\<lambda>b.
     rbind (write_varint offset b) (\<lambda>b. write_varint_with_len len 2 b))"

definition stream_header_wire_len :: "nat \<Rightarrow> nat \<Rightarrow> nat qres" where
  "stream_header_wire_len stream_id offset =
     rbind (encode_varint_len stream_id) (\<lambda>n. rbind (encode_varint_len offset) (\<lambda>m. Ok (1 + n + m + 2)))"

definition encode_stream_header :: "nat \<Rightarrow> nat \<Rightarrow> nat \<Rightarrow> bool \<Rightarrow> wbuf \<Rightarrow> wbuf qres" where
  "encode_stream_header stream_id offset len fin b =
     (let frame_type = (if fin then 0x0e OR 0x01 else 0x0e) in
      rbind (write_varint frame_type b) (\<lambda>b.
      rbind (write_varint stream_id b) (\<lambda>b.
      rbind (write_varint offset b) (\<lambda>b. write_varint_with_len len 2 b))))"

text \<open>The loops of \<open>to_bytes\<close>: paddings, and the ACK ranges in descending order.\<close>

fun write_paddings :: "nat \<Rightarrow> wbuf \<Rightarrow> wbuf qres" where
  "write_paddings 0 b = Ok b"
| "write_paddings (Suc left) b = rbind (write_varint 0x00 b) (write_paddings left)"

fun write_ack_ranges :: "nat \<Rightarrow> range list \<Rightarrow> wbuf \<Rightarrow> wbuf qres" where
  "write_ack_ranges smallest_ack [] b = Ok b"
| "write_ack_ranges smallest_ack (r # rs) b =
     rbind (sub64 smallest_ack (snd r)) (\<lambda>d. rbind (sub64 d 1) (\<lambda>gap.
     rbind (sub64 (snd r) 1) (\<lambda>l. rbind (sub64 l (fst r)) (\<lambda>ack_range_len.
     rbind (write_varint gap b) (\<lambda>b. rbind (write_varint ack_range_len b) (\<lambda>b.
       write_ack_ranges (fst r) rs b))))))"

definition write_ecn :: "EcnCounts option \<Rightarrow> wbuf \<Rightarrow> wbuf qres" where
  "write_ecn ecn_counts b =
     (case ecn_counts of
        None \<Rightarrow> Ok b
      | Some ecn \<Rightarrow>
          rbind (write_varint (ect0_count ecn) b) (\<lambda>b.
          rbind (write_varint (ect1_count ecn) b) (\<lambda>b. write_varint (ecn_ce_count ecn) b)))"

definition write_ack :: "nat \<Rightarrow> range_set \<Rightarrow> EcnCounts option \<Rightarrow> wbuf \<Rightarrow> wbuf qres" where
  "write_ack ack_delay ack_ranges ecn_counts b =
     rbind (write_varint (if ecn_counts = None then 0x02 else 0x03) b) (\<lambda>b.
       case rev (rs_iter ack_ranges) of
         [] \<Rightarrow> Panic
       | first # it \<Rightarrow>
           rbind (sub64 (snd first) 1) (\<lambda>largest. rbind (sub64 largest (fst first)) (\<lambda>ack_range_len.
           rbind (write_varint largest b) (\<lambda>b.
           rbind (write_varint ack_delay b) (\<lambda>b.
           rbind (write_varint (length it) b) (\<lambda>b.
           rbind (write_varint ack_range_len b) (\<lambda>b.
           rbind (write_ack_ranges (fst first) it b) (write_ecn ecn_counts))))))))"

fun write_varints :: "nat list \<Rightarrow> wbuf \<Rightarrow> wbuf qres" where
  "write_varints [] b = Ok b"
| "write_varints (n # ns) b = rbind (write_varint n b) (write_varints ns)"

fun write_frame :: "Frame \<Rightarrow> wbuf \<Rightarrow> wbuf qres" where
  "write_frame (Paddings len) b = write_paddings len b"
| "write_frame (Ping _) b = write_varint 0x01 b"
| "write_frame (Ack ack_delay ack_ranges ecn_counts) b = write_ack ack_delay ack_ranges ecn_counts b"
| "write_frame (ResetStream stream_id error_code final_size) b =
     write_varints [0x04, stream_id, error_code, final_size] b"
| "write_frame (StopSending stream_id error_code) b = write_varints [0x05, stream_id, error_code] b"
| "write_frame (Crypto offset len data) b = rbind (encode_crypto_header offset len b) (write_slice data)"
| "write_frame (NewToken token) b = rbind (write_varints [0x07, length token] b) (write_slice token)"
| "write_frame (Stream stream_id offset len fin data) b =
     rbind (encode_stream_header stream_id offset len fin b) (write_slice data)"
| "write_frame (MaxData m) b = write_varints [0x10, m] b"
| "write_frame (MaxStreamData stream_id m) b = write_varints [0x11, stream_id, m] b"
| "write_frame (MaxStreams bidi m) b = write_varints [if bidi then 0x12 else 0x13, m] b"
| "write_frame (DataBlocked m) b = write_varints [0x14, m] b"
| "write_frame (StreamDataBlocked stream_id m) b = write_varints [0x15, stream_id, m] b"
| "write_frame (StreamsBlocked bidi m) b = write_varints [if bidi then 0x16 else 0x17, m] b"
| "write_frame (NewConnectionId seq_num retire_prior_to conn_id reset_token) b =
     rbind (write_varints [0x18, seq_num, retire_prior_to] b) (\<lambda>b.
     rbind (write_u8 (length conn_id) b) (\<lambda>b. rbind (write_slice conn_id b) (write_slice reset_token)))"
| "write_frame (RetireConnectionId seq_num) b = write_varints [0x19, seq_num] b"
| "write_frame (PathChallenge data) b = rbind (write_varint 0x1a b) (write_slice data)"
| "write_frame (PathResponse data) b = rbind (write_varint 0x1b b) (write_slice data)"
| "write_frame (ConnectionClose error_code frame_type reason) b =
     rbind (write_varints [0x1c, error_code, frame_type, length reason] b) (write_slice reason)"
| "write_frame (ApplicationClose error_code reason) b =
     rbind (write_varints [0x1d, error_code, length reason] b) (write_slice reason)"
| "write_frame HandshakeDone b = write_varint 0x1e b"
| "write_frame (PathAbandon dcid_seq_num error_code reason) b =
     rbind (write_varints [0x15228c05, dcid_seq_num, error_code, length reason] b) (write_slice reason)"
| "write_frame (PathStatus dcid_seq_num seq_num status) b =
     write_varints [0x15228c06, dcid_seq_num, seq_num, status] b"
| "write_frame (Datagram data) b = rbind (write_varints [0x31, length data] b) (write_slice data)"

text \<open>The bytes written at the start of a buffer of \<open>cap\<close> bytes; \<open>to_bytes\<close> returns their number.\<close>

definition to_bytes :: "Frame \<Rightarrow> nat \<Rightarrow> bytes qres" where
  "to_bytes frame cap = rbind (write_frame frame ([], cap)) (\<lambda>(out, room). Ok out)"

section \<open>Lengths\<close>

fun varints_len :: "nat list \<Rightarrow> nat qres" where
  "varints_len [] = Ok 0"
| "varints_len (n # ns) = rbind (encode_varint_len n) (\<lambda>l. rbind (varints_len ns) (\<lambda>m. Ok (l + m)))"

fun ack_ranges_len :: "nat \<Rightarrow> range list \<Rightarrow> nat qres" where
  "ack_ranges_len smallest_ack [] = Ok 0"
| "ack_ranges_len smallest_ack (r # rs) =
     rbind (sub64 smallest_ack (snd r)) (\<lambda>d. rbind (sub64 d 1) (\<lambda>gap.
     rbind (sub64 (snd r) 1) (\<lambda>l. rbind (sub64 l (fst r)) (\<lambda>ack_block.
     rbind (varints_len [gap, ack_block]) (\<lambda>n. rbind (ack_ranges_len (fst r) rs) (\<lambda>m. Ok (n + m)))))))"

definition ack_len :: "nat \<Rightarrow> range_set \<Rightarrow> EcnCounts option \<Rightarrow> nat qres" where
  "ack_len ack_delay ack_ranges ecn_counts =
     (case rev (rs_iter ack_ranges) of
        [] \<Rightarrow> Panic
      | first # it \<Rightarrow>
          rbind (sub64 (snd first) 1) (\<lambda>largest. rbind (sub64 largest (fst first)) (\<lambda>ack_block.
          rbind (varints_len [largest, ack_delay, length it, ack_block]) (\<lambda>n.
          rbind (ack_ranges_len (fst first) it) (\<lambda>m.
          rbind (case ecn_counts of
                   None \<Rightarrow> Ok 0
                 | Some ecn \<Rightarrow> varints_len [ect0_count ecn, ect1_count ecn, ecn_ce_count ecn]) (\<lambda>k.
            Ok (1 + n + m + k)))))))"

definition plus_len :: "nat \<Rightarrow> nat list \<Rightarrow> nat \<Rightarrow> nat qres" where
  "plus_len hdr ns tail = rbind (varints_len ns) (\<lambda>n. Ok (hdr + n + tail))"

fun wire_len :: "Frame \<Rightarrow> nat qres" where
  "wire_len (Paddings len) = Ok len"
| "wire_len (Ping _) = Ok 1"
| "wire_len (Ack ack_delay ack_ranges ecn_counts) = ack_len ack_delay ack_ranges ecn_counts"
| "wire_len (ResetStream stream_id error_code final_size) = plus_len 1 [stream_id, error_code, final_size] 0"
| "wire_len (StopSending stream_id error_code) = plus_len 1 [stream_id, error_code] 0"
| "wire_len (Crypto offset _ data) = plus_len 1 [offset] (2 + length data)"
| "wire_len (NewToken token) = plus_len 1 [length token] (length token)"
| "wire_len (Stream stream_id offset _ _ data) = plus_len 1 [stream_id, offset] (2 + length data)"
| "wire_len (MaxData m) = plus_len 1 [m] 0"
| "wire_len (MaxStreamData stream_id m) = plus_len 1 [stream_id, m] 0"
| "wire_len (MaxStreams _ m) = plus_len 1 [m] 0"
| "wire_len (DataBlocked m) = plus_len 1 [m] 0"
| "wire_len (StreamDataBlocked stream_id m) = plus_len 1 [stream_id, m] 0"
| "wire_len (StreamsBlocked _ m) = plus_len 1 [m] 0"
| "wire_len (NewConnectionId seq_num retire_prior_to conn_id reset_token) =
     plus_len 1 [seq_num, retire_prior_to] (1 + length conn_id + length reset_token)"
| "wire_len (RetireConnectionId seq_num) = plus_len 1 [seq_num] 0"
| "wire_len (PathChallenge _) = Ok (1 + 8)"
| "wire_len (PathResponse _) = Ok (1 + 8)"
| "wire_len (ConnectionClose error_code frame_type reason) =
     plus_len 1 [error_code, frame_type, length reason] (length reason)"
| "wire_len (ApplicationClose error_code reason) = plus_len 1 [error_code, length reason] (length reason)"
| "wire_len HandshakeDone = Ok 1"
| "wire_len (PathAbandon dcid_seq_num error_code reason) =
     plus_len 4 [dcid_seq_num, error_code, length reason] (length reason)"
| "wire_len (PathStatus dcid_seq_num seq_num status) = plus_len 4 [dcid_seq_num, seq_num, status] 0"
| "wire_len (Datagram data) = plus_len 1 [length data] (length data)"

section \<open>Classification\<close>

definition ack_eliciting :: "Frame \<Rightarrow> bool" where
  "ack_eliciting frame =
     (\<not> (case frame of
           Paddings _ \<Rightarrow> True | Ack _ _ _ \<Rightarrow> True | ApplicationClose _ _ \<Rightarrow> True | ConnectionClose _ _ _ \<Rightarrow> True
         | _ \<Rightarrow> False))"

definition probing :: "Frame \<Rightarrow> bool" where
  "probing frame =
     (case frame of
        Paddings _ \<Rightarrow> True | NewConnectionId _ _ _ _ \<Rightarrow> True | PathChallenge _ \<Rightarrow> True | PathResponse _ \<Rightarrow> True
      | _ \<Rightarrow> False)"

section \<open>What is on the wire\<close>

definition varints :: "nat list \<Rightarrow> bytes" where
  "varints ns = concat (map varint_bytes ns)"

fun ack_range_bytes :: "nat \<Rightarrow> range list \<Rightarrow> bytes" where
  "ack_range_bytes a [] = []"
| "ack_range_bytes a (r # rs) = varints [a - snd r - 1, snd r - 1 - fst r] @ ack_range_bytes (fst r) rs"

definition ack_bytes :: "nat \<Rightarrow> range_set \<Rightarrow> EcnCounts option \<Rightarrow> bytes" where
  "ack_bytes ack_delay ack_ranges ecn =
     (let first = hd (rev (rs_iter ack_ranges)); it = tl (rev (rs_iter ack_ranges)) in
      varints [if ecn = None then 2 else 3, snd first - 1, ack_delay, length it, snd first - 1 - fst first] @
      ack_range_bytes (fst first) it @
      (case ecn of None \<Rightarrow> [] | Some e \<Rightarrow> varints [ect0_count e, ect1_count e, ecn_ce_count e]))"

definition len_bytes :: "nat \<Rightarrow> bytes" where
  "len_bytes n = be_bytes 2 (n + 1 * 2 ^ 14)"

fun frame_bytes :: "Frame \<Rightarrow> bytes" where
  "frame_bytes (Paddings n) = replicate n 0"
| "frame_bytes (Ping _) = varints [1]"
| "frame_bytes (Ack d R ecn) = ack_bytes d R ecn"
| "frame_bytes (ResetStream s e f) = varints [4, s, e, f]"
| "frame_bytes (StopSending s e) = varints [5, s, e]"
| "frame_bytes (Crypto off n data) = varints [6, off] @ len_bytes n @ data"
| "frame_bytes (NewToken t) = varints [7] @ varint_slice t"
| "frame_bytes (Stream s off n fin data) = varints [if fin then 15 else 14, s, off] @ len_bytes n @ data"
| "frame_bytes (MaxData m) = varints [16, m]"
| "frame_bytes (MaxStreamData s m) = varints [17, s, m]"
| "frame_bytes (MaxStreams b m) = varints [if b then 18 else 19, m]"
| "frame_bytes (DataBlocked m) = varints [20, m]"
| "frame_bytes (StreamDataBlocked s m) = varints [21, s, m]"
| "frame_bytes (StreamsBlocked b m) = varints [if b then 22 else 23, m]"
| "frame_bytes (NewConnectionId q r cid tok) = varints [24, q, r] @ u8_slice cid @ tok"
| "frame_bytes (RetireConnectionId q) = varints [25, q]"
| "frame_bytes (PathChallenge d) = varints [26] @ d"
| "frame_bytes (PathResponse d) = varints [27] @ d"
| "frame_bytes (ConnectionClose e t m) = varints [28, e, t] @ varint_slice m"
| "frame_bytes (ApplicationClose e m) = varints [29, e] @ varint_slice m"
| "frame_bytes HandshakeDone = varints [30]"
| "frame_bytes (PathAbandon q e m) = varints [0x15228c05, q, e] @ varint_slice m"
| "frame_bytes (PathStatus q n s) = varints [0x15228c06, q, n, s]"
| "frame_bytes (Datagram d) = varints [49] @ varint_slice d"

text \<open>
  Well-formed frames: integers below \<open>2 ^ 62\<close>, ranges of packet numbers in the form a
  \<open>RangeSet\<close> keeps, data of the length that is announced.
\<close>

definition vints :: "nat list \<Rightarrow> bool" where
  "vints ns \<longleftrightarrow> (\<forall>n \<in> set ns. n \<le> VINT_MAX)"

definition ack_ok :: "range_set \<Rightarrow> bool" where
  "ack_ok R \<longleftrightarrow> rs_uinv R \<and> rs_iter R \<noteq> [] \<and> (\<forall>r \<in> set (rs_iter R). snd r \<le> VINT_MAX + 1)"

fun frame_wf :: "Frame \<Rightarrow> bool" where
  "frame_wf (Paddings n) \<longleftrightarrow> 0 < n"
| "frame_wf (Ping _) \<longleftrightarrow> True"
| "frame_wf (Ack d R ecn) \<longleftrightarrow> d \<le> VINT_MAX \<and> ack_ok R \<and>
     (\<forall>e. ecn = Some e \<longrightarrow> vints [ect0_count e, ect1_count e, ecn_ce_count e])"
| "frame_wf (ResetStream s e f) \<longleftrightarrow> vints [s, e, f]"
| "frame_wf (StopSending s e) \<longleftrightarrow> vints [s, e]"
| "frame_wf (Crypto off n data) \<longleftrightarrow> vints [off, n] \<and> length data = n"
| "frame_wf (NewToken t) \<longleftrightarrow> vints [length t]"
| "frame_wf (Stream s off n fin data) \<longleftrightarrow> vints [s, off] \<and> off + n < MAX_STREAM_SIZE \<and> length data = n"
| "frame_wf (MaxData m) \<longleftrightarrow> vints [m]"
| "frame_wf (MaxStreamData s m) \<longleftrightarrow> vints [s, m]"
| "frame_wf (MaxStreams b m) \<longleftrightarrow> vints [m]"
| "frame_wf (DataBlocked m) \<longleftrightarrow> vints [m]"
| "frame_wf (StreamDataBlocked s m) \<longleftrightarrow> vints [s, m]"
| "frame_wf (StreamsBlocked b m) \<longleftrightarrow> vints [m]"
| "frame_wf (NewConnectionId q r cid tok) \<longleftrightarrow>
     vints [q, r] \<and> length cid \<le> MAX_CID_LEN \<and> length tok = RESET_TOKEN_LEN"
| "frame_wf (RetireConnectionId q) \<longleftrightarrow> vints [q]"
| "frame_wf (PathChallenge d) \<longleftrightarrow> length d = 8"
| "frame_wf (PathResponse d) \<longleftrightarrow> length d = 8"
| "frame_wf (ConnectionClose e t m) \<longleftrightarrow> vints [e, t, length m]"
| "frame_wf (ApplicationClose e m) \<longleftrightarrow> vints [e, length m]"
| "frame_wf HandshakeDone \<longleftrightarrow> True"
| "frame_wf (PathAbandon q e m) \<longleftrightarrow> vints [q, e, length m]"
| "frame_wf (PathStatus q n s) \<longleftrightarrow> vints [q, n, s]"
| "frame_wf (Datagram d) \<longleftrightarrow> vints [length d]"

text \<open>CRYPTO and STREAM frames have a length field of two bytes.\<close>

definition fits_len :: "Frame \<Rightarrow> bool" where
  "fits_len frame \<longleftrightarrow> (case frame of Crypto _ n _ \<Rightarrow> n < 2 ^ 14 | Stream _ _ n _ _ \<Rightarrow> n < 2 ^ 14 | _ \<Rightarrow> True)"

subsection \<open>The encoder\<close>

lemma varints_simps [simp]: "varints [] = []" "varints (n # ns) = varint_bytes n @ varints ns"
  by (simp_all add: varints_def)

lemma vints_simps [simp]: "vints []" "vints (n # ns) \<longleftrightarrow> n \<le> VINT_MAX \<and> vints ns"
  by (simp_all add: vints_def)

lemma small_vint [simp]: "numeral k \<le> VINT_MAX \<longleftrightarrow> numeral k \<le> (4611686018427387903::nat)" "1 \<le> VINT_MAX" "0 \<le> VINT_MAX"
  "Suc 0 \<le> VINT_MAX"
  by (simp_all add: VINT_MAX_def)

lemma write_varints_emit: "vints ns \<Longrightarrow> write_varints ns = emit (varints ns)"
proof (induction ns)
  case (Cons n ns)
  show ?case by (rule ext) (use Cons in \<open>simp add: varint.write_emit\<close>)
qed (simp add: fun_eq_iff)

lemma varint_bytes_0: "varint_bytes 0 = [0]"
  by (simp add: varint_bytes_def be_bytes.simps)

lemma write_paddings_emit: "write_paddings n = emit (replicate n 0)"
proof (induction n)
  case (Suc n)
  show ?case by (rule ext) (simp add: Suc varint.write_emit varint_bytes_0)
qed (simp add: fun_eq_iff)

definition desc_ok :: "nat \<Rightarrow> range list \<Rightarrow> bool" where
  "desc_ok a rs \<longleftrightarrow> sorted_wrt (\<lambda>r q. snd q < fst r) rs \<and> (\<forall>r \<in> set rs. fst r < snd r \<and> snd r < a)"

lemma desc_ok_simps [simp]: "desc_ok a []"
  "desc_ok a (r # rs) \<longleftrightarrow> fst r < snd r \<and> snd r < a \<and> desc_ok (fst r) rs"
  by (auto simp: desc_ok_def intro: less_trans)

lemma write_ack_ranges_emit:
  "desc_ok a rs \<Longrightarrow> a \<le> VINT_MAX \<Longrightarrow> write_ack_ranges a rs = emit (ack_range_bytes a rs)"
proof (induction rs arbitrary: a)
  case (Cons r rs)
  then have "snd r \<le> a" "1 \<le> a - snd r" "1 \<le> snd r" "fst r \<le> snd r - 1" "fst r \<le> VINT_MAX"
    "a - snd r - 1 \<le> VINT_MAX" "snd r - 1 - fst r \<le> VINT_MAX" "desc_ok (fst r) rs" by auto
  then show ?case by (intro ext) (simp add: Cons.IH sub64_def varint.write_emit)
qed (simp add: fun_eq_iff)

lemma rs_ok_sorted_gaps: "rs_ok m \<Longrightarrow> sorted_wrt (\<lambda>q r. snd q < fst r) m"
  by (induction m) (auto simp: rs_ok_Cons)

lemma ack_ok_desc:
  assumes "ack_ok R"
  obtains first it where "rev (rs_iter R) = first # it" "desc_ok (fst first) it" "fst first < snd first"
    "snd first \<le> VINT_MAX + 1" "length it \<le> VINT_MAX"
proof -
  have ok: "rs_ok (rs_set R)" "rs_set R \<noteq> []" "\<forall>r \<in> set (rs_set R). snd r \<le> VINT_MAX + 1"
    using assms by (simp_all add: ack_ok_def rs_uinv_def rs_iter_def)
  obtain first it where r: "rev (rs_set R) = first # it" using ok(2) by (cases "rev (rs_set R)") auto
  have st: "set (rs_set R) = set (first # it)" unfolding r[symmetric] by simp
  have "sorted_wrt (\<lambda>r q. snd q < fst r) (rev (rs_set R))" by (simp add: sorted_wrt_rev rs_ok_sorted_gaps[OF ok(1)])
  then have "desc_ok (fst first) it" "fst first < snd first"
    using ok(1) st unfolding r desc_ok_def rs_ok_def by auto
  moreover have "2 * length (rs_set R) \<le> VINT_MAX + 2"
    using rs_ok_length[OF ok(1) _ ok(2), of 0 "VINT_MAX + 1"] ok(3) by simp
  then have "length it \<le> VINT_MAX" using arg_cong[OF r, of length] by simp
  ultimately show ?thesis using r ok(3) st by (intro that[of first it]) (simp_all add: rs_iter_def)
qed

lemma write_ecn_emit:
  assumes "\<forall>e. ecn = Some e \<longrightarrow> vints [ect0_count e, ect1_count e, ecn_ce_count e]"
  shows "write_ecn ecn = emit (case ecn of None \<Rightarrow> [] | Some e \<Rightarrow> varints [ect0_count e, ect1_count e, ecn_ce_count e])"
  using assms by (intro ext) (auto simp: write_ecn_def varint.write_emit split: option.split)

lemma write_ack_emit:
  assumes "ack_ok R" "d \<le> VINT_MAX" "\<forall>e. ecn = Some e \<longrightarrow> vints [ect0_count e, ect1_count e, ecn_ce_count e]"
  shows "write_ack d R ecn = emit (ack_bytes d R ecn)"
proof -
  obtain first it where a: "rev (rs_iter R) = first # it" "desc_ok (fst first) it" "fst first < snd first"
    "snd first \<le> VINT_MAX + 1" "length it \<le> VINT_MAX" using ack_ok_desc[OF assms(1)] by blast
  then have "1 \<le> snd first" "fst first \<le> snd first - 1" "snd first - 1 \<le> VINT_MAX" "snd first - 1 - fst first \<le> VINT_MAX"
    "fst first \<le> VINT_MAX" by auto
  then show ?thesis using a assms(2)
    by (intro ext) (simp add: write_ack_def ack_bytes_def Let_def sub64_def varint.write_emit write_ack_ranges_emit
        write_ecn_emit[OF assms(3)] del: One_nat_def)
qed

lemma write_len_emit: "n < 2 ^ 14 \<Longrightarrow> write_varint_with_len n 2 = emit (len_bytes n)"
  by (simp only: len_bytes_def write_varint_len_eq(2))

lemma write_headers_emit:
  "off \<le> VINT_MAX \<Longrightarrow> n < 2 ^ 14 \<Longrightarrow> encode_crypto_header off n = emit (varints [6, off] @ len_bytes n)"
  "vints [s, off] \<Longrightarrow> n < 2 ^ 14 \<Longrightarrow>
     encode_stream_header s off n fin = emit (varints [if fin then 15 else 14, s, off] @ len_bytes n)"
  by (intro ext, simp add: encode_crypto_header_def encode_stream_header_def varint.write_emit write_len_emit)+

lemma write_slice_emit: "write_slice d = emit d"
  by (rule slice.write_emit[OF refl])

lemma write_frame_emit:
  assumes "frame_wf f" "fits_len f"
  shows "write_frame f = emit (frame_bytes f)"
  using assms
  by (cases f) (auto simp: write_paddings_emit varint.write_emit write_varints_emit write_ack_emit write_headers_emit
      fits_len_def write_slice_emit varint_slice_def u8_slice_def u8.write_emit MAX_CID_LEN_def fun_eq_iff)

lemma varints_len_eq: "vints ns \<Longrightarrow> varints_len ns = Ok (length (varints ns))"
  by (induction ns) (simp_all add: encode_varint_len_eq)

lemma ack_ranges_len_eq:
  "desc_ok a rs \<Longrightarrow> a \<le> VINT_MAX \<Longrightarrow> ack_ranges_len a rs = Ok (length (ack_range_bytes a rs))"
proof (induction rs arbitrary: a)
  case (Cons r rs)
  then have "snd r \<le> a" "1 \<le> a - snd r" "1 \<le> snd r" "fst r \<le> snd r - 1" "fst r \<le> VINT_MAX"
    "a - snd r - 1 \<le> VINT_MAX" "snd r - 1 - fst r \<le> VINT_MAX" "desc_ok (fst r) rs" by auto
  then show ?case by (simp add: Cons.IH sub64_def encode_varint_len_eq)
qed simp

lemma small_varint_len: "n < 64 \<Longrightarrow> length (varint_bytes n) = 1" "length (varint_bytes 0x15228c05) = 4"
    "length (varint_bytes 0x15228c06) = 4"
  by (simp_all add: varint_bytes_def)

lemma ack_len_eq:
  assumes "ack_ok R" "d \<le> VINT_MAX" "\<forall>e. ecn = Some e \<longrightarrow> vints [ect0_count e, ect1_count e, ecn_ce_count e]"
  shows "ack_len d R ecn = Ok (length (ack_bytes d R ecn))"
proof -
  obtain first it where a: "rev (rs_iter R) = first # it" "desc_ok (fst first) it" "fst first < snd first"
    "snd first \<le> VINT_MAX + 1" "length it \<le> VINT_MAX" using ack_ok_desc[OF assms(1)] by blast
  then have "1 \<le> snd first" "fst first \<le> snd first - 1" "snd first - 1 \<le> VINT_MAX" "snd first - 1 - fst first \<le> VINT_MAX"
    "fst first \<le> VINT_MAX" by auto
  then show ?thesis using a assms(2,3)
    by (auto simp: ack_len_def ack_bytes_def Let_def sub64_def varints_len_eq ack_ranges_len_eq
        small_varint_len encode_varint_len_eq split: option.split)
qed

lemma wire_len_eq:
  assumes "frame_wf f"
  shows "wire_len f = Ok (length (frame_bytes f))"
  using assms
  by (cases f) (auto simp: plus_len_def encode_varint_len_eq ack_len_eq small_varint_len len_bytes_def
      varint_slice_def u8_slice_def)

subsection \<open>The decoder on what was encoded\<close>

lemma read_varint_back [simp]: "n \<le> VINT_MAX \<Longrightarrow> read_varint (varint_bytes n @ rest) = Ok (n, rest)"
  by (rule varint.read_back)

lemma read_len_back:
  assumes "n < 2 ^ 14"
  shows "read_varint (len_bytes n @ rest) = Ok (n, rest)"
proof -
  let ?m = "n + 1 * 2 ^ 14"
  have "decode_varint_len ((be_bytes 2 ?m @ rest) ! 0) = Ok 2"
    using decode_len_be[of 2 ?m] prefix_split[OF assms, of 1] assms by (simp add: nth_append)
  then show ?thesis using u16.read_back[of ?m rest] prefix_split[OF assms, of 1] assms
    by (simp add: len_bytes_def read_varint_eq and_mask_nat)
qed

lemma take_data_back: "take_data (length d) (d @ rest) = Ok (d, rest)"
  by (simp add: take_data_def skip_eq split_to_def)

lemma count_zeros_back:
  "\<not> (\<exists>r. rest = 0 # r) \<Longrightarrow> count_zeros k (replicate n 0 @ rest) = (k + n, rest)"
  by (induction n arbitrary: k) (auto, cases rest, auto)

lemmas ack_arith = sub64_def add64_def VINT_MAX_def u64_max_def

lemma parse_ack_ranges_back:
  "desc_ok a rs \<Longrightarrow> a \<le> VINT_MAX \<Longrightarrow>
    parse_ack_ranges (length rs) a S (ack_range_bytes a rs @ rest) = Ok (fold (\<lambda>r s. rs_insert s r) rs S, rest)"
proof (induction rs arbitrary: a S)
  case (Cons r rs)
  let ?gap = "a - snd r - 1" and ?len = "snd r - 1 - fst r"
  from Cons.prems have "?gap \<le> VINT_MAX" "?len \<le> VINT_MAX" "\<not> a < 2 + ?gap" "\<not> snd r - 1 < ?len"
    "desc_ok (fst r) rs" "fst r \<le> VINT_MAX" by auto
  moreover have "add64 2 ?gap = Ok (2 + ?gap)" "sub64 a ?gap = Ok (snd r + 1)" "sub64 (snd r + 1) 2 = Ok (snd r - 1)"
    "sub64 (snd r - 1) ?len = Ok (fst r)" "add64 (snd r - 1) 1 = Ok (snd r)"
    using Cons.prems by (auto simp: ack_arith)
  ultimately show ?case by (simp add: Cons.IH del: One_nat_def)
qed simp

lemma fold_insert_ranges:
  "rs_uinv S \<Longrightarrow> \<forall>r \<in> set rs. snd r \<le> u64_max \<Longrightarrow>
    rs_uinv (fold (\<lambda>r s. rs_insert s r) rs S) \<and>
    rs_alpha (fold (\<lambda>r s. rs_insert s r) rs S) = rs_alpha S \<union> rs_elems rs"
  by (induction rs arbitrary: S) (auto simp: rs_specs seg_def)

lemma ack_set_back:
  assumes "ack_ok R" "rev (rs_iter R) = first # it"
  shows "fold (\<lambda>r s. rs_insert s r) it (rs_insert rs_default first) = R"
proof -
  let ?S = "fold (\<lambda>r s. rs_insert s r) (first # it) rs_default"
  have st: "set (rs_set R) = set (first # it)" using assms(2) by (metis rs_iter_def set_rev)
  have R: "rs_uinv R" using assms(1) by (simp add: ack_ok_def)
  then have "\<forall>r \<in> set (first # it). snd r \<le> u64_max" unfolding st[symmetric] by (simp add: rs_uinv_def rs_ok_def)
  then have "rs_uinv ?S" "rs_alpha ?S = rs_elems (first # it)"
    using fold_insert_ranges[of rs_default "first # it"] rs.invar_empty rs.elems_empty by blast+
  moreover have "rs_alpha R = rs_elems (first # it)" unfolding rs_alpha_def rs_elems_def st ..
  ultimately have "rs_set ?S = rs_set R" using rs_ok_unique R by (simp add: rs_uinv_def rs_alpha_def)
  then show ?thesis using R \<open>rs_uinv ?S\<close> by (simp add: rs_uinv_def)
qed

lemma parse_ecn_back:
  assumes "\<forall>e. ecn = Some e \<longrightarrow> vints [ect0_count e, ect1_count e, ecn_ce_count e]"
    and ty: "ty = (if ecn = None then 2 else 3)"
  shows "parse_ecn_counts (take_bit 8 ty) ((case ecn of None \<Rightarrow> [] |
    Some e \<Rightarrow> varints [ect0_count e, ect1_count e, ecn_ce_count e]) @ rest) = Ok (ecn, rest)"
  using assms by (cases ecn) (auto simp: parse_ecn_counts_def take_bit_eq_mod)

lemma parse_ack_back:
  assumes "ack_ok R" "d \<le> VINT_MAX" "\<forall>e. ecn = Some e \<longrightarrow> vints [ect0_count e, ect1_count e, ecn_ce_count e]"
  defines "ty \<equiv> if ecn = None then 2 else 3"
  shows "\<exists>body. ack_bytes d R ecn = varint_bytes ty @ body \<and>
    parse_ack_frame ty (body @ rest) = Ok (Ack d R ecn, length body)"
proof -
  obtain first it where a: "rev (rs_iter R) = first # it" "desc_ok (fst first) it" "fst first < snd first"
    "snd first \<le> VINT_MAX + 1" "length it \<le> VINT_MAX" using ack_ok_desc[OF assms(1)] by blast
  have e: "snd first - 1 \<le> VINT_MAX" "\<not> snd first - 1 < snd first - 1 - fst first" "fst first \<le> VINT_MAX"
    "snd first - 1 - (snd first - 1 - fst first) = fst first" "snd first - 1 + 1 = snd first"
    "snd first - 1 - fst first \<le> VINT_MAX" using a(3,4) by auto
  let ?ecn = "case ecn of None \<Rightarrow> [] | Some e \<Rightarrow> varints [ect0_count e, ect1_count e, ecn_ce_count e]"
  let ?body = "varints [snd first - 1, d, length it, snd first - 1 - fst first] @ ack_range_bytes (fst first) it @ ?ecn"
  have "ack_bytes d R ecn = varint_bytes ty @ ?body" by (simp add: ack_bytes_def Let_def a(1) ty_def)
  moreover have "parse_ack_frame ty (?body @ rest) = Ok (Ack d R ecn, length ?body)"
    using e a(5) assms(2) parse_ack_ranges_back[OF a(2) e(3)] parse_ecn_back[OF assms(3) ty_def[THEN meta_eq_to_obj_eq]]
      ack_set_back[OF assms(1) a(1)]
    by (simp add: parse_ack_frame_def ack_arith del: One_nat_def)
  ultimately show ?thesis by blast
qed

text \<open>Metadata of a PING frame is not transmitted.\<close>

definition on_wire :: "Frame \<Rightarrow> Frame" where
  "on_wire f = (case f of Ping _ \<Rightarrow> Ping None | _ \<Rightarrow> f)"

lemma stream_type_bits: "take_bit 8 14 = (14::nat)" "take_bit 8 15 = (15::nat)"
  by (simp_all add: take_bit_eq_mod)

lemma parse_frame_back:
  assumes "frame_wf f" "fits_len f" "\<forall>n r. f = Paddings n \<longrightarrow> rest \<noteq> 0 # r"
  shows "rbind (read_varint (frame_bytes f @ rest)) (\<lambda>(ty, b). parse_frame ty b) = Ok (on_wire f, rest)"
proof (cases f)
  case (Paddings n)
  then obtain k where "n = Suc k" using assms(1) by (cases n) auto
  then show ?thesis using Paddings assms(3) varint.read_back[of 0 "replicate k 0 @ rest"] count_zeros_back[of rest 1 k]
    by (simp add: varint_bytes_0 parse_frame_def on_wire_def)
next
  case (Ack d R ecn)
  let ?ty = "if ecn = None then 2 else 3 :: nat"
  have ty: "?ty \<le> VINT_MAX" "parse_frame ?ty b = rbind (parse_ack_frame ?ty b)
      (\<lambda>(frame, len). rbind (skip len b) (\<lambda>(_, b). Ok (frame, b)))" for b
    by (simp_all add: parse_frame_def)
  have "ack_ok R" "d \<le> VINT_MAX" "\<forall>e. ecn = Some e \<longrightarrow> vints [ect0_count e, ect1_count e, ecn_ce_count e]"
    using assms(1) Ack by simp_all
  then obtain body where "ack_bytes d R ecn = varint_bytes ?ty @ body"
    "parse_ack_frame ?ty (body @ rest) = Ok (Ack d R ecn, length body)"
    using parse_ack_back by blast
  then show ?thesis unfolding Ack frame_bytes.simps using ty(1) by (simp add: ty(2) on_wire_def skip_eq)
next
  case (Crypto off n data)
  then show ?thesis using assms take_data_back[of data rest]
    by (simp add: parse_frame_def on_wire_def read_len_back fits_len_def read_tail_def)
next
  case (Stream s off n fin data)
  have "off + n \<le> u64_max" using assms(1) Stream by (simp add: MAX_STREAM_SIZE_def u64_max_def)
  then show ?thesis using assms Stream take_data_back[of data rest]
    by (auto simp: parse_frame_def parse_stream_def on_wire_def read_len_back fits_len_def stream_type_bits add64_def)
next
  case (NewConnectionId q r cid tok)
  then show ?thesis using assms u8_prefixed.read_back[of cid "tok @ rest"] slice.read_back[of tok 16 rest]
    by (simp add: parse_frame_def on_wire_def read_tail_def cid_new_def MAX_CID_LEN_def RESET_TOKEN_LEN_def)
next
  case (Datagram d)
  then show ?thesis using assms take_data_back[of d rest]
    by (simp add: parse_frame_def on_wire_def read_tail_def varint_slice_def)
qed (use assms in \<open>auto simp: parse_frame_def on_wire_def read1_def read2_def read3_def read_tail_def
    prefixed.read_back slice.read_back\<close>)

subsection \<open>The decoder on arbitrary bytes\<close>

text \<open>
  A reader that does not panic, returns values of which \<open>P\<close> holds, and leaves a suffix
  of what it was given.
\<close>

fun safe :: "('a \<Rightarrow> bool) \<Rightarrow> bytes \<Rightarrow> ('a \<times> bytes) qres \<Rightarrow> bool" where
  "safe P b (Ok (x, b')) \<longleftrightarrow> P x \<and> suffix b' b"
| "safe P b (Err e) \<longleftrightarrow> True"
| "safe P b Panic \<longleftrightarrow> False"

lemma safe_bind:
  assumes "safe P b r" "\<And>x b'. P x \<Longrightarrow> suffix b' b \<Longrightarrow> safe Q b' (f x b')"
  shows "safe Q b (rbind r (\<lambda>(x, b'). f x b'))"
proof (cases r)
  case (Ok y)
  obtain x b' where y: "y = (x, b')" by fastforce
  then have "P x" "suffix b' b" "safe Q b' (f x b')" using assms Ok by auto
  then show ?thesis using Ok y by (cases "(Q, b', f x b')" rule: safe.cases) (auto intro: suffix_order.order_trans)
qed (use assms in auto)

lemma safe_weaken: "safe P b r \<Longrightarrow> (\<And>x. P x \<Longrightarrow> Q x) \<Longrightarrow> safe Q b r"
  by (cases "(P, b, r)" rule: safe.cases) auto

lemma decode_varint_len_total: "decode_varint_len x \<in> {Ok 1, Ok 2, Ok 4, Ok 8}"
proof -
  have "unat x < 4 * 2 ^ 6" using unsigned_less[of x] by simp
  then have "unat (drop_bit 6 x) < 4"
    unfolding unat_drop_bit_eq by (simp only: drop_bit_eq_div less_mult_imp_div_less)
  then have "unat (drop_bit 6 x) = 0 \<or> unat (drop_bit 6 x) = 1 \<or> unat (drop_bit 6 x) = 2 \<or> unat (drop_bit 6 x) = 3"
    by linarith
  then show ?thesis by (auto simp: decode_varint_len_def Let_def)
qed

lemma read_varint_safe: "safe (\<lambda>n. n \<le> VINT_MAX) b (read_varint b)"
proof (cases "length b < 1")
  case False
  have "unat (b ! 0) \<le> VINT_MAX" using unsigned_less[of "b ! 0"] unfolding VINT_MAX_def by (rule order.strict_implies_order[OF less_le_trans]) simp
  moreover have "be_value (take 1 b) = unat (b ! 0)" using False by (cases b) simp_all
  moreover have "n mod 16384 \<le> VINT_MAX" "n mod 1073741824 \<le> VINT_MAX" "n mod 4611686018427387904 \<le> VINT_MAX" for n
    using mod_less_divisor[of 16384 n] mod_less_divisor[of 1073741824 n] mod_less_divisor[of 4611686018427387904 n]
    by (simp_all add: VINT_MAX_def del: mod_less_divisor)
  ultimately show ?thesis using decode_varint_len_total[of "b ! 0"] False
    by (auto simp: read_varint_eq read_u8_eq read_u16_eq read_u32_eq read_u64_eq and_mask_nat suffix_drop)
qed (simp add: read_varint_eq)

lemma read_bytes_safe: "safe (\<lambda>d. length d = n) b (read_bytes n b)"
  by (simp add: read_bytes_eq suffix_drop)

lemma take_data_safe: "safe (\<lambda>d. length d = n) b (take_data n b)"
  by (simp add: take_data_def skip_eq split_to_def suffix_drop)

lemma read_prefixed_safe: "safe (\<lambda>d. length d \<le> VINT_MAX) b (read_with_varint_length b)"
  unfolding read_with_varint_length_def
  by (rule safe_bind[OF read_varint_safe]) (rule safe_weaken[OF read_bytes_safe], simp)

lemma read_u8_prefixed_safe: "safe (\<lambda>d. True) b (read_with_u8_length b)"
  unfolding read_with_u8_length_def
  by (rule safe_bind[of "\<lambda>_. True"]) (auto simp: read_u8_eq suffix_drop intro: safe_weaken[OF read_bytes_safe])

lemma ack_ok_alpha: "ack_ok R \<longleftrightarrow> rs_uinv R \<and> rs_alpha R \<noteq> {} \<and> rs_alpha R \<subseteq> {..VINT_MAX}"
proof (cases "rs_uinv R")
  case True
  then have ok: "rs_ok (rs_set R)" by (simp add: rs_uinv_def)
  have "(\<forall>r \<in> set (rs_set R). snd r \<le> VINT_MAX + 1) \<longleftrightarrow> rs_elems (rs_set R) \<subseteq> {..VINT_MAX}"
  proof
    assume sub: "rs_elems (rs_set R) \<subseteq> {..VINT_MAX}"
    show "\<forall>r \<in> set (rs_set R). snd r \<le> VINT_MAX + 1"
    proof
      fix r assume r: "r \<in> set (rs_set R)"
      then have "fst r < snd r" using ok by (simp add: rs_ok_def)
      then have "snd r - 1 \<in> rs_elems (rs_set R)" using r by (auto simp: rs_elems_iff intro!: bexI[of _ r])
      then show "snd r \<le> VINT_MAX + 1" using sub by auto
    qed
  qed (fastforce simp: rs_elems_iff)
  then show ?thesis using True rs_elems_empty[OF ok] by (simp add: ack_ok_def rs_iter_def rs_alpha_def)
qed (simp add: ack_ok_def)

lemma ack_ok_insert:
  assumes "rs_uinv S" "S = rs_default \<or> ack_ok S" "a \<le> b" "b \<le> VINT_MAX"
  shows "ack_ok (rs_insert S (a, b + 1))"
proof -
  have "b + 1 \<le> u64_max" using assms(4) by (simp add: VINT_MAX_def u64_max_def)
  then show ?thesis using assms rs.elems_empty by (auto simp: ack_ok_alpha rs_specs seg_def)
qed

text \<open>The arithmetic of the ACK ranges is defined behind the guards.\<close>

lemma ack_range_end: "l \<le> VINT_MAX \<Longrightarrow> add64 l 1 = Ok (l + 1)" "\<not> l < len \<Longrightarrow> sub64 l len = Ok (l - len)"
  by (simp_all add: ack_arith)

lemma gap_bound: "gap \<le> VINT_MAX \<Longrightarrow> add64 2 gap = Ok (2 + gap)"
  "\<not> a < 2 + gap \<Longrightarrow> sub64 a gap = Ok (a - gap)" "\<not> a < 2 + gap \<Longrightarrow> sub64 (a - gap) 2 = Ok (a - gap - 2)"
  by (simp_all add: ack_arith)

lemma parse_ack_ranges_safe:
  "ack_ok S \<Longrightarrow> a \<le> VINT_MAX \<Longrightarrow> safe ack_ok b (parse_ack_ranges n a S b)"
proof (induction n arbitrary: a S b)
  case (Suc n)
  show ?case unfolding parse_ack_ranges.simps
  proof (rule safe_bind[OF read_varint_safe])
    fix gap b' assume gap: "gap \<le> VINT_MAX"
    have "safe ack_ok b' (rbind (read_varint b') (\<lambda>(len, b). if l < len then Err FrameEncodingError
        else rbind (sub64 l len) (\<lambda>sa. rbind (add64 l 1) (\<lambda>e. parse_ack_ranges n sa (rs_insert S (sa, e)) b))))"
      if "l \<le> VINT_MAX" for l
    proof (rule safe_bind[OF read_varint_safe])
      fix len b'' assume "len \<le> VINT_MAX"
      have "ack_ok (rs_insert S (l - len, l + 1))" "l - len \<le> VINT_MAX"
        using ack_ok_insert[of S "l - len" l] that Suc.prems(1) by (simp_all add: ack_ok_def[of S])
      then show "safe ack_ok b'' (if l < len then Err FrameEncodingError
          else rbind (sub64 l len) (\<lambda>sa. rbind (add64 l 1) (\<lambda>e. parse_ack_ranges n sa (rs_insert S (sa, e)) b'')))"
        using Suc.IH that by (simp add: ack_range_end del: One_nat_def)
    qed
    then show "safe ack_ok b' (rbind (add64 2 gap) (\<lambda>least. if a < least then Err FrameEncodingError
        else rbind (sub64 a gap) (\<lambda>d. rbind (sub64 d 2) (\<lambda>l. rbind (read_varint b') (\<lambda>(len, b).
          if l < len then Err FrameEncodingError
          else rbind (sub64 l len) (\<lambda>sa. rbind (add64 l 1) (\<lambda>e. parse_ack_ranges n sa (rs_insert S (sa, e)) b)))))))"
      using gap Suc.prems(2) by (simp add: gap_bound)
  qed
qed simp

lemma safe_then:
  assumes "safe P b r" "\<And>x b'. P x \<Longrightarrow> suffix b' b \<Longrightarrow> Q (f x b')" "\<And>e. Q (Err e)"
  shows "Q (rbind r (\<lambda>(x, b'). f x b'))"
  using assms by (cases "(P, b, r)" rule: safe.cases) auto

lemma parse_ecn_safe:
  "safe (\<lambda>ecn. \<forall>e. ecn = Some e \<longrightarrow> vints [ect0_count e, ect1_count e, ecn_ce_count e]) b (parse_ecn_counts first b)"
  unfolding parse_ecn_counts_def by (auto intro!: safe_bind[OF read_varint_safe])

fun ack_parsed :: "bytes \<Rightarrow> (Frame \<times> nat) qres \<Rightarrow> bool" where
  "ack_parsed b (Ok (f, n)) \<longleftrightarrow> frame_wf f \<and> n \<le> length b"
| "ack_parsed b (Err e) \<longleftrightarrow> True"
| "ack_parsed b Panic \<longleftrightarrow> False"

lemma parse_ack_frame_safe: "ack_parsed b (parse_ack_frame ty b)"
proof -
  have "ack_parsed b (rbind (parse_ack_ranges n (l - len) (rs_insert rs_default (l - len, l + 1)) b1) (\<lambda>(R, b1).
      rbind (parse_ecn_counts (take_bit 8 ty) b1) (\<lambda>(ecn, b1).
      rbind (sub64 (length b) (length b1)) (\<lambda>n. Ok (Ack d R ecn, n)))))"
    if "l \<le> VINT_MAX" "d \<le> VINT_MAX" "len \<le> l" "suffix b1 b" for l d n len b1
  proof (rule safe_then[where Q = "ack_parsed b", OF parse_ack_ranges_safe])
    show "ack_ok (rs_insert rs_default (l - len, l + 1))" "l - len \<le> VINT_MAX"
      using that ack_ok_insert[OF rs.invar_empty, of "l - len" l] by simp_all
    fix R b2 assume R: "ack_ok R" "suffix b2 b1"
    show "ack_parsed b (rbind (parse_ecn_counts (take_bit 8 ty) b2) (\<lambda>(ecn, b1).
        rbind (sub64 (length b) (length b1)) (\<lambda>n. Ok (Ack d R ecn, n))))"
    proof (rule safe_then[where Q = "ack_parsed b", OF parse_ecn_safe])
      fix ecn :: "EcnCounts option" and b3
      assume "\<forall>e. ecn = Some e \<longrightarrow> vints [ect0_count e, ect1_count e, ecn_ce_count e]" "suffix b3 b2"
      moreover have "length b3 \<le> length b" using that(4) R(2) \<open>suffix b3 b2\<close> by (meson suffix_length_le order_trans)
      ultimately show "ack_parsed b (rbind (sub64 (length b) (length b3)) (\<lambda>n. Ok (Ack d R ecn, n)))"
        using that(2) R(1) by (simp add: sub64_def)
    qed simp
  qed simp
  then show ?thesis unfolding parse_ack_frame_def
    by (intro safe_then[where Q = "ack_parsed b", OF read_varint_safe])
      (auto simp: ack_range_end simp del: One_nat_def intro: suffix_order.order_trans)
qed

lemma read_vints_safe:
  assumes "\<And>x y z. vints [x, y, z] \<Longrightarrow> frame_wf (f x y z)"
  shows "safe frame_wf b (read3 f b)"
  unfolding read3_def read2_def read1_def using assms by (auto intro!: safe_bind[OF read_varint_safe])

lemma read2_safe: "(\<And>x y. vints [x, y] \<Longrightarrow> frame_wf (f x y)) \<Longrightarrow> safe frame_wf b (read2 f b)"
  unfolding read2_def read1_def by (auto intro!: safe_bind[OF read_varint_safe])

lemma read1_safe: "(\<And>x. vints [x] \<Longrightarrow> frame_wf (f x)) \<Longrightarrow> safe frame_wf b (read1 f b)"
  unfolding read1_def by (auto intro!: safe_bind[OF read_varint_safe])

lemma read_tail_safe:
  "(\<And>d. length d = n \<Longrightarrow> frame_wf (f d)) \<Longrightarrow> safe frame_wf b (read_tail f (take_data n) b)"
  "(\<And>d. length d = n \<Longrightarrow> frame_wf (f d)) \<Longrightarrow> safe frame_wf b (read_tail f (read_bytes n) b)"
  "(\<And>d. length d \<le> VINT_MAX \<Longrightarrow> frame_wf (f d)) \<Longrightarrow> safe frame_wf b (read_tail f read_with_varint_length b)"
  unfolding read_tail_def
  by (auto intro!: safe_bind[OF take_data_safe] safe_bind[OF read_bytes_safe] safe_bind[OF read_prefixed_safe])

lemma count_zeros_safe: "count_zeros k b = (n, b') \<Longrightarrow> k \<le> n \<and> suffix b' b"
  by (induction k b rule: count_zeros.induct) (auto split: if_splits intro: suffix_ConsI)

lemma parse_stream_safe:
  assumes "length b \<le> VINT_MAX"
  shows "safe frame_wf b (parse_stream first b)"
  unfolding parse_stream_def
proof (rule safe_bind[OF read_varint_safe])
  fix s b1 assume s: "s \<le> VINT_MAX" "suffix b1 b"
  show "safe frame_wf b1 (rbind (if first AND 4 \<noteq> 0 then read_varint b1 else Ok (0, b1)) (\<lambda>(offset, b).
     rbind (if first AND 2 \<noteq> 0 then read_varint b else Ok (length b, b)) (\<lambda>(len, b).
     rbind (add64 offset len) (\<lambda>max_off. if max_off \<ge> MAX_STREAM_SIZE then Err FrameEncodingError
       else let fin = (first AND 1 \<noteq> 0) in
         rbind (take_data len b) (\<lambda>(data, b). Ok (Stream s offset len fin data, b))))))"
  proof (rule safe_bind[of "\<lambda>n. n \<le> VINT_MAX"])
    fix off b2 assume off: "off \<le> VINT_MAX" "suffix b2 b1"
    then have len: "length b2 \<le> VINT_MAX" using suffix_length_le s(2) assms by (meson order_trans)
    show "safe frame_wf b2 (rbind (if first AND 2 \<noteq> 0 then read_varint b2 else Ok (length b2, b2)) (\<lambda>(len, b).
       rbind (add64 off len) (\<lambda>max_off. if max_off \<ge> MAX_STREAM_SIZE then Err FrameEncodingError
         else let fin = (first AND 1 \<noteq> 0) in
           rbind (take_data len b) (\<lambda>(data, b). Ok (Stream s off len fin data, b)))))"
    proof (rule safe_bind[of "\<lambda>n. n \<le> VINT_MAX"])
      fix n b3 assume n: "n \<le> VINT_MAX"
      then have "off + n \<le> u64_max" using off(1) by (simp add: VINT_MAX_def u64_max_def)
      then show "safe frame_wf b3 (rbind (add64 off n) (\<lambda>max_off. if max_off \<ge> MAX_STREAM_SIZE then Err FrameEncodingError
         else let fin = (first AND 1 \<noteq> 0) in
           rbind (take_data n b3) (\<lambda>(data, b). Ok (Stream s off n fin data, b))))"
        using s(1) off(1) safe_bind[OF take_data_safe] by (auto simp: add64_def Let_def intro!: safe_bind[OF take_data_safe])
    qed (use len read_varint_safe in auto)
  qed (use read_varint_safe in auto)
qed

lemma parse_ack_safe:
  "safe frame_wf b (rbind (parse_ack_frame ty b) (\<lambda>(frame, len). rbind (skip len b) (\<lambda>(_, b). Ok (frame, b))))"
  using parse_ack_frame_safe[of b ty]
  by (cases "(b, parse_ack_frame ty b)" rule: ack_parsed.cases) (simp_all add: skip_eq suffix_drop)

lemma safe_if: "safe P b x \<Longrightarrow> safe P b y \<Longrightarrow> safe P b (if c then x else y)"
  by simp

lemmas frame_readers_safe = safe_if read_vints_safe read2_safe read1_safe parse_ack_safe parse_stream_safe
  read_tail_safe safe_bind[OF read_varint_safe] safe_bind[OF read_u8_prefixed_safe]

lemma parse_frame_safe:
  assumes "length b \<le> VINT_MAX"
  shows "safe frame_wf b (parse_frame ty b)"
proof -
  have "safe frame_wf b (let (len, b) = count_zeros 1 b in Ok (Paddings len, b))"
    using count_zeros_safe[of 1 b] by (auto split: prod.split)
  then show ?thesis unfolding parse_frame_def
    by (intro frame_readers_safe) (auto simp: assms cid_new_def MAX_CID_LEN_def RESET_TOKEN_LEN_def)
qed

text \<open>The type of a frame takes at least one byte.\<close>

lemma read_varint_progress: "read_varint b = Ok (n, b') \<Longrightarrow> length b' < length b"
  using decode_varint_len_total[of "b ! 0"]
  by (auto simp: read_varint_eq read_u8_eq read_u16_eq read_u32_eq read_u64_eq split: if_splits)

section \<open>Properties\<close>

lemma validate_on_wire [simp]: "validate_frame pkt (on_wire f) = validate_frame pkt f"
  by (cases f) (simp_all add: on_wire_def validate_frame_def)

text \<open>
  C14: Decoding inverts encoding. What \<open>to_bytes\<close> writes for a well-formed frame,
  followed by anything (after paddings: by anything but a zero byte), is decoded in a packet
  that may carry the frame as the same frame, and exactly the written bytes are consumed. The
  only thing lost is the local metadata of a PING.
\<close>

theorem frame_roundtrip:
  assumes "frame_wf f" "fits_len f" "validate_frame pkt f" "to_bytes f cap = Ok out"
    and "\<forall>n r. f = Paddings n \<longrightarrow> rest \<noteq> 0 # r"
  shows "from_bytes (out @ rest) pkt = Ok (on_wire f, length out)"
proof -
  have out: "out = frame_bytes f"
    using assms(4) by (auto simp: to_bytes_def write_frame_emit[OF assms(1,2)] emit_total split: if_splits)
  obtain ty b where "read_varint (out @ rest) = Ok (ty, b)" "parse_frame ty b = Ok (on_wire f, rest)"
    using parse_frame_back[OF assms(1,2,5)] by (auto simp: out)
  then show ?thesis using assms(3) by (simp add: from_bytes_def sub64_def)
qed

lemma be_bytes_small: "be_bytes 1 n = [word_of_nat n]" "be_bytes 2 n = [word_of_nat (n div 256), word_of_nat n]"
  by (simp_all add: numeral_2_eq_2 be_bytes.simps)

lemmas wire_eval = varint_bytes_def be_bytes_small[simplified] put_def emit_def len_bytes_def

lemma to_bytes_demo: "to_bytes (Stream 4 5 3 True [7, 8, 9]) 100 = Ok [15, 4, 5, 64, 3, 7, 8, 9]"
  by (simp add: to_bytes_def write_frame_emit fits_len_def MAX_STREAM_SIZE_def emit_total) (simp add: wire_eval)

theorem frame_roundtrip_witness:
  "from_bytes [15, 4, 5, 64, 3, 7, 8, 9, 1] OneRTT = Ok (Stream 4 5 3 True [7, 8, 9], 8)"
  using frame_roundtrip[of "Stream 4 5 3 True [7, 8, 9]" OneRTT 100 "[15, 4, 5, 64, 3, 7, 8, 9]" "[1]"] to_bytes_demo
  by (simp add: fits_len_def MAX_STREAM_SIZE_def validate_frame_def on_wire_def)

text \<open>
  C15: The length calculation is exact and the encoder respects the buffer. For a
  well-formed frame \<open>wire_len\<close> is the number of bytes \<open>to_bytes\<close> writes, and
  \<open>to_bytes\<close> succeeds exactly when the buffer has that many bytes, otherwise it reports
  \<open>BufferTooShort\<close>.
\<close>

theorem frame_encode_exact:
  assumes "frame_wf f" "fits_len f"
  shows "\<exists>out. wire_len f = Ok (length out) \<and>
    (\<forall>cap. to_bytes f cap = (if length out \<le> cap then Ok out else Err BufferTooShort))"
  using wire_len_eq[OF assms(1)]
  by (intro exI[of _ "frame_bytes f"]) (simp add: to_bytes_def write_frame_emit[OF assms] emit_total)

theorem frame_encode_exact_witness:
  "\<exists>out. wire_len (MaxStreamData 4 200000) = Ok (length out) \<and>
    (\<forall>cap. to_bytes (MaxStreamData 4 200000) cap = (if length out \<le> cap then Ok out else Err BufferTooShort))"
  by (rule frame_encode_exact) (simp_all add: fits_len_def)

text \<open>
  C16: The decoder is total and makes progress on arbitrary input. Whatever bytes a
  peer sends, \<open>from_bytes\<close> does not panic; when it accepts, the frame is well-formed
  (integers below \<open>2 ^ 62\<close>, stream data inside the largest stream, ACK ranges a proper
  non-empty range set), the packet type may carry it, and at least one byte and no more than the
  buffer was consumed.
\<close>

theorem frame_decode_safe:
  assumes "length buf \<le> VINT_MAX"
  shows "from_bytes buf pkt \<noteq> Panic \<and>
    (\<forall>f n. from_bytes buf pkt = Ok (f, n) \<longrightarrow>
       frame_wf f \<and> validate_frame pkt f \<and> 0 < n \<and> n \<le> length buf)"
proof (cases "read_varint buf")
  case (Ok y)
  obtain ty b where y: "y = (ty, b)" by fastforce
  have b: "length b < length buf" using read_varint_progress Ok y by blast
  then have "safe frame_wf b (parse_frame ty b)" using parse_frame_safe assms by simp
  then show ?thesis using Ok y b
    by (cases "(frame_wf, b, parse_frame ty b)" rule: safe.cases)
      (auto simp: from_bytes_def sub64_def dest: suffix_length_le)
next
  case Panic
  then show ?thesis using read_varint_safe[of buf] by simp
qed (simp add: from_bytes_def)

lemma from_bytes_demo: "from_bytes [30] OneRTT = Ok (HandshakeDone, 1)"
  by (simp add: from_bytes_def read_varint_eq decode_varint_len_def read_u8_eq be_value_def
      parse_frame_def validate_frame_def sub64_def)

theorem frame_decode_safe_witness:
  "from_bytes [30] OneRTT = Ok (HandshakeDone, 1) \<and> frame_wf HandshakeDone \<and>
    validate_frame OneRTT HandshakeDone \<and> 1 \<le> length [30 :: byte]"
  using frame_decode_safe[of "[30]" OneRTT] from_bytes_demo by (simp add: VINT_MAX_def)

text \<open>
  C29: The two-byte length field of STREAM headers overflows silently. A STREAM frame of
  \<open>16384 + k\<close> data bytes gets the header of one of \<open>k\<close> bytes: nothing in
  \<open>encode_stream_header\<close> rejects the length, and the send path bounds it only by the
  configured datagram size, which has no upper limit.
\<close>

theorem stream_length_overflow:
  assumes "k < 2 ^ 14"
  shows "encode_stream_header stream_id offset (2 ^ 14 + k) fin = encode_stream_header stream_id offset k fin"
proof -
  have "2 ^ 14 + k = 1 * 2 ^ 14 OR k" using or_high[OF assms, of 1] by (simp add: or.commute)
  then have "(2 ^ 14 + k) OR 0x4000 = k OR 0x4000" by (simp add: or.left_commute or.commute)
  then have "write_varint_with_len (2 ^ 14 + k) 2 = write_varint_with_len k 2"
    using assms by (simp add: write_varint_with_len_def fun_eq_iff take_bit_eq_mod)
  then show ?thesis unfolding encode_stream_header_def by simp
qed

theorem stream_length_overflow_witness:
  "encode_stream_header 4 0 (2 ^ 14 + 5) False = encode_stream_header 4 0 5 False"
  by (rule stream_length_overflow) simp

end
