(* ===== verification/Stream_Send.thy ===== *)
theory Stream_Send
  imports Stream_Map_Inv Frame
begin

text \<open>
  Filling a packet from the stream manager, \<open>try_write_stream_control_frames\<close>,
  \<open>try_write_stream_frames\<close> and \<open>write_frame_to_packet\<close> of
  \<open>src/src/connection/send.rs\<close>. The packet buffer is the list of bytes written so far
  together with its capacity; the status is the \<open>FrameWriteStatus\<close> of
  \<open>src/src/connection/connection.rs\<close>. What the functions read of the connection besides its
  streams (packet type, closing state, the path, the clock, the multipath configuration) is the
  record \<open>send_ctx\<close>. The order in which a \<open>HashSet\<close> or \<open>HashMap\<close> is traversed is the
  argument \<open>order\<close>, of which nothing is assumed.
\<close>

section \<open>The code\<close>

record BufferFlags =
  from_high :: bool
  from_mid :: bool
  from_low :: bool

record FrameWriteStatus =
  fw_written :: nat
  fw_frames :: "Frame list"
  fw_ack_eliciting :: bool
  fw_in_flight :: bool
  fw_has_data :: bool
  fw_challenge :: "bytes option"
  fw_ack_elicit_required :: bool
  fw_is_probe :: bool
  fw_is_pmtu_probe :: bool
  fw_pacing :: bool
  fw_overhead :: nat
  fw_buffer_flags :: BufferFlags

definition fw_default :: FrameWriteStatus where
  "fw_default = \<lparr>fw_written = 0, fw_frames = [], fw_ack_eliciting = False, fw_in_flight = False,
     fw_has_data = False, fw_challenge = None, fw_ack_elicit_required = False, fw_is_probe = False,
     fw_is_pmtu_probe = False, fw_pacing = False, fw_overhead = 0,
     fw_buffer_flags = \<lparr>from_high = False, from_mid = False, from_low = False\<rparr>\<rparr>"

datatype MultipathAlgorithm = MinRtt | Redundant | RoundRobin | Weighted | Blest

definition buffer_required :: "MultipathAlgorithm \<Rightarrow> bool" where
  "buffer_required algor =
     (case algor of MinRtt \<Rightarrow> False | Redundant \<Rightarrow> True | RoundRobin \<Rightarrow> False | Weighted \<Rightarrow> False | Blest \<Rightarrow> False)"

record send_ctx =
  cx_pkt_type :: PacketType
  cx_closing :: bool
  cx_path_active :: "bool option"
  cx_srtt :: duration
  cx_now :: instant
  cx_multipath :: bool
  cx_algorithm :: MultipathAlgorithm

type_synonym packet = "bytes \<times> FrameWriteStatus"
type_synonym 'c sender = "(byte, 'c) stream_map \<times> packet"

definition write_frame_to_packet :: "Frame \<Rightarrow> nat \<Rightarrow> packet \<Rightarrow> packet qres" where
  "write_frame_to_packet frame cap pk =
     (let (out, st) = pk in
      rbind (wire_len frame) (\<lambda>n.
        if fw_written st + n > cap then Err Done
        else rbind (to_bytes frame (cap - fw_written st)) (\<lambda>bs.
          Ok (out @ bs, st\<lparr>fw_written := fw_written st + length bs, fw_frames := fw_frames st @ [frame]\<rparr>))))"

text \<open>Every control frame is written this way: the frame, then the two flags.\<close>

definition emit_frame :: "Frame \<Rightarrow> nat \<Rightarrow> 'c sender \<Rightarrow> 'c sender \<times> unit qres" where
  "emit_frame frame cap s =
     attempt s (write_frame_to_packet frame cap (snd s)) (\<lambda>(out, st).
       ((fst s, (out, st\<lparr>fw_ack_eliciting := True, fw_in_flight := True\<rparr>)), Ok ()))"

definition and_then :: "'s \<times> unit qres \<Rightarrow> ('s \<Rightarrow> 's \<times> unit qres) \<Rightarrow> 's \<times> unit qres" where
  "and_then p f = attempt (fst p) (snd p) (\<lambda>_. f (fst p))"

primrec for_each :: "('a \<Rightarrow> 's \<Rightarrow> 's \<times> unit qres) \<Rightarrow> 'a list \<Rightarrow> 's \<Rightarrow> 's \<times> unit qres" where
  "for_each f [] s = (s, Ok ())"
| "for_each f (x # xs) s = and_then (f x s) (for_each f xs)"

definition with_streams ::
    "((byte, 'c) stream_map \<Rightarrow> (byte, 'c) stream_map) \<Rightarrow> 'c sender \<Rightarrow> 'c sender \<times> unit qres" where
  "with_streams f s = ((f (fst s), snd s), Ok ())"

text \<open>
  \<open>(recv_win as f64 * 1.5) as u64\<close>: the conversion to \<open>f64\<close> and the product are rounded
  to 53 significant bits, half to even, and the conversion back truncates and saturates.
\<close>

definition round53 :: "nat \<Rightarrow> nat" where
  "round53 n =
     (if n < 2 ^ 53 then n
      else
        let e = bit_len n - 53; q = n div 2 ^ e; r = n mod 2 ^ e
        in (if 2 * r > 2 ^ e \<or> 2 * r = 2 ^ e \<and> odd q then q + 1 else q) * 2 ^ e)"

definition connection_window :: "nat \<Rightarrow> nat" where
  "connection_window recv_win = min u64_max (round53 (3 * round53 recv_win) div 2)"

definition write_max_streams :: "nat \<Rightarrow> bool \<Rightarrow> 'c sender \<Rightarrow> 'c sender \<times> unit qres" where
  "write_max_streams cap bidi s =
     attempt s (sm_should_update_local_max_streams (fst s) bidi) (\<lambda>b.
       if b then
         and_then (emit_frame (MaxStreams bidi (sm_max_streams_next (fst s) bidi)) cap s)
           (with_streams (\<lambda>sm. sm_update_local_max_streams sm bidi))
       else (s, Ok ()))"

definition write_data_blocked :: "nat \<Rightarrow> 'c sender \<Rightarrow> 'c sender \<times> unit qres" where
  "write_data_blocked cap s =
     (case sm_data_blocked_at (fst s) of
        Some blocked_at \<Rightarrow>
          and_then (emit_frame (DataBlocked blocked_at) cap s)
            (with_streams (\<lambda>sm. sm_update_data_blocked_at sm None))
      | None \<Rightarrow> (s, Ok ()))"

text \<open>After the frame: apply the limit, widen the connection's window, ask for \<open>MAX_DATA\<close>.\<close>

definition apply_stream_limit :: "instant \<Rightarrow> nat \<Rightarrow> 'c sender \<Rightarrow> 'c sender \<times> unit qres" where
  "apply_stream_limit now stream_id s =
     (let (sm, pk) = s in
      case sm_get sm stream_id of
        None \<Rightarrow> (s, Panic)
      | Some stream \<Rightarrow>
          let recv_win = rv_window (st_recv stream);
              (rv, r) = rv_update_max_data (st_recv stream) now;
              sm1 = sm_put sm stream_id (stream\<lparr>st_recv := rv\<rparr>)
          in attempt (sm1, pk) r (\<lambda>_.
            let sm2 = sm_mark_almost_full sm1 stream_id False;
                sm3 = sm_ensure_window_lower_bound sm2 (connection_window recv_win)
            in ((sm3\<lparr>sm_rx_almost_full := True\<rparr>, pk), Ok ())))"

definition write_max_stream_data :: "send_ctx \<Rightarrow> nat \<Rightarrow> nat \<Rightarrow> 'c sender \<Rightarrow> 'c sender \<times> unit qres" where
  "write_max_stream_data cx cap stream_id s =
     (let (sm, pk) = s in
      case sm_get sm stream_id of
        None \<Rightarrow> ((sm_mark_almost_full sm stream_id False, pk), Ok ())
      | Some stream \<Rightarrow>
          let (rv, r) = rv_autotune_window (st_recv stream) (cx_now cx) (cx_srtt cx);
              s1 = (sm_put sm stream_id (stream\<lparr>st_recv := rv\<rparr>), pk)
          in attempt s1 r (\<lambda>_. attempt s1 (rv_max_data_next rv) (\<lambda>limit.
            and_then (emit_frame (MaxStreamData stream_id limit) cap s1)
              (apply_stream_limit (cx_now cx) stream_id))))"

definition apply_connection_limit :: "instant \<Rightarrow> 'c sender \<Rightarrow> 'c sender \<times> unit qres" where
  "apply_connection_limit now s =
     (let (sm, pk) = s;
          (sm1, r) = sm_update_max_rx_data (sm\<lparr>sm_rx_almost_full := False\<rparr>) now
      in ((sm1, pk), r))"

definition write_max_data :: "send_ctx \<Rightarrow> nat \<Rightarrow> 'c sender \<Rightarrow> 'c sender \<times> unit qres" where
  "write_max_data cx cap s =
     (let (sm, pk) = s in
      attempt s (sm_need_send_max_data sm) (\<lambda>b.
        if b then
          let (sm1, r) = sm_autotune_window sm (cx_now cx) (cx_srtt cx); s1 = (sm1, pk)
          in attempt s1 r (\<lambda>_. attempt s1 (sm_max_rx_data_next sm1) (\<lambda>limit.
            and_then (emit_frame (MaxData limit) cap s1) (apply_connection_limit (cx_now cx))))
        else (s, Ok ())))"

definition write_stop_sending :: "nat \<Rightarrow> nat \<times> nat \<Rightarrow> 'c sender \<Rightarrow> 'c sender \<times> unit qres" where
  "write_stop_sending cap e s =
     and_then (emit_frame (StopSending (fst e) (snd e)) cap s)
       (with_streams (\<lambda>sm. sm_mark_stopped sm (fst e) False 0))"

definition write_reset_stream :: "nat \<Rightarrow> nat \<times> nat \<times> nat \<Rightarrow> 'c sender \<Rightarrow> 'c sender \<times> unit qres" where
  "write_reset_stream cap e s =
     and_then (emit_frame (ResetStream (fst e) (fst (snd e)) (snd (snd e))) cap s)
       (with_streams (\<lambda>sm. sm_mark_reset sm (fst e) False 0 0))"

definition write_stream_data_blocked :: "nat \<Rightarrow> nat \<times> nat \<Rightarrow> 'c sender \<Rightarrow> 'c sender \<times> unit qres" where
  "write_stream_data_blocked cap e s =
     and_then (emit_frame (StreamDataBlocked (fst e) (snd e)) cap s)
       (with_streams (\<lambda>sm. sm_mark_blocked sm (fst e) False 0))"

definition write_streams_blocked :: "nat \<Rightarrow> bool \<Rightarrow> 'c sender \<Rightarrow> 'c sender \<times> unit qres" where
  "write_streams_blocked cap bidi s =
     (case sm_streams_blocked_at (fst s) bidi of
        Some blocked_at \<Rightarrow>
          and_then (emit_frame (StreamsBlocked bidi blocked_at) cap s)
            (with_streams (\<lambda>sm. sm_update_streams_blocked_at sm bidi None))
      | None \<Rightarrow> (s, Ok ()))"

text \<open>The entries of a map in the order its traversal yields the keys.\<close>

definition entries :: "(nat set \<Rightarrow> nat list) \<Rightarrow> (nat, 'v) bmap \<Rightarrow> (nat \<times> 'v) list" where
  "entries order m = List.map_filter (\<lambda>k. map_option (Pair k) (bm_get m k)) (order (fst ` set m))"

definition try_write_stream_control_frames ::
    "send_ctx \<Rightarrow> (nat set \<Rightarrow> nat list) \<Rightarrow> nat \<Rightarrow> 'c sender \<Rightarrow> 'c sender \<times> unit qres" where
  "try_write_stream_control_frames cx order cap s =
     (if cx_pkt_type cx \<noteq> OneRTT \<or> cx_closing cx then (s, Ok ())
      else attempt s (ok_or (cx_path_active cx) InternalError) (\<lambda>active.
        if \<not> active then (s, Ok ())
        else
          and_then (for_each (write_max_streams cap) [True, False] s) (\<lambda>s.
          and_then (write_data_blocked cap s) (\<lambda>s.
          and_then (for_each (write_max_stream_data cx cap) (order (sm_almost_full (fst s))) s) (\<lambda>s.
          and_then (write_max_data cx cap s) (\<lambda>s.
          and_then (for_each (write_stop_sending cap) (entries order (sm_stopped (fst s))) s) (\<lambda>s.
          and_then (for_each (write_reset_stream cap) (entries order (sm_reset (fst s))) s) (\<lambda>s.
          and_then (for_each (write_stream_data_blocked cap) (entries order (sm_data_blocked (fst s))) s) (\<lambda>s.
            for_each (write_streams_blocked cap) [True, False] s)))))))))"

subsection \<open>STREAM frames\<close>

text \<open>
  One round of the loop for a stream that may send: reserve the header, read the data behind it,
  encode the header, account for the frame. \<open>cap\<close> is the room left; \<open>Ok True\<close> continues
  the loop. Slicing past the end of the buffer panics.
\<close>

definition write_stream_frame ::
    "bool \<Rightarrow> nat \<Rightarrow> nat \<Rightarrow> (byte, 'c) stream \<Rightarrow> 'c sender \<Rightarrow> (('c sender \<times> nat) \<times> bool qres) option" where
  "write_stream_frame retain cap stream_id stream s =
     (let (sm, (out, st)) = s; stream_off = sb_send_off (st_send stream) in
      case stream_header_wire_len stream_id stream_off of
        Err e \<Rightarrow> Some ((s, cap), Err e)
      | Panic \<Rightarrow> Some ((s, cap), Panic)
      | Ok frame_hdr_len \<Rightarrow>
          if frame_hdr_len > cap then Some ((s, cap), Panic)
          else Option.bind (sb_read (st_send stream) (cap - frame_hdr_len)) (\<lambda>(snd_buf, bs, frame_data_len, fin).
            let stream1 = stream\<lparr>st_send := snd_buf\<rparr>;
                sm1 = sm_put sm stream_id stream1;
                data = (if retain then bs else [])
            in case encode_stream_header stream_id stream_off frame_data_len fin ([], frame_hdr_len) of
                 Err e \<Rightarrow> Some (((sm1, (out, st)), cap), Err e)
               | Panic \<Rightarrow> Some (((sm1, (out, st)), cap), Panic)
               | Ok (hdr, _) \<Rightarrow>
                   let frame_len = frame_hdr_len + frame_data_len;
                       st1 = st\<lparr>fw_written := fw_written st + frame_len, fw_ack_eliciting := True,
                                fw_in_flight := True, fw_has_data := True,
                                fw_frames := fw_frames st @ [Stream stream_id stream_off frame_data_len fin data]\<rparr>;
                       sm2 = (if \<not> st_is_sendable stream1 then sm_remove_sendable sm1 else sm1)
                   in Some (((sm2, (out @ hdr @ bs, st1)), cap - frame_len),
                        Ok (\<not> cap - frame_len \<le> MAX_STREAM_OVERHEAD))))"

definition stream_frame_round :: "bool \<Rightarrow> nat \<Rightarrow> 'c sender \<Rightarrow> (('c sender \<times> nat) \<times> bool qres) option" where
  "stream_frame_round retain cap s =
     (let (sm, pk) = s; (sm1, next) = sm_peek_sendable sm; s1 = (sm1, pk) in
      case next of
        None \<Rightarrow> Some ((s1, cap), Ok False)
      | Some stream_id \<Rightarrow>
          case sm_get sm1 stream_id of
            None \<Rightarrow> Some (((sm_remove_sendable sm1, pk), cap), Ok True)
          | Some stream \<Rightarrow>
              if sb_is_stopped (st_send stream) then Some (((sm_remove_sendable sm1, pk), cap), Ok True)
              else write_stream_frame retain cap stream_id stream s1)"

partial_function (option) stream_frames_loop ::
    "bool \<Rightarrow> nat \<Rightarrow> 'c sender \<Rightarrow> ('c sender \<times> unit qres) option" where
  [code]: "stream_frames_loop retain cap s =
     Option.bind (stream_frame_round retain cap s) (\<lambda>((s1, cap1), r).
       case r of
         Ok go_on \<Rightarrow> if go_on then stream_frames_loop retain cap1 s1 else Some (s1, Ok ())
       | Err e \<Rightarrow> Some (s1, Err e)
       | Panic \<Rightarrow> Some (s1, Panic))"

definition try_write_stream_frames :: "send_ctx \<Rightarrow> nat \<Rightarrow> 'c sender \<Rightarrow> ('c sender \<times> unit qres) option" where
  "try_write_stream_frames cx cap s =
     (let written = fw_written (snd (snd s)) in
      if written > cap then Some (s, Panic)
      else if cx_pkt_type cx \<noteq> OneRTT \<and> cx_pkt_type cx \<noteq> ZeroRTT \<or> cx_closing cx \<or>
        cap - written \<le> MAX_STREAM_OVERHEAD then Some (s, Ok ())
      else case cx_path_active cx of
        None \<Rightarrow> Some (s, Err InternalError)
      | Some active \<Rightarrow>
          if \<not> active then Some (s, Ok ())
          else stream_frames_loop (cx_multipath cx \<and> buffer_required (cx_algorithm cx)) (cap - written) s)"

section \<open>What the packet carries\<close>

text \<open>
  The status keeps the STREAM frames without their data. \<open>wire_frame\<close> puts back the bytes the
  application wrote at the frame's offsets; the payload grows by exactly the encodings of these
  frames, all of them well-formed, and what they carry counts as sent.
\<close>

definition wire_frame :: "(nat \<Rightarrow> nat \<Rightarrow> byte) \<Rightarrow> Frame \<Rightarrow> Frame" where
  "wire_frame w frame =
     (case frame of
        Stream sid off len fin _ \<Rightarrow> Stream sid off len fin (map (w sid) [off..<off + len])
      | _ \<Rightarrow> frame)"

definition frame_sent :: "(byte, 'c) stream_map \<Rightarrow> Frame \<Rightarrow> bool" where
  "frame_sent sm frame \<longleftrightarrow>
     (case frame of
        Stream sid off len fin _ \<Rightarrow> sm_created sm sid \<and> sm_sent sm sid (off + len)
      | Paddings _ \<Rightarrow> False
      | _ \<Rightarrow> True)"

definition pk_ext ::
    "(nat \<Rightarrow> nat \<Rightarrow> byte) \<Rightarrow> (byte, 'c) stream_map \<Rightarrow> nat \<Rightarrow> packet \<Rightarrow> packet \<Rightarrow> bool" where
  "pk_ext w sm cap pk pk' \<longleftrightarrow>
     (\<exists>fs. fw_frames (snd pk') = fw_frames (snd pk) @ fs \<and>
        fst pk' = fst pk @ concat (map (\<lambda>f. frame_bytes (wire_frame w f)) fs) \<and>
        (\<forall>f \<in> set fs. frame_wf (wire_frame w f) \<and> fits_len f \<and> frame_sent sm f)) \<and>
     fw_written (snd pk') = length (fst pk') \<and> length (fst pk') \<le> cap"

definition pk_fits :: "nat \<Rightarrow> packet \<Rightarrow> bool" where
  "pk_fits cap pk \<longleftrightarrow> fw_written (snd pk) = length (fst pk) \<and> length (fst pk) \<le> cap"

lemma pk_ext_refl: "pk_fits cap pk \<Longrightarrow> pk_ext w sm cap pk pk"
  by (simp add: pk_ext_def pk_fits_def)

lemma pk_ext_fits: "pk_ext w sm cap pk pk' \<Longrightarrow> pk_fits cap pk'"
  by (simp add: pk_ext_def pk_fits_def)

lemma frame_sent_evo:
  assumes "frame_sent sm f" "sm_evo c sm out sm'"
  shows "frame_sent sm' f"
  using assms by (cases f) (auto simp: frame_sent_def sm_evo_def wr_emits_def)

lemma pk_ext_evo: "pk_ext w sm cap pk pk' \<Longrightarrow> sm_evo c sm out sm' \<Longrightarrow> pk_ext w sm' cap pk pk'"
  unfolding pk_ext_def using frame_sent_evo by blast

lemma pk_ext_trans:
  assumes "pk_ext w sm cap pk pk'" "pk_ext w sm cap pk' pk''"
  shows "pk_ext w sm cap pk pk''"
proof -
  obtain fs where "fw_frames (snd pk') = fw_frames (snd pk) @ fs"
    "fst pk' = fst pk @ concat (map (\<lambda>f. frame_bytes (wire_frame w f)) fs)"
    "\<forall>f \<in> set fs. frame_wf (wire_frame w f) \<and> fits_len f \<and> frame_sent sm f"
    using assms(1) unfolding pk_ext_def by blast
  moreover obtain fs' where "fw_frames (snd pk'') = fw_frames (snd pk') @ fs'"
    "fst pk'' = fst pk' @ concat (map (\<lambda>f. frame_bytes (wire_frame w f)) fs')"
    "\<forall>f \<in> set fs'. frame_wf (wire_frame w f) \<and> fits_len f \<and> frame_sent sm f"
    using assms(2) unfolding pk_ext_def by blast
  ultimately show ?thesis using assms(2) unfolding pk_ext_def by (intro conjI exI[of _ "fs @ fs'"]) auto
qed

text \<open>One step of filling a packet, from a state that satisfies the invariant.\<close>

definition sender_ok ::
    "(nat \<Rightarrow> nat \<Rightarrow> byte) \<Rightarrow> (nat \<Rightarrow> nat \<Rightarrow> byte) \<Rightarrow> nat \<Rightarrow> 'c sender \<Rightarrow> bool" where
  "sender_ok c w cap s \<longleftrightarrow> sm_inv c w 0 0 {} (fst s) \<and> pk_fits cap (snd s)"

definition sender_evo ::
    "(nat \<Rightarrow> nat \<Rightarrow> byte) \<Rightarrow> (nat \<Rightarrow> nat \<Rightarrow> byte) \<Rightarrow> nat \<Rightarrow> 'c sender \<Rightarrow> 'c sender \<Rightarrow> bool" where
  "sender_evo c w cap s s' \<longleftrightarrow> sender_ok c w cap s' \<and> sm_evo c (fst s) [] (fst s') \<and>
     pk_ext w (fst s') cap (snd s) (snd s')"

lemma sender_evo_refl: "sender_ok c w cap s \<Longrightarrow> sender_evo c w cap s s"
  by (simp add: sender_evo_def sender_ok_def sm_evo_refl pk_ext_refl)

lemma sender_evo_trans:
  "sender_evo c w cap s s' \<Longrightarrow> sender_evo c w cap s' s'' \<Longrightarrow> sender_evo c w cap s s''"
  unfolding sender_evo_def using sm_evo_trans0 pk_ext_trans pk_ext_evo by blast

lemma sender_evo_streams:
  assumes "sender_ok c w cap s" "sm_inv c w 0 0 {} sm'" "sm_evo c (fst s) [] sm'"
  shows "sender_evo c w cap s (sm', snd s)"
  using assms by (simp add: sender_evo_def sender_ok_def pk_ext_refl)

definition sender_good where
  "sender_good c w cap s p \<longleftrightarrow> snd p \<noteq> Panic \<longrightarrow> sender_evo c w cap s (fst p)"

lemma sender_good_then:
  assumes "sender_good c w cap s p" "\<And>s'. sender_ok c w cap s' \<Longrightarrow> sender_good c w cap s' (f s')"
  shows "sender_good c w cap s (and_then p f)"
proof (cases "snd p")
  case (Ok u)
  then have e: "sender_evo c w cap s (fst p)" using assms(1) by (simp add: sender_good_def)
  then have "sender_good c w cap (fst p) (f (fst p))" using assms(2) by (simp add: sender_evo_def)
  then show ?thesis using Ok sender_evo_trans[OF e] by (simp add: and_then_def sender_good_def)
qed (use assms(1) in \<open>simp_all add: and_then_def sender_good_def\<close>)

lemma sender_good_for_each:
  assumes "\<And>x s. sender_ok c w cap s \<Longrightarrow> sender_good c w cap s (f x s)" "sender_ok c w cap s"
  shows "sender_good c w cap s (for_each f xs s)"
  using assms(2)
proof (induction xs arbitrary: s)
  case Nil
  then show ?case by (simp add: sender_good_def sender_evo_refl)
next
  case (Cons x xs)
  show ?case unfolding for_each.simps by (rule sender_good_then[OF assms(1)[OF Cons.prems] Cons.IH])
qed

section \<open>Control frames\<close>

text \<open>
  A control frame has only integer fields. When its length can be computed at all, they are
  below \<open>2 ^ 62\<close> and the frame is well-formed.
\<close>

fun control_frame :: "Frame \<Rightarrow> bool" where
  "control_frame (MaxStreams _ _) \<longleftrightarrow> True"
| "control_frame (DataBlocked _) \<longleftrightarrow> True"
| "control_frame (MaxStreamData _ _) \<longleftrightarrow> True"
| "control_frame (MaxData _) \<longleftrightarrow> True"
| "control_frame (StopSending _ _) \<longleftrightarrow> True"
| "control_frame (ResetStream _ _ _) \<longleftrightarrow> True"
| "control_frame (StreamDataBlocked _ _) \<longleftrightarrow> True"
| "control_frame (StreamsBlocked _ _) \<longleftrightarrow> True"
| "control_frame _ \<longleftrightarrow> False"

lemma encode_varint_len_iff: "encode_varint_len n = Panic \<longleftrightarrow> VINT_MAX < n" "encode_varint_len n \<noteq> Err e"
  by (auto simp: encode_varint_len_def VINT_MAX_def)

lemma varints_len_cases: "varints_len ns = Panic \<longleftrightarrow> \<not> vints ns" "varints_len ns \<noteq> Err e"
proof -
  have "(varints_len ns = Panic \<longleftrightarrow> \<not> vints ns) \<and> (\<forall>e. varints_len ns \<noteq> Err e)"
  proof (induction ns)
    case (Cons n ns)
    then show ?case using encode_varint_len_iff[of n]
      by (cases "encode_varint_len n"; cases "varints_len ns") (auto simp: not_less)
  qed simp
  then show "varints_len ns = Panic \<longleftrightarrow> \<not> vints ns" "varints_len ns \<noteq> Err e" by auto
qed

lemma control_frame_wf:
  assumes "control_frame f" "wire_len f \<noteq> Panic"
  shows "frame_wf f" "fits_len f" "wire_frame w f = f" "frame_sent sm f"
proof -
  have "frame_wf f \<and> fits_len f \<and> wire_frame w f = f \<and> frame_sent sm f"
    using assms
    by (cases f) (auto simp: plus_len_def rbind_eq_Panic varints_len_cases fits_len_def wire_frame_def frame_sent_def
        simp del: varints_len.simps vints_simps)
  then show "frame_wf f" "fits_len f" "wire_frame w f = f" "frame_sent sm f" by simp_all
qed

lemma emit_frame_good:
  assumes f: "control_frame f" and s: "sender_ok c w cap s"
  shows "sender_good c w cap s (emit_frame f cap s)"
proof (cases "wire_len f = Panic")
  case True
  then show ?thesis by (cases s) (auto simp: emit_frame_def write_frame_to_packet_def sender_good_def split: prod.splits)
next
  case False
  obtain sm out st where ss: "s = (sm, (out, st))" by (metis surj_pair)
  note wf = control_frame_wf[OF f False]
  have n: "wire_len f = Ok (length (frame_bytes f))" by (rule wire_len_eq[OF wf(1)])
  have w: "fw_written st = length out" using s by (simp add: ss sender_ok_def pk_fits_def)
  show ?thesis
  proof (cases "length out + length (frame_bytes f) > cap")
    case True
    then show ?thesis using sender_evo_refl[OF s]
      by (simp add: emit_frame_def write_frame_to_packet_def ss n w sender_good_def)
  next
    case False
    then have b: "to_bytes f (cap - length out) = Ok (frame_bytes f)"
      by (simp add: to_bytes_def write_frame_emit[OF wf(1,2)] emit_total)
    let ?st = "st\<lparr>fw_written := length out + length (frame_bytes f), fw_frames := fw_frames st @ [f],
      fw_ack_eliciting := True, fw_in_flight := True\<rparr>"
    have "emit_frame f cap s = ((sm, (out @ frame_bytes f, ?st)), Ok ())"
      using False by (simp add: emit_frame_def write_frame_to_packet_def ss n w b)
    moreover have "pk_ext w sm cap (out, st) (out @ frame_bytes f, ?st)"
      unfolding pk_ext_def using False wf by (intro conjI exI[of _ "[f]"]) simp_all
    moreover have "sm_inv c w 0 0 {} sm" using s by (simp add: ss sender_ok_def)
    ultimately show ?thesis
      by (auto simp: sender_good_def sender_evo_def sender_ok_def sm_evo_refl pk_ext_fits ss)
  qed
qed

lemma with_streams_good:
  assumes "\<And>sm. sm_inv c w 0 0 {} sm \<Longrightarrow> sm_inv c w 0 0 {} (f sm) \<and> sm_evo c sm [] (f sm)"
    and "sender_ok c w cap s"
  shows "sender_good c w cap s (with_streams f s)"
  using assms sender_evo_streams[OF assms(2)] by (simp add: sender_good_def with_streams_def sender_ok_def)

lemma frame_then_streams_good:
  assumes "control_frame fr" "sender_ok c w cap s"
    and "\<And>sm. sm_inv c w 0 0 {} sm \<Longrightarrow> sm_inv c w 0 0 {} (f sm) \<and> sm_evo c sm [] (f sm)"
  shows "sender_good c w cap s (and_then (emit_frame fr cap s) (with_streams f))"
  by (rule sender_good_then[OF emit_frame_good[OF assms(1,2)]]) (rule with_streams_good[OF assms(3)])

lemma sm_marks_evo: "sm_inv c w 0 0 {} sm \<Longrightarrow> sm_inv c w 0 0 {} (sm_mark_stopped sm sid b n) \<and> sm_evo c sm [] (sm_mark_stopped sm sid b n)"
  "sm_inv c w 0 0 {} sm \<Longrightarrow> sm_inv c w 0 0 {} (sm_mark_reset sm sid b n m) \<and> sm_evo c sm [] (sm_mark_reset sm sid b n m)"
  "sm_inv c w 0 0 {} sm \<Longrightarrow> sm_inv c w 0 0 {} (sm_mark_blocked sm sid b n) \<and> sm_evo c sm [] (sm_mark_blocked sm sid b n)"
  "sm_inv c w 0 0 {} sm \<Longrightarrow> sm_inv c w 0 0 {} (sm_mark_almost_full sm sid b) \<and> sm_evo c sm [] (sm_mark_almost_full sm sid b)"
  "sm_inv c w 0 0 {} sm \<Longrightarrow> sm_inv c w 0 0 {} (sm_update_data_blocked_at sm v) \<and> sm_evo c sm [] (sm_update_data_blocked_at sm v)"
  by (simp_all add: sm_frame sm_evo_refl)

lemma sender_good_refl: "sender_ok c w cap s \<Longrightarrow> sender_good c w cap s (s, r)"
  by (simp add: sender_good_def sender_evo_refl)

lemma write_marks_good:
  assumes s: "sender_ok c w cap s"
  shows "sender_good c w cap s (write_max_streams cap bidi s)" "sender_good c w cap s (write_data_blocked cap s)"
    "sender_good c w cap s (write_stop_sending cap e s)" "sender_good c w cap s (write_reset_stream cap er s)"
    "sender_good c w cap s (write_stream_data_blocked cap e s)" "sender_good c w cap s (write_streams_blocked cap bidi s)"
proof -
  show "sender_good c w cap s (write_stop_sending cap e s)" unfolding write_stop_sending_def
    by (rule frame_then_streams_good[OF _ s sm_marks_evo(1)]) simp_all
  show "sender_good c w cap s (write_reset_stream cap er s)" unfolding write_reset_stream_def
    by (rule frame_then_streams_good[OF _ s sm_marks_evo(2)]) simp_all
  show "sender_good c w cap s (write_stream_data_blocked cap e s)" unfolding write_stream_data_blocked_def
    by (rule frame_then_streams_good[OF _ s sm_marks_evo(3)]) simp_all
  have "sender_good c w cap s (and_then (emit_frame (DataBlocked n) cap s)
      (with_streams (\<lambda>sm. sm_update_data_blocked_at sm None)))" for n
    by (rule frame_then_streams_good[OF _ s sm_marks_evo(5)]) simp_all
  then show "sender_good c w cap s (write_data_blocked cap s)"
    by (simp add: write_data_blocked_def sender_good_refl[OF s] split: option.split)
  have "sender_good c w cap s (and_then (emit_frame (StreamsBlocked bidi n) cap s)
      (with_streams (\<lambda>sm. sm_update_streams_blocked_at sm bidi None)))" for n
    by (rule frame_then_streams_good[OF _ s sm_cc_marks_ok(2)]) simp_all
  then show "sender_good c w cap s (write_streams_blocked cap bidi s)"
    by (simp add: write_streams_blocked_def sender_good_refl[OF s] split: option.split)
  have "sender_good c w cap s (and_then (emit_frame (MaxStreams bidi n) cap s)
      (with_streams (\<lambda>sm. sm_update_local_max_streams sm bidi)))" for n
    by (rule frame_then_streams_good[OF _ s sm_cc_marks_ok(3)]) simp_all
  then show "sender_good c w cap s (write_max_streams cap bidi s)"
    by (simp add: write_max_streams_def sender_good_refl[OF s] split: attempt_split)
qed

subsection \<open>Limits\<close>

text \<open>Moving the window of a stream or of the connection.\<close>

lemma sm_put_window:
  assumes inv: "sm_inv c w 0 0 {} sm" and st: "sm_get sm sid = Some st"
    and rv: "rv = (st_recv st)\<lparr>rv_flow_control := fc\<rparr>" "rv_inv (c sid) rv" "rv_emits (c sid) (st_recv st) [] rv"
  shows "sm_inv c w 0 0 {} (sm_put sm sid (st\<lparr>st_recv := rv\<rparr>))" "sm_evo c sm [] (sm_put sm sid (st\<lparr>st_recv := rv\<rparr>))"
proof -
  let ?st = "st\<lparr>st_recv := rv\<rparr>" let ?sm = "sm_put sm sid ?st"
  have r: "rv_recv_off rv = rv_recv_off (st_recv st)" "st_is_readable ?st = st_is_readable st"
    by (simp_all add: rv(1) st_is_readable_def rv_ready_def)
  have "sm_inv c w 0 0 {sid} ?sm" using sm_inv_put_recv[OF inv st rv(2,3)] r(1) by simp
  then show "sm_inv c w 0 0 {} ?sm"
    by (rule sm_inv_settle) (use sm_inv_queues[OF inv st] r(2) in
      \<open>auto simp: sm_get_marks sm_parts_marks st_is_sendable_def st_is_closed_def\<close>)
  show "sm_evo c sm [] ?sm"
    using sm_evo_put_recv[OF st, of c "[]" ?st] rv(3) sm_inv_stream(1)[OF inv st] by (simp add: sm_evo_quiet)
qed

lemma rv_window_shape:
  "\<exists>fc. fst (rv_update_max_data rv now) = rv\<lparr>rv_flow_control := fc\<rparr>"
  "\<exists>fc. fst (rv_autotune_window rv now srtt) = rv\<lparr>rv_flow_control := fc\<rparr>"
  by (auto simp: rv_update_max_data_def rv_autotune_window_def split: attempt_split
      intro: exI[of _ "rv_flow_control rv"])

lemma sm_stream_window_ok:
  assumes inv: "sm_inv c w 0 0 {} sm" and st: "sm_get sm sid = Some st"
    and rv: "rv = fst (rv_update_max_data (st_recv st) now) \<or> rv = fst (rv_autotune_window (st_recv st) now srtt)"
  shows "sm_inv c w 0 0 {} (sm_put sm sid (st\<lparr>st_recv := rv\<rparr>))" "sm_evo c sm [] (sm_put sm sid (st\<lparr>st_recv := rv\<rparr>))"
proof -
  note s = sm_inv_stream(5)[OF inv st]
  obtain fc where "rv = (st_recv st)\<lparr>rv_flow_control := fc\<rparr>" using rv rv_window_shape by metis
  moreover have "rv_inv (c sid) rv" using rv rv_update_max_data_inv[OF s] rv_autotune_inv[OF s] by metis
  moreover have "rv_emits (c sid) (st_recv st) [] rv" using rv rv_emits_fc[OF s] by metis
  ultimately show "sm_inv c w 0 0 {} (sm_put sm sid (st\<lparr>st_recv := rv\<rparr>))"
    "sm_evo c sm [] (sm_put sm sid (st\<lparr>st_recv := rv\<rparr>))" by (rule sm_put_window[OF inv st])+
qed

text \<open>Up to \<open>2 ^ 51\<close> the floating-point product is exact.\<close>

lemma connection_window_exact:
  assumes "n < 2 ^ 51"
  shows "connection_window n = n + n div 2"
proof -
  have "round53 n = n" "round53 (3 * n) = 3 * n" using assms by (simp_all add: round53_def)
  moreover have "3 * n div 2 = n + n div 2" by simp
  moreover have "n + n div 2 \<le> u64_max" using assms by (simp add: u64_max_def)
  ultimately show ?thesis by (simp add: connection_window_def min_absorb2)
qed

lemma apply_stream_limit_good:
  assumes s: "sender_ok c w cap s"
  shows "sender_good c w cap s (apply_stream_limit now sid s)"
proof -
  obtain sm pk where ss: "s = (sm, pk)" by (cases s)
  have inv: "sm_inv c w 0 0 {} sm" using s by (simp add: ss sender_ok_def)
  show ?thesis
  proof (cases "sm_get sm sid")
    case None
    then show ?thesis by (simp add: apply_stream_limit_def ss sender_good_def)
  next
    case (Some st)
    obtain rv r where u: "rv_update_max_data (st_recv st) now = (rv, r)" by fastforce
    let ?win = "rv_window (st_recv st)"
    define sm1 where "sm1 = sm_put sm sid (st\<lparr>st_recv := rv\<rparr>)"
    have i1: "sm_inv c w 0 0 {} sm1" "sm_evo c sm [] sm1"
      using sm_stream_window_ok[OF inv Some, of rv now] u by (simp_all add: sm1_def)
    define sm2 where "sm2 = sm_mark_almost_full sm1 sid False"
    have i2: "sm_inv c w 0 0 {} sm2" "sm_evo c sm [] sm2" using i1 by (simp_all add: sm2_def sm_frame)
    have "?win \<le> sm_max_stream_window sm"
      using sm_inv_stream(5,7)[OF inv Some] by (auto simp: rv_inv_def rv_fc_ok_def rv_window_def)
    moreover have sw: "sm_max_stream_window sm < 2 ^ 51" by (rule sm_inv_capacity(9)[OF inv])
    ultimately have "connection_window ?win \<le> sm_max_stream_window sm + sm_max_stream_window sm div 2"
      using connection_window_exact[of ?win] div_le_mono[of ?win _ 2] by (simp add: add_mono)
    moreover have "sm_max_stream_window sm2 = sm_max_stream_window sm"
      by (simp add: sm2_def sm1_def sm_mark_almost_full_def sm_frame)
    ultimately have "sm_inv c w 0 0 {} (sm_ensure_window_lower_bound sm2 (connection_window ?win))"
      using sm_inv_capacity(4,7,8)[OF i2(1)] unfolding sm_ensure_window_lower_bound_def
      by (intro sm_inv_fc[OF i2(1)]) (simp_all add: fc_ensure_window_lower_bound_def)
    then have "sender_evo c w cap s
        ((sm_ensure_window_lower_bound sm2 (connection_window ?win))\<lparr>sm_rx_almost_full := True\<rparr>, pk)"
      using sender_evo_streams[OF s] i2(2) ss by (simp add: sm_frame sm_ensure_window_lower_bound_def)
    moreover have "sender_evo c w cap s (sm1, pk)" using sender_evo_streams[OF s] i1 ss by simp
    ultimately show ?thesis
      unfolding apply_stream_limit_def ss prod.case Let_def Some option.case u sm1_def[symmetric] sm2_def[symmetric]
      by (auto simp: sender_good_def ss split: attempt_split)
  qed
qed

lemma write_max_stream_data_good:
  assumes s: "sender_ok c w cap s"
  shows "sender_good c w cap s (write_max_stream_data cx cap sid s)"
proof -
  obtain sm pk where ss: "s = (sm, pk)" by (cases s)
  have inv: "sm_inv c w 0 0 {} sm" using s by (simp add: ss sender_ok_def)
  show ?thesis
  proof (cases "sm_get sm sid")
    case None
    then show ?thesis using sender_evo_streams[OF s] sm_marks_evo(4)[OF inv] ss
      by (simp add: write_max_stream_data_def sender_good_def)
  next
    case (Some st)
    obtain rv r where u: "rv_autotune_window (st_recv st) (cx_now cx) (cx_srtt cx) = (rv, r)" by fastforce
    let ?s1 = "(sm_put sm sid (st\<lparr>st_recv := rv\<rparr>), pk)"
    have e: "sender_evo c w cap s ?s1"
      using sender_evo_streams[OF s] sm_stream_window_ok[OF inv Some, of rv "cx_now cx" "cx_srtt cx"] u ss by simp
    then have ok: "sender_ok c w cap ?s1" by (simp add: sender_evo_def)
    have "sender_good c w cap ?s1 (and_then (emit_frame (MaxStreamData sid l) cap ?s1)
        (apply_stream_limit (cx_now cx) sid))" for l
      by (rule sender_good_then[OF emit_frame_good[OF _ ok] apply_stream_limit_good]) simp
    then have "sender_good c w cap s (and_then (emit_frame (MaxStreamData sid l) cap ?s1)
        (apply_stream_limit (cx_now cx) sid))" for l
      using sender_evo_trans[OF e] by (simp add: sender_good_def)
    then show ?thesis
      unfolding write_max_stream_data_def ss prod.case Let_def Some option.case u using e ss
      by (auto simp: sender_good_def split: attempt_split)
  qed
qed

text \<open>
  The connection's own limit. \<open>MAX_DATA\<close> is only sent when it raises the limit; auto-tuning
  never narrows the window, because the window never exceeds its maximum.
\<close>

lemma sm_autotune_ok:
  assumes inv: "sm_inv c w 0 0 {} sm" and op: "sm_autotune_window sm now srtt = (sm', r)"
  shows "sm_inv c w 0 0 {} sm'" "sm_evo c sm [] sm'" "fc_window (sm_flow_control sm) \<le> fc_window (sm_flow_control sm')"
    "fc_max_data (sm_flow_control sm') = fc_max_data (sm_flow_control sm)"
    "fc_read_off (sm_flow_control sm') = fc_read_off (sm_flow_control sm)"
proof -
  let ?fc = "sm_flow_control sm"
  note cap = sm_inv_capacity[OF inv]
  have "sm' = sm \<or> (\<exists>w'. w' \<le> fc_max_window ?fc \<and> fc_window ?fc \<le> w' \<and>
      sm' = sm\<lparr>sm_flow_control := ?fc\<lparr>fc_window := w'\<rparr>\<rparr>)"
    using op cap(7) unfolding sm_autotune_window_def fc_autotune_window_def
    by (auto simp: res_simps split: option.splits if_splits)
       (metis min_le_iff_disj min.cobounded2 mult_2_right le_add1 order_trans min_def)+
  then show "sm_inv c w 0 0 {} sm'" "sm_evo c sm [] sm'" "fc_window ?fc \<le> fc_window (sm_flow_control sm')"
    "fc_max_data (sm_flow_control sm') = fc_max_data ?fc" "fc_read_off (sm_flow_control sm') = fc_read_off ?fc"
    using inv cap(4) by (auto simp: sm_frame sm_evo_refl intro!: sm_inv_fc[OF inv])
qed

lemma apply_connection_limit_good:
  assumes s: "sender_ok c w cap s"
    and up: "fc_max_data (sm_flow_control (fst s)) \<le> fc_read_off (sm_flow_control (fst s)) + fc_window (sm_flow_control (fst s))"
  shows "sender_good c w cap s (apply_connection_limit now s)"
proof -
  obtain sm pk where ss: "s = (sm, pk)" by (cases s)
  let ?fc = "sm_flow_control sm"
  have inv: "sm_inv c w 0 0 {} (sm\<lparr>sm_rx_almost_full := False\<rparr>)" using s by (simp add: ss sender_ok_def sm_frame)
  note cap = sm_inv_capacity[OF inv]
  have "sm_inv c w 0 0 {} (sm\<lparr>sm_rx_almost_full := False,
      sm_flow_control := ?fc\<lparr>fc_max_data := fc_read_off ?fc + fc_window ?fc, fc_last_updated := Some now\<rparr>\<rparr>)"
    using up cap(4,7) ss sm_inv_fc[OF inv] by simp
  then show ?thesis using sender_evo_streams[OF s] ss
    by (auto simp: apply_connection_limit_def sm_update_max_rx_data_def fc_update_max_data_def fc_max_data_next_def
        res_simps sender_good_def sm_frame sm_evo_refl)
qed

lemma write_max_data_good:
  assumes s: "sender_ok c w cap s"
  shows "sender_good c w cap s (write_max_data cx cap s)"
proof -
  obtain sm pk where ss: "s = (sm, pk)" by (cases s)
  have inv: "sm_inv c w 0 0 {} sm" using s by (simp add: ss sender_ok_def)
  obtain sm1 r where a: "sm_autotune_window sm (cx_now cx) (cx_srtt cx) = (sm1, r)" by fastforce
  note at = sm_autotune_ok[OF inv a]
  have e: "sender_evo c w cap s (sm1, pk)" using sender_evo_streams[OF s] at(1,2) ss by simp
  have "sender_good c w cap (sm1, pk) (and_then (emit_frame (MaxData l) cap (sm1, pk)) (apply_connection_limit (cx_now cx)))"
    if "sm_need_send_max_data sm = Ok True" for l
  proof -
    have ok: "sender_ok c w cap (sm1, pk)" using e by (simp add: sender_evo_def)
    have up: "fc_max_data (sm_flow_control sm1) \<le> fc_read_off (sm_flow_control sm1) + fc_window (sm_flow_control sm1)"
      using that at(3-5) by (auto simp: sm_need_send_max_data_def sm_max_rx_data_next_def fc_max_data_next_def
          sm_max_rx_data_def split: if_splits)
    obtain s2 q where em: "emit_frame (MaxData l) cap (sm1, pk) = (s2, q)" by fastforce
    have g: "sender_good c w cap (sm1, pk) (s2, q)" using emit_frame_good[OF _ ok, of "MaxData l"] em by simp
    have same: "fst s2 = sm1" using em by (auto simp: emit_frame_def split: attempt_splits prod.splits)
    show ?thesis
    proof (cases q)
      case (Ok u)
      then have e2: "sender_evo c w cap (sm1, pk) s2" using g by (simp add: sender_good_def)
      then have "sender_good c w cap s2 (apply_connection_limit (cx_now cx) s2)"
        using apply_connection_limit_good[of c w cap s2] same up by (simp add: sender_evo_def)
      then show ?thesis using sender_evo_trans[OF e2] Ok by (simp add: em and_then_def sender_good_def)
    qed (use g in \<open>simp_all add: em and_then_def sender_good_def\<close>)
  qed
  then have "sm_need_send_max_data sm = Ok True \<Longrightarrow>
      sender_good c w cap s (and_then (emit_frame (MaxData l) cap (sm1, pk)) (apply_connection_limit (cx_now cx)))" for l
    using sender_evo_trans[OF e] by (simp add: sender_good_def)
  then show ?thesis
    unfolding write_max_data_def ss prod.case Let_def a using e sender_evo_refl[OF s] ss
    by (auto simp: sender_good_def split: attempt_split)
qed

lemma control_frames_good:
  assumes s: "sender_ok c w cap s"
  shows "sender_good c w cap s (try_write_stream_control_frames cx order cap s)"
proof -
  have "sender_good c w cap s
      (and_then (for_each (write_max_streams cap) [True, False] s) (\<lambda>s.
       and_then (write_data_blocked cap s) (\<lambda>s.
       and_then (for_each (write_max_stream_data cx cap) (order (sm_almost_full (fst s))) s) (\<lambda>s.
       and_then (write_max_data cx cap s) (\<lambda>s.
       and_then (for_each (write_stop_sending cap) (entries order (sm_stopped (fst s))) s) (\<lambda>s.
       and_then (for_each (write_reset_stream cap) (entries order (sm_reset (fst s))) s) (\<lambda>s.
       and_then (for_each (write_stream_data_blocked cap) (entries order (sm_data_blocked (fst s))) s) (\<lambda>s.
         for_each (write_streams_blocked cap) [True, False] s))))))))"
    by (intro sender_good_then sender_good_for_each write_marks_good write_max_stream_data_good write_max_data_good s)
  then show ?thesis
    by (auto simp: try_write_stream_control_frames_def sender_good_refl[OF s] simp del: for_each.simps split: attempt_split)
qed

section \<open>STREAM frames\<close>

text \<open>
  Reading from a stream's send buffer in any state: a buffer that was reset yields an empty
  frame, a ready one at least a byte.
\<close>

lemma sb_send_off_bounds:
  assumes "sb_inv c s"
  shows "sb_send_off s \<le> sb_unsent_off s" "sb_send_off s \<le> sb_write_off s" "sb_ready s \<Longrightarrow> sb_send_off s \<in> sb_pending s"
proof -
  have l: "least_pending (sb_R s) (sb_unsent_off s) (sb_send_off s)" "sb_R s \<subseteq> {..<sb_unsent_off s}"
    "sb_unsent_off s \<le> sb_write_off s" using assms send_off_least by (auto simp: sb_inv_def)
  then show "sb_send_off s \<le> sb_unsent_off s" by (auto simp: least_pending_def split: if_splits)
  then show "sb_send_off s \<le> sb_write_off s" using l(3) by simp
  show "sb_send_off s \<in> sb_pending s" if "sb_ready s"
    using l that by (auto simp: least_pending_def sb_pending_def sb_ready_def split: if_splits)
qed

lemma sb_read_any:
  assumes inv: "sb_inv c s"
  defines "a \<equiv> sb_send_off s"
  shows "\<exists>s' n. sb_read s cap = Some (s', map c [a..<a + n], n, sb_fin_off s = Some (a + n)) \<and> n \<le> cap \<and>
    sb_inv c s' \<and> sb_takes s 0 s' \<and> sb_write_off s' = sb_write_off s \<and> a + n \<le> sb_unsent_off s' \<and>
    (sb_ready s \<and> 0 < cap \<longrightarrow> 0 < n)"
proof (cases "sb_live s")
  case True
  obtain s' n where r: "sb_read s cap = Some (s', map c [a..<a + n], n, sb_fin_off s = Some (a + n))" "n \<le> cap"
    "sb_read_post c s a (a + n) s'" "sb_data s \<noteq> [] \<longrightarrow> n = cap \<or> a + n \<notin> sb_pending s"
    using sb_read_spec[OF inv True, of cap] unfolding a_def by auto
  have p: "sb_inv c s'" "sb_frame s' = sb_frame s" "sb_unsent_off s \<le> sb_unsent_off s'" "0 < n \<longrightarrow> a + n \<le> sb_unsent_off s'"
    using r(3) by (auto simp: sb_read_post_def)
  have "a + n \<le> sb_unsent_off s'" using p(3,4) sb_send_off_bounds(1)[OF inv] by (cases "n = 0") (auto simp: a_def)
  moreover have "0 < n" if "sb_ready s" "0 < cap"
    using r(4) that sb_send_off_bounds(3)[OF inv] by (cases "n = 0") (auto simp: a_def sb_ready_def)
  moreover have "sb_takes s 0 s'" using p by (intro sb_takes_same) (auto simp: sb_frame_def)
  ultimately show ?thesis using r(1,2) p by (auto simp: sb_frame_def)
next
  case False
  then have "sb_data s = []" using inv by (auto simp: sb_inv_def sb_dead_def)
  then have "\<not> sb_ready s" by (simp add: sb_ready_def)
  then have "sb_read s cap = Some (s, [], 0, sb_fin_off s = Some a)"
    by (simp add: sb_read_def sb_read_loop.simps a_def)
  then show ?thesis using inv \<open>\<not> sb_ready s\<close> sb_send_off_bounds(1)[OF inv]
    by (intro exI[of _ s] exI[of _ 0]) (simp add: a_def)
qed

lemma varint_bytes_length: "0 < length (varint_bytes n)" "length (varint_bytes n) \<le> 8"
  by (auto simp: varint_bytes_def)

lemma stream_header:
  assumes "vints [sid, off]" "n < 2 ^ 14"
  shows "\<exists>hdr. stream_header_wire_len sid off = Ok (length hdr) \<and> 0 < length hdr \<and> length hdr \<le> MAX_STREAM_OVERHEAD \<and>
    encode_stream_header sid off n fin ([], length hdr) = Ok (hdr, 0) \<and>
    (\<forall>d. length d = n \<longrightarrow> frame_bytes (Stream sid off n fin d) = hdr @ d)"
proof -
  let ?h = "varints [if fin then 15 else 14, sid, off] @ len_bytes n"
  have "stream_header_wire_len sid off = Ok (length ?h)"
    using assms(1) by (simp add: stream_header_wire_len_def encode_varint_len_eq small_varint_len len_bytes_def)
  moreover have "length ?h \<le> MAX_STREAM_OVERHEAD"
    using varint_bytes_length(2)[of sid] varint_bytes_length(2)[of off]
    by (simp add: small_varint_len len_bytes_def MAX_STREAM_OVERHEAD_def)
  moreover have "encode_stream_header sid off n fin ([], length ?h) = Ok (?h, 0)"
    using write_headers_emit(2)[OF assms] by (simp add: emit_total)
  ultimately show ?thesis by (intro exI[of _ ?h]) (auto simp: len_bytes_def)
qed

text \<open>A round that writes a frame: progress, and the stream stays queued while it is ready.\<close>

lemma peeked_queued: "peeked sm sid \<Longrightarrow> sm_queued sm sid"
proof -
  assume "peeked sm sid"
  then obtain u q rest where q: "sm_sendable sm = (u, q) # rest"
    "case pq_non_incremental q of x # _ \<Rightarrow> x = sid | [] \<Rightarrow> pq_incremental q \<noteq> [] \<and> last (pq_incremental q) = sid"
    unfolding peeked_def by blast
  then have "sid \<in> pq_ids q" by (auto simp: pq_ids_def split: list.splits)
  then show "sm_queued sm sid" by (simp add: sm_queued_def q(1))
qed

lemma write_stream_frame_ok:
  assumes s: "sender_ok c w tot s" and st: "sm_get (fst s) sid = Some stream" and pk: "peeked (fst s) sid"
    and cap: "cap = tot - length (fst (snd s))" "MAX_STREAM_OVERHEAD < cap" "tot \<le> 2 ^ 14"
  shows "\<exists>s' cap'. write_stream_frame retain cap sid stream s =
      Some ((s', cap'), Ok (MAX_STREAM_OVERHEAD < cap')) \<and> sender_evo c w tot s s' \<and>
    cap' = tot - length (fst (snd s')) \<and> cap' < cap"
proof -
  obtain sm out fw where ss: "s = (sm, (out, fw))" by (metis surj_pair)
  have inv: "sm_inv c w 0 0 {} sm" and fit: "fw_written fw = length out" "length out \<le> tot"
    using s by (simp_all add: ss sender_ok_def pk_fits_def)
  have st: "sm_get sm sid = Some stream" and pk: "peeked sm sid" using st pk ss by simp_all
  note sbi = sm_inv_stream(6)[OF inv st]
  let ?a = "sb_send_off (st_send stream)"
  have v: "vints [sid, ?a]"
    using sm_inv_stream(8)[OF inv st] sb_send_off_bounds(2)[OF sbi] sbi by (auto simp: sb_inv_def)
  have z: "(0::nat) < 2 ^ 14" by simp
  obtain h0 :: bytes where h0: "stream_header_wire_len sid ?a = Ok (length h0)" "0 < length h0" "length h0 \<le> MAX_STREAM_OVERHEAD"
    using stream_header[OF v z, of False] by blast
  obtain s1 n where rd: "sb_read (st_send stream) (cap - length h0) =
      Some (s1, map (w sid) [?a..<?a + n], n, sb_fin_off (st_send stream) = Some (?a + n))" "n \<le> cap - length h0"
    "sb_inv (w sid) s1" "sb_takes (st_send stream) 0 s1" "sb_write_off s1 = sb_write_off (st_send stream)"
    "?a + n \<le> sb_unsent_off s1"
    using sb_read_any[OF sbi, of "cap - length h0"] by blast
  let ?fin = "sb_fin_off (st_send stream) = Some (?a + n)" and ?d = "map (w sid) [?a..<?a + n]"
  have n: "n < 2 ^ 14" using rd(2) h0(2,3) cap by linarith
  obtain hdr where h: "length hdr = length h0" "encode_stream_header sid ?a n ?fin ([], length h0) = Ok (hdr, 0)"
    "frame_bytes (Stream sid ?a n ?fin ?d) = hdr @ ?d"
  proof -
    obtain hdr where "stream_header_wire_len sid ?a = Ok (length hdr)"
      "encode_stream_header sid ?a n ?fin ([], length hdr) = Ok (hdr, 0)"
      "\<forall>d. length d = n \<longrightarrow> frame_bytes (Stream sid ?a n ?fin d) = hdr @ d"
      using stream_header[OF v n, of ?fin] by blast
    then show ?thesis using that[of hdr] h0(1) by (simp del: frame_bytes.simps)
  qed
  define fr where "fr = Stream sid ?a n ?fin (if retain then ?d else [])"
  define stream1 where "stream1 = stream\<lparr>st_send := s1\<rparr>"
  define sm1 where "sm1 = sm_put sm sid stream1"
  define sm2 where "sm2 = (if \<not> st_is_sendable stream1 then sm_remove_sendable sm1 else sm1)"
  define fw1 where "fw1 = fw\<lparr>fw_written := fw_written fw + (length h0 + n), fw_ack_eliciting := True,
    fw_in_flight := True, fw_has_data := True, fw_frames := fw_frames fw @ [fr]\<rparr>"
  have eq: "write_stream_frame retain cap sid stream s = Some (((sm2, (out @ hdr @ ?d, fw1)), cap - (length h0 + n)),
      Ok (\<not> cap - (length h0 + n) \<le> MAX_STREAM_OVERHEAD))"
    using h0(3) cap(2) unfolding write_stream_frame_def ss Let_def prod.case h0(1) res.case rd(1) Option.bind.simps
      h(2) sm1_def sm2_def fw1_def fr_def stream1_def by simp
  note q = sm_put_send_quiet[OF inv st rd(3,5,4), folded stream1_def, folded sm1_def]
  have i1: "sm_inv c w 0 0 {} sm1" using q(3) peeked_queued[OF pk] by simp
  have g1: "sm_get sm1 sid = Some stream1" "peeked sm1 sid"
    using pk by (simp_all add: sm1_def sm_get_marks sm_parts_marks peeked_def)
  have "sm_inv c w 0 0 {} sm2 \<and> sm_evo c sm [] sm2 \<and> sm_get sm2 = sm_get sm1"
    using i1 q(2) sm_remove_ok[OF i1 g1(2)] g1(1) by (simp add: sm2_def)
  then have i2: "sm_inv c w 0 0 {} sm2" "sm_evo c sm [] sm2" "sm_get sm2 sid = Some stream1" using g1 by auto
  have "frame_wf (wire_frame w fr)" "fits_len fr" "frame_sent sm2 fr"
    using v n rd(6) i2(3) sm_inv_stream(1)[OF i2(1,3)] rd(3)
    by (auto simp: fr_def wire_frame_def fits_len_def frame_sent_def sm_sent_def stream1_def sb_inv_def
        MAX_STREAM_SIZE_def VINT_MAX_def)
  moreover have "frame_bytes (wire_frame w fr) = hdr @ ?d" using h(3) by (simp add: fr_def wire_frame_def del: frame_bytes.simps)
  ultimately have "pk_ext w sm2 tot (out, fw) (out @ hdr @ ?d, fw1)"
    unfolding pk_ext_def using rd(2) h0(3) h(1) cap fit
    by (intro conjI exI[of _ "[fr]"]) (auto simp: fw1_def ss)
  then have "sender_evo c w tot s (sm2, (out @ hdr @ ?d, fw1))"
    using i2 by (simp add: sender_evo_def sender_ok_def ss pk_ext_fits)
  moreover have "cap - (length h0 + n) < cap" using h0(2) cap(2) by linarith
  moreover have "cap - (length h0 + n) = tot - length (out @ hdr @ ?d)" by (simp add: cap(1) ss h(1))
  ultimately show ?thesis unfolding eq
    by (intro exI[of _ "(sm2, (out @ hdr @ ?d, fw1))"] exI[of _ "cap - (length h0 + n)"]) (simp add: not_le)
qed

text \<open>
  One round: the loop goes on only with less room or a shorter queue, and it stops only with the
  packet full or the queue empty.
\<close>

definition round_result ::
    "(nat \<Rightarrow> nat \<Rightarrow> byte) \<Rightarrow> (nat \<Rightarrow> nat \<Rightarrow> byte) \<Rightarrow> nat \<Rightarrow> 'c sender \<Rightarrow> nat \<Rightarrow> 'c sender \<Rightarrow> nat \<Rightarrow> bool \<Rightarrow> bool" where
  "round_result c w tot s cap s' cap' go_on \<longleftrightarrow> sender_evo c w tot s s' \<and> cap' = tot - length (fst (snd s')) \<and>
     (if go_on then MAX_STREAM_OVERHEAD < cap' \<and> (cap' < cap \<or> cap' = cap \<and> pq_size (fst s') < pq_size (fst s))
      else cap' \<le> MAX_STREAM_OVERHEAD \<or> sm_sendable (fst s') = [])"

lemma stream_frame_round_ok:
  assumes s: "sender_ok c w tot s"
    and cap: "cap = tot - length (fst (snd s))" "MAX_STREAM_OVERHEAD < cap" "tot \<le> 2 ^ 14"
  shows "\<exists>s' cap' b. stream_frame_round retain cap s = Some ((s', cap'), Ok b) \<and> round_result c w tot s cap s' cap' b"
proof -
  obtain sm pk where ss: "s = (sm, pk)" by (cases s)
  have inv: "sm_inv c w 0 0 {} sm" using s by (simp add: ss sender_ok_def)
  obtain sm1 nx where pk1: "sm_peek_sendable sm = (sm1, nx)" by fastforce
  have i1: "sm_inv c w 0 0 {} sm1" "sm_evo c sm [] sm1" "nx = None \<longleftrightarrow> sm_sendable sm = []"
    using sm_peek_ok(1,5)[OF inv pk1] sm_peek_ok(2)[OF inv pk1, of sm "[]"] sm_evo_refl[of c sm] by simp_all
  have e1: "sender_evo c w tot s (sm1, pk)" using sender_evo_streams[OF s i1(1)] i1(2) ss by simp
  show ?thesis
  proof (cases nx)
    case None
    then have "sm_sendable sm1 = []" using i1(3) pk1 by (auto simp: sm_peek_sendable_def)
    then show ?thesis using e1 None cap(1)
      by (intro exI[of _ "(sm1, pk)"] exI[of _ cap] exI[of _ False])
        (simp add: stream_frame_round_def ss pk1 round_result_def)
  next
    case (Some sid)
    note p = sm_peek_peeked[OF inv pk1[unfolded Some]]
    show ?thesis
    proof (cases "\<exists>st. sm_get sm1 sid = Some st \<and> \<not> sb_is_stopped (st_send st)")
      case True
      then obtain st where st: "sm_get sm1 sid = Some st" "\<not> sb_is_stopped (st_send st)" by blast
      have ok: "sender_ok c w tot (sm1, pk)" using e1 by (simp add: sender_evo_def)
      obtain s' cap' where "write_stream_frame retain cap sid st (sm1, pk) = Some ((s', cap'), Ok (MAX_STREAM_OVERHEAD < cap'))"
        "sender_evo c w tot (sm1, pk) s'" "cap' = tot - length (fst (snd s'))" "cap' < cap"
        using write_stream_frame_ok[OF ok, of sid st cap retain] st p cap ss by auto
      then show ?thesis using sender_evo_trans[OF e1] st
        by (intro exI[of _ s'] exI[of _ cap'] exI[of _ "MAX_STREAM_OVERHEAD < cap'"])
          (auto simp: stream_frame_round_def ss pk1 Some round_result_def)
    next
      case False
      have "\<not> st_is_sendable st" if "sm_get sm1 sid = Some st" for st
        using that False sm_inv_stream(6)[OF i1(1) that]
        by (auto simp: sb_is_stopped_def st_is_sendable_def sb_ready_def sb_inv_def)
      note r = sm_remove_ok[OF i1(1) conjunct1[OF p] this]
      have "sender_evo c w tot s (sm_remove_sendable sm1, pk)"
        using sender_evo_streams[OF s r(1)] r(3)[of sm "[]"] i1(2) ss by simp
      moreover have "stream_frame_round retain cap s = Some (((sm_remove_sendable sm1, pk), cap), Ok True)"
        using False by (auto simp: stream_frame_round_def ss pk1 Some split: option.split)
      ultimately show ?thesis using r(2) p cap ss
        by (intro exI[of _ "(sm_remove_sendable sm1, pk)"] exI[of _ cap] exI[of _ True])
          (simp add: round_result_def)
    qed
  qed
qed

lemma stream_frames_loop_ok:
  assumes "sender_ok c w tot s" "cap = tot - length (fst (snd s))" "MAX_STREAM_OVERHEAD < cap" "tot \<le> 2 ^ 14"
  shows "\<exists>s'. stream_frames_loop retain cap s = Some (s', Ok ()) \<and> sender_evo c w tot s s' \<and>
    (tot - length (fst (snd s')) \<le> MAX_STREAM_OVERHEAD \<or> sm_sendable (fst s') = [])"
  using assms(1-3)
proof (induction "(cap, pq_size (fst s))" arbitrary: cap s
    rule: wf_induct_rule[OF wf_lex_prod[OF wf_less wf_less]])
  case (1 cap s)
  obtain s1 cap1 b where r: "stream_frame_round retain cap s = Some ((s1, cap1), Ok b)"
    "round_result c w tot s cap s1 cap1 b"
    using stream_frame_round_ok[OF "1.prems" assms(4)] by blast
  have e: "sender_evo c w tot s s1" "cap1 = tot - length (fst (snd s1))" using r(2) by (simp_all add: round_result_def)
  show ?case
  proof (cases b)
    case True
    then have lt: "MAX_STREAM_OVERHEAD < cap1"
      and mem: "((cap1, pq_size (fst s1)), cap, pq_size (fst s)) \<in> {(x, y). x < y} <*lex*> {(x, y). x < y}"
      using r(2) by (auto simp: round_result_def)
    have "sender_ok c w tot s1" using e(1) by (simp add: sender_evo_def)
    from "1.hyps"[OF mem this e(2) lt] obtain s' where "stream_frames_loop retain cap1 s1 = Some (s', Ok ())" "sender_evo c w tot s1 s'"
      "tot - length (fst (snd s')) \<le> MAX_STREAM_OVERHEAD \<or> sm_sendable (fst s') = []"
      by blast
    then show ?thesis using r(1) True sender_evo_trans[OF e(1)]
      by (subst stream_frames_loop.simps) (intro exI[of _ s'], simp)
  next
    case False
    then show ?thesis using r e by (subst stream_frames_loop.simps) (auto simp: round_result_def)
  qed
qed


text \<open>The whole function: it returns, without a panic, and leaves the packet within its capacity.\<close>

lemma try_write_stream_frames_ok:
  assumes s: "sender_ok c w cap s" and cap: "cap \<le> 2 ^ 14"
  shows "\<exists>s' r. try_write_stream_frames cx cap s = Some (s', r) \<and> sender_evo c w cap s s' \<and>
    (r = Ok () \<or> cx_path_active cx = None \<and> r = Err InternalError)"
proof -
  have w: "fw_written (snd (snd s)) = length (fst (snd s))" "length (fst (snd s)) \<le> cap"
    using s by (simp_all add: sender_ok_def pk_fits_def)
  let ?retain = "cx_multipath cx \<and> buffer_required (cx_algorithm cx)"
  consider "try_write_stream_frames cx cap s = Some (s, Ok ())"
  | "cx_path_active cx = None" "try_write_stream_frames cx cap s = Some (s, Err InternalError)"
  | "MAX_STREAM_OVERHEAD < cap - length (fst (snd s))"
    "try_write_stream_frames cx cap s = stream_frames_loop ?retain (cap - length (fst (snd s))) s"
    using w by (fastforce simp: try_write_stream_frames_def Let_def split: option.splits if_splits)
  then show ?thesis
  proof cases
    case 3
    then show ?thesis using stream_frames_loop_ok[OF s refl 3(1) cap, of ?retain] by metis
  qed (use sender_evo_refl[OF s] in blast)+
qed

end
