(* ===== verification/Stream_Net.thy ===== *)
theory Stream_Net
  imports Stream_Send "HOL-Library.Code_Target_Numeral"
begin

text \<open>
  Two endpoints and a network between them. First the places where a connection hands frames to
  its stream manager: \<open>recv_frame\<close> and the loop over a packet's payload in
  \<open>src/src/connection/recv.rs\<close>, \<open>try_process_acked_frames\<close> in \<open>handshake.rs\<close>,
  \<open>process_all_lost_frames\<close> and the stream part of \<open>send_frames\<close> in \<open>send.rs\<close>. Then a
  system of two such endpoints whose packets may be lost, duplicated and reordered at will, and
  the property the whole stream layer is for: on every stream, what one application reads is a
  prefix of what the other one wrote.
\<close>

section \<open>The code\<close>

text \<open>
  The arms of \<open>recv_frame\<close> that concern streams. The outcome of the other arms, which work on
  other parts of the connection, is the argument \<open>other\<close>.
\<close>

definition recv_frame ::
    "(Frame \<Rightarrow> unit qres) \<Rightarrow> Frame \<Rightarrow> (byte, 'c) stream_map \<Rightarrow> (byte, 'c) stream_map \<times> unit qres" where
  "recv_frame other frame sm =
     (case frame of
        Stream stream_id offset len fin data \<Rightarrow> sm_on_stream_frame_received sm stream_id offset len fin data
      | ResetStream stream_id error_code final_size \<Rightarrow>
          sm_on_reset_stream_frame_received sm stream_id error_code final_size
      | StopSending stream_id error_code \<Rightarrow> sm_on_stop_sending_frame_received sm stream_id error_code
      | MaxData m \<Rightarrow> sm_on_max_data_frame_received sm m
      | MaxStreamData stream_id m \<Rightarrow> sm_on_max_stream_data_frame_received sm stream_id m
      | MaxStreams bidi m \<Rightarrow> sm_on_max_streams_frame_received sm m bidi
      | DataBlocked m \<Rightarrow> (sm_on_data_blocked_frame_received sm m, Ok ())
      | StreamDataBlocked stream_id m \<Rightarrow> sm_on_stream_data_blocked_frame_received sm stream_id m
      | StreamsBlocked bidi m \<Rightarrow> sm_on_streams_blocked_frame_received sm m bidi
      | _ \<Rightarrow> (sm, other frame))"

text \<open>The loop over the payload; \<open>payload.split_to(len)\<close> panics past the end.\<close>

partial_function (option) recv_payload ::
    "(Frame \<Rightarrow> unit qres) \<Rightarrow> PacketType \<Rightarrow> bytes \<Rightarrow> (byte, 'c) stream_map \<Rightarrow>
     ((byte, 'c) stream_map \<times> unit qres) option" where
  [code]: "recv_payload other pkt_type payload sm =
     (if payload = [] then Some (sm, Ok ())
      else case from_bytes payload pkt_type of
        Err e \<Rightarrow> Some (sm, Err e)
      | Panic \<Rightarrow> Some (sm, Panic)
      | Ok (frame, len) \<Rightarrow>
          (case recv_frame other frame sm of
             (sm1, Err e) \<Rightarrow> Some (sm1, Err e)
           | (sm1, Panic) \<Rightarrow> Some (sm1, Panic)
           | (sm1, Ok _) \<Rightarrow>
               if len > length payload then Some (sm1, Panic)
               else recv_payload other pkt_type (drop len payload) sm1))"

definition process_acked_frame :: "Frame \<Rightarrow> (byte, 'c) stream_map \<Rightarrow> (byte, 'c) stream_map \<times> unit qres" where
  "process_acked_frame frame sm =
     (case frame of
        Stream stream_id offset len fin data \<Rightarrow> sm_on_stream_frame_acked sm stream_id offset len
      | ResetStream stream_id error_code final_size \<Rightarrow> (sm_on_reset_stream_frame_acked sm stream_id, Ok ())
      | _ \<Rightarrow> (sm, Ok ()))"

definition process_lost_frame :: "Frame \<Rightarrow> (byte, 'c) stream_map \<Rightarrow> (byte, 'c) stream_map \<times> unit qres" where
  "process_lost_frame frame sm =
     (case frame of
        Stream stream_id offset len fin data \<Rightarrow> sm_on_stream_frame_lost sm stream_id offset len fin
      | ResetStream stream_id error_code final_size \<Rightarrow>
          (sm_on_reset_stream_frame_lost sm stream_id error_code final_size, Ok ())
      | MaxStreamData stream_id m \<Rightarrow> (sm_on_max_stream_data_frame_lost sm stream_id, Ok ())
      | MaxData m \<Rightarrow> (sm_on_max_data_frame_lost sm, Ok ())
      | StopSending stream_id error_code \<Rightarrow> (sm_on_stop_sending_frame_lost sm stream_id error_code, Ok ())
      | StreamsBlocked bidi m \<Rightarrow> (sm_on_streams_blocked_frame_lost sm bidi m, Ok ())
      | StreamDataBlocked stream_id m \<Rightarrow> (sm_on_stream_data_blocked_frame_lost sm stream_id m, Ok ())
      | DataBlocked m \<Rightarrow> (sm_on_data_blocked_frame_lost sm m, Ok ())
      | MaxStreams bidi m \<Rightarrow> (sm_on_max_streams_frame_lost sm bidi m, Ok ())
      | _ \<Rightarrow> (sm, Ok ()))"

text \<open>
  The stream part of \<open>send_frames\<close>: control frames, then STREAM frames. An error, in
  particular \<open>Done\<close> when the packet is full, ends the writing, and a packet without frames is
  \<open>Done\<close> as well. What the steps in between write is not about streams and left out.
\<close>

definition send_stream_frames ::
    "send_ctx \<Rightarrow> (nat set \<Rightarrow> nat list) \<Rightarrow> nat \<Rightarrow> 'c sender \<Rightarrow> ('c sender \<times> unit qres) option" where
  "send_stream_frames cx order cap s =
     (case try_write_stream_control_frames cx order cap s of
        (s1, Ok _) \<Rightarrow>
          (case try_write_stream_frames cx cap s1 of
             Some (s2, Ok _) \<Rightarrow> Some (s2, if fw_frames (snd (snd s2)) = [] then Err Done else Ok ())
           | r \<Rightarrow> r)
      | (s1, Err e) \<Rightarrow> Some (s1, Err e)
      | (s1, Panic) \<Rightarrow> Some (s1, Panic))"

section \<open>Endpoints in a network\<close>

text \<open>
  \<open>n_ep\<close> is the stream manager of the server (\<open>True\<close>) and of the client (\<open>False\<close>), gone
  after a panic or once a received frame has closed the connection; \<open>n_wire\<close> are the payloads an
  endpoint has sent, \<open>n_flight\<close> the frames it recorded for them, and \<open>n_events\<close> what its
  application has read and written.
\<close>

record 'c net =
  n_ep :: "bool \<Rightarrow> (byte, 'c) stream_map option"
  n_wire :: "bool \<Rightarrow> bytes list"
  n_flight :: "bool \<Rightarrow> Frame list"
  n_events :: "bool \<Rightarrow> byte app_event list"

datatype 'c app_op =
  OpenStream bool nat bool
| WriteStream nat bytes bool
| ReadStream nat nat
| ShutdownStream nat Shutdown nat
| SetPriority nat nat bool
| SetContext nat 'c
| WantRead nat bool
| WantWrite nat bool
| CheckWritable nat nat

datatype 'c net_op =
  App bool "'c app_op"
| Send bool send_ctx "nat set \<Rightarrow> nat list" nat
| Deliver bool "Frame \<Rightarrow> unit qres" PacketType nat
| Acked bool nat
| Lost bool nat
| PeerParams bool stream_transport_params

definition alive :: "'s \<times> ('e, 'a) res \<Rightarrow> 's option" where
  "alive p = (case snd p of Panic \<Rightarrow> None | _ \<Rightarrow> Some (fst p))"

definition accepted :: "'s \<times> unit qres \<Rightarrow> 's option" where
  "accepted p = (case snd p of Ok _ \<Rightarrow> Some (fst p) | _ \<Rightarrow> None)"

definition app_step ::
    "'c app_op \<Rightarrow> (byte, 'c) stream_map \<Rightarrow> (byte, 'c) stream_map option \<times> byte app_event list" where
  "app_step oper sm =
     (case oper of
        OpenStream bidi u i \<Rightarrow> (alive (if bidi then sm_stream_bidi_new sm u i else sm_stream_uni_new sm u i), [])
      | WriteStream sid buf fin \<Rightarrow>
          let r = sm_stream_write sm sid buf fin
          in (alive r, [AppWrote sid (case snd r of Ok n \<Rightarrow> take n buf | _ \<Rightarrow> [])])
      | ReadStream sid cap \<Rightarrow>
          let r = sm_stream_read sm sid cap
          in (alive r, [AppRead sid (case snd r of Ok (bs, fin) \<Rightarrow> bs | _ \<Rightarrow> [])])
      | ShutdownStream sid dir e \<Rightarrow> (alive (sm_stream_shutdown sm sid dir e), [])
      | SetPriority sid u i \<Rightarrow> (alive (sm_stream_set_priority sm sid u i), [])
      | SetContext sid ctx \<Rightarrow> (alive (sm_stream_set_context sm sid ctx), [])
      | WantRead sid b \<Rightarrow> (alive (sm_want_read sm sid b), [])
      | WantWrite sid b \<Rightarrow> (alive (sm_want_write sm sid b), [])
      | CheckWritable sid len \<Rightarrow> (alive (sm_stream_writable sm sid len), []))"

definition nth_opt :: "'a list \<Rightarrow> nat \<Rightarrow> 'a option" where
  "nth_opt xs i = (if i < length xs then Some (xs ! i) else None)"

text \<open>
  A packet is sent when frames were written, also when \<open>Done\<close> stopped the writing; any other
  error leaves the changed streams and no packet.
\<close>

definition send_step ::
    "send_ctx \<Rightarrow> (nat set \<Rightarrow> nat list) \<Rightarrow> nat \<Rightarrow> (byte, 'c) stream_map \<Rightarrow>
     (byte, 'c) stream_map option \<times> bytes list \<times> Frame list" where
  "send_step cx order cap sm =
     (case send_stream_frames cx order cap (sm, ([], fw_default)) of
        None \<Rightarrow> (None, [], [])
      | Some (_, Panic) \<Rightarrow> (None, [], [])
      | Some ((sm1, (out, st)), Ok _) \<Rightarrow> (Some sm1, [out], fw_frames st)
      | Some ((sm1, (out, st)), Err e) \<Rightarrow>
          if e = Done \<and> fw_written st > 0 then (Some sm1, [out], fw_frames st) else (Some sm1, [], []))"

definition net_step :: "'c net_op \<Rightarrow> 'c net \<Rightarrow> 'c net" where
  "net_step oper net =
     (let at = (\<lambda>p f. case n_ep net p of None \<Rightarrow> net | Some sm \<Rightarrow> net\<lparr>n_ep := (n_ep net)(p := f sm)\<rparr>) in
      case oper of
        App p a \<Rightarrow>
          (case n_ep net p of
             None \<Rightarrow> net
           | Some sm \<Rightarrow>
               let (ep, evs) = app_step a sm
               in net\<lparr>n_ep := (n_ep net)(p := ep), n_events := (n_events net)(p := n_events net p @ evs)\<rparr>)
      | Send p cx order cap \<Rightarrow>
          (case n_ep net p of
             None \<Rightarrow> net
           | Some sm \<Rightarrow>
               let (ep, outs, fs) = send_step cx order cap sm
               in net\<lparr>n_ep := (n_ep net)(p := ep), n_wire := (n_wire net)(p := n_wire net p @ outs),
                      n_flight := (n_flight net)(p := n_flight net p @ fs)\<rparr>)
      | Deliver p other pkt_type i \<Rightarrow>
          (case nth_opt (n_wire net (\<not> p)) i of
             None \<Rightarrow> net
           | Some payload \<Rightarrow>
               at p (\<lambda>sm. Option.bind (recv_payload other pkt_type payload sm) accepted))
      | Acked p i \<Rightarrow>
          (case nth_opt (n_flight net p) i of
             None \<Rightarrow> net
           | Some frame \<Rightarrow> at p (\<lambda>sm. alive (process_acked_frame frame sm)))
      | Lost p i \<Rightarrow>
          (case nth_opt (n_flight net p) i of
             None \<Rightarrow> net
           | Some frame \<Rightarrow> at p (\<lambda>sm. alive (process_lost_frame frame sm)))
      | PeerParams p tp \<Rightarrow> at p (\<lambda>sm. alive (sm_update_peer_stream_transport_params sm tp)))"

text \<open>Connection window, stream window and transport parameters of the two endpoints.\<close>

type_synonym config = "bool \<Rightarrow> nat \<times> nat \<times> stream_transport_params"

definition net_init :: "config \<Rightarrow> 'c net" where
  "net_init cfg =
     \<lparr>n_ep = (\<lambda>p. let (cw, sw, tp) = cfg p in Some (sm_new p cw sw tp)),
      n_wire = (\<lambda>p. []), n_flight = (\<lambda>p. []), n_events = (\<lambda>p. [])\<rparr>"

definition net_run :: "config \<Rightarrow> 'c net_op list \<Rightarrow> 'c net" where
  "net_run cfg ops = fold net_step ops (net_init cfg)"

text \<open>
  Packets are at most 16384 bytes, so that the two-byte length of STREAM frames suffices, and the
  peer's parameters are integers of the wire format. Nothing else is asked of the environment.
\<close>

fun net_legal :: "'c net_op \<Rightarrow> bool" where
  "net_legal (Send p cx order cap) \<longleftrightarrow> cap \<le> 2 ^ 14"
| "net_legal (PeerParams p tp) \<longleftrightarrow> peer_params_ok tp"
| "net_legal _ \<longleftrightarrow> True"

definition config_ok :: "config \<Rightarrow> bool" where
  "config_ok cfg \<longleftrightarrow> (\<forall>p. case cfg p of (cw, sw, tp) \<Rightarrow> local_params_ok cw sw tp)"

section \<open>Frames as the peer sees them\<close>

text \<open>A payload of well-formed frames is decoded frame by frame.\<close>

definition good_payload :: "(nat \<Rightarrow> nat \<Rightarrow> byte) \<Rightarrow> bytes \<Rightarrow> bool" where
  "good_payload w payload \<longleftrightarrow>
     (\<exists>fs. payload = concat (map (\<lambda>f. frame_bytes (wire_frame w f)) fs) \<and>
        (\<forall>f \<in> set fs. frame_wf (wire_frame w f) \<and> fits_len f \<and> (\<forall>n. f \<noteq> Paddings n)))"

lemma wire_frame_simps: "fits_len (wire_frame w f) = fits_len f" "wire_frame w f = Paddings n \<longleftrightarrow> f = Paddings n"
  by (cases f; simp add: wire_frame_def fits_len_def)+

lemma from_bytes_back:
  assumes "frame_wf f" "fits_len f" "\<And>n. f \<noteq> Paddings n"
  shows "from_bytes (frame_bytes f @ rest) pkt =
    (if validate_frame pkt f then Ok (on_wire f, length (frame_bytes f)) else Err InvalidPacket)"
    and "0 < length (frame_bytes f)"
proof -
  obtain ty b where b: "read_varint (frame_bytes f @ rest) = Ok (ty, b)" "parse_frame ty b = Ok (on_wire f, rest)"
    using parse_frame_back[of f rest] assms by auto
  then show "from_bytes (frame_bytes f @ rest) pkt =
      (if validate_frame pkt f then Ok (on_wire f, length (frame_bytes f)) else Err InvalidPacket)"
    by (simp add: from_bytes_def)
  obtain ty' b' where "read_varint (frame_bytes f @ []) = Ok (ty', b')"
    using parse_frame_back[of f "[]"] assms by auto
  then show "0 < length (frame_bytes f)" by (auto simp: read_varint_eq split: if_splits)
qed

lemma recv_frame_fine:
  assumes inv: "sm_inv c w 0 0 {} sm" and f: "frame_wf (wire_frame c f)"
  shows "sm_fine c w sm (recv_frame other (on_wire (wire_frame c f)) sm)"
proof -
  have str: "sm_fine c w sm (sm_on_stream_frame_received sm sid off n fin (map (c sid) [off..<off + n]))" for sid off n fin
    using sm_on_stream_frame_ok[OF inv, of "map (c sid) [off..<off + n]" sid off fin] by simp
  show ?thesis using f str sm_on_reset_stream_ok[OF inv]
    sm_good_fine[OF sm_on_stop_sending_ok[OF inv]] sm_good_fine[OF sm_on_max_data_ok[OF inv]]
    sm_good_fine[OF sm_on_max_stream_data_ok[OF inv]] sm_good_fine[OF sm_on_max_streams_ok[OF inv]]
    by (cases f) (auto simp: wire_frame_def on_wire_def recv_frame_def VINT_MAX_u64 sm_fineI(1)[OF inv sm_evo_refl]
        sm_on_data_blocked_frame_received_def sm_on_stream_data_blocked_frame_received_def
        sm_on_streams_blocked_frame_received_def sm_fineI)
qed

lemma recv_payload_ok:
  assumes "sm_inv c w 0 0 {} sm" "good_payload c payload"
  shows "\<exists>sm' r. recv_payload other pkt payload sm = Some (sm', r) \<and> sm_fine c w sm (sm', r)"
proof -
  obtain fs where fs: "payload = concat (map (\<lambda>f. frame_bytes (wire_frame c f)) fs)"
    "\<forall>f \<in> set fs. frame_wf (wire_frame c f) \<and> fits_len f \<and> (\<forall>n. f \<noteq> Paddings n)"
    using assms(2) by (auto simp: good_payload_def)
  have "\<exists>sm' r. recv_payload other pkt (concat (map (\<lambda>f. frame_bytes (wire_frame c f)) fs)) sm = Some (sm', r) \<and>
      sm_fine c w sm (sm', r)"
    using fs(2) assms(1)
  proof (induction fs arbitrary: sm)
    case Nil
    then show ?case by (subst recv_payload.simps) (simp add: sm_fineI sm_evo_refl)
  next
    case (Cons f fs)
    let ?f = "wire_frame c f" and ?rest = "concat (map (\<lambda>f. frame_bytes (wire_frame c f)) fs)"
    have wf: "frame_wf ?f" "fits_len ?f" "\<And>n. ?f \<noteq> Paddings n" using Cons.prems(1) by (auto simp: wire_frame_simps)
    note fb = from_bytes_back(1)[OF wf, of ?rest pkt] and ne = from_bytes_back(2)[OF wf]
    obtain sm1 r1 where r1: "recv_frame other (on_wire ?f) sm = (sm1, r1)" by fastforce
    have fine: "sm_fine c w sm (sm1, r1)" using recv_frame_fine[OF Cons.prems(2) wf(1), of other] r1 by simp
    show ?case
    proof (cases "validate_frame pkt ?f \<and> r1 = Ok ()")
      case True
      then have i1: "sm_inv c w 0 0 {} sm1" "sm_evo c sm [] sm1" using fine by (simp_all add: sm_fine_def)
      obtain sm' r where sm': "recv_payload other pkt ?rest sm1 = Some (sm', r)" "sm_fine c w sm1 (sm', r)"
        using Cons.IH[OF _ i1(1)] Cons.prems(1) by auto
      then have "sm_fine c w sm (sm', r)" using sm_evo_trans0[OF i1(2)] by (auto simp: sm_fine_def)
      then show ?thesis using True fb ne r1 sm'(1) by (subst recv_payload.simps) simp
    next
      case False
      then show ?thesis using fb ne r1 by (subst recv_payload.simps) (cases r1; simp add: sm_fineI)
    qed
  qed
  then show ?thesis by (simp add: fs(1))
qed

section \<open>The invariant of the system\<close>

text \<open>
  The ghost streams \<open>w p sid\<close> are fixed for a whole run; that they extend what the applications
  have written so far is the hypothesis under which a step keeps the invariant.
\<close>

definition from_start :: "(nat \<Rightarrow> byte) \<Rightarrow> bytes \<Rightarrow> bool" where
  "from_start f bs \<longleftrightarrow> bs = map f [0..<length bs]"

lemma from_start_nth: "from_start f bs \<longleftrightarrow> (\<forall>i < length bs. bs ! i = f i)"
  unfolding from_start_def by (subst list_eq_iff_nth_eq) simp

lemma from_start_append: "from_start f (xs @ ys) \<Longrightarrow> from_start f xs"
  unfolding from_start_nth by (metis nth_append length_append trans_less_add1)

definition agrees :: "(bool \<Rightarrow> nat \<Rightarrow> nat \<Rightarrow> byte) \<Rightarrow> 'c net \<Rightarrow> bool" where
  "agrees w net \<longleftrightarrow> (\<forall>p sid. from_start (w p sid) (writes_of sid (n_events net p)))"

definition ep_ok ::
    "(bool \<Rightarrow> nat \<Rightarrow> nat \<Rightarrow> byte) \<Rightarrow> config \<Rightarrow> 'c net \<Rightarrow> bool \<Rightarrow> (byte, 'c) stream_map \<Rightarrow> bool" where
  "ep_ok w cfg net p sm \<longleftrightarrow> sm_inv (w (\<not> p)) (w p) 0 0 {} sm \<and>
     sm_evo (w (\<not> p)) (the (n_ep (net_init cfg) p)) (n_events net p) sm \<and>
     (\<forall>f \<in> set (n_flight net p). frame_sent sm f)"

definition net_inv :: "(bool \<Rightarrow> nat \<Rightarrow> nat \<Rightarrow> byte) \<Rightarrow> config \<Rightarrow> 'c net \<Rightarrow> bool" where
  "net_inv w cfg net \<longleftrightarrow> (\<forall>p.
     (\<forall>sm. n_ep net p = Some sm \<longrightarrow> ep_ok w cfg net p sm) \<and>
     (\<forall>payload \<in> set (n_wire net p). good_payload (w p) payload) \<and>
     (\<forall>sid. from_start (w (\<not> p) sid) (reads_of sid (n_events net p))))"

lemma net_init_inv:
  assumes "config_ok cfg"
  shows "net_inv w cfg (net_init cfg)" "agrees w (net_init cfg)"
proof -
  have "local_params_ok (fst (cfg p)) (fst (snd (cfg p))) (snd (snd (cfg p)))" for p
    using assms by (auto simp: config_ok_def split: prod.splits)
  note i = sm_inv_new(1)[OF this]
  show "net_inv w cfg (net_init cfg)"
    using i by (auto simp: net_inv_def ep_ok_def net_init_def sm_evo_refl split_beta from_start_def)
  show "agrees w (net_init cfg)" by (simp add: agrees_def net_init_def from_start_def)
qed

text \<open>An endpoint that takes a step described by \<open>sm_evo\<close>.\<close>

lemma ep_reads:
  assumes "sm_evo (w (\<not> p)) (the (n_ep (net_init cfg) p)) evs sm"
  shows "from_start (w (\<not> p) sid) (reads_of sid evs)"
    "sm_open sm sid \<Longrightarrow> sm_wo sm sid = length (writes_of sid evs)"
proof -
  have z: "sm_ro (the (n_ep (net_init cfg) p)) sid = 0" "sm_wo (the (n_ep (net_init cfg) p)) sid = 0"
    by (simp_all add: net_init_def split_beta sm_ro_def sm_wo_def sm_new_def sm_get_def bm_get_def)
  have "rd_emits (w (\<not> p)) (the (n_ep (net_init cfg) p)) (reads_of sid evs) sm sid"
    "wr_emits (the (n_ep (net_init cfg) p)) (length (writes_of sid evs)) sm sid"
    using assms by (auto simp: sm_evo_def)
  then show "from_start (w (\<not> p) sid) (reads_of sid evs)"
    "sm_open sm sid \<Longrightarrow> sm_wo sm sid = length (writes_of sid evs)" by (auto simp: rd_emits_def wr_emits_def z from_start_def)
qed

lemma frames_sent_evo:
  "\<forall>f \<in> set fs. frame_sent sm f \<Longrightarrow> sm_evo c sm out sm' \<Longrightarrow> \<forall>f \<in> set fs. frame_sent sm' f"
  using frame_sent_evo by blast

lemma ep_ok_step:
  assumes "ep_ok w cfg net p sm" "sm_inv (w (\<not> p)) (w p) 0 0 {} sm'" "sm_evo (w (\<not> p)) sm out sm'"
    and "n_events net' p = n_events net p @ out" "n_flight net' p = n_flight net p @ fs" "\<forall>f \<in> set fs. frame_sent sm' f"
  shows "ep_ok w cfg net' p sm'"
proof -
  have "\<forall>f \<in> set (n_flight net p). frame_sent sm' f"
    using assms(1) frames_sent_evo[OF _ assms(3)] by (auto simp: ep_ok_def)
  then show ?thesis using assms sm_evo_trans[OF _ assms(3)] by (auto simp: ep_ok_def)
qed

text \<open>
  A step of one endpoint: it ends, or evolves with its application's events; it may add
  payloads and frames. The other endpoint and the network are untouched.
\<close>

definition net_good :: "(bool \<Rightarrow> nat \<Rightarrow> nat \<Rightarrow> byte) \<Rightarrow> config \<Rightarrow> 'c net \<Rightarrow> 'c net \<Rightarrow> bool" where
  "net_good w cfg net net' \<longleftrightarrow> net_inv w cfg net' \<and>
     (\<forall>q sm'. n_ep net' q = Some sm' \<longrightarrow> (\<exists>sm out. n_ep net q = Some sm \<and> sm_evo (w (\<not> q)) sm out sm'))"

lemma net_good_refl: "net_inv w cfg net \<Longrightarrow> net_good w cfg net net"
  using sm_evo_refl by (fastforce simp: net_good_def)

lemma net_inv_step:
  assumes inv: "net_inv w cfg net" and sm: "n_ep net p = Some sm"
    and net': "net' = net\<lparr>n_ep := (n_ep net)(p := ep), n_wire := (n_wire net)(p := n_wire net p @ outs),
       n_flight := (n_flight net)(p := n_flight net p @ fs), n_events := (n_events net)(p := n_events net p @ evs)\<rparr>"
    and ep: "\<And>sm'. ep = Some sm' \<Longrightarrow> sm_inv (w (\<not> p)) (w p) 0 0 {} sm' \<and> sm_evo (w (\<not> p)) sm evs sm' \<and>
       (\<forall>f \<in> set fs. frame_sent sm' f)"
    and outs: "\<forall>payload \<in> set outs. good_payload (w p) payload"
    and dead: "ep = None \<Longrightarrow> \<forall>sid. reads_of sid evs = []"
  shows "net_good w cfg net net'"
proof -
  have ok: "ep_ok w cfg net p sm" using inv sm by (simp add: net_inv_def)
  have "ep_ok w cfg net' q sm'" if "n_ep net' q = Some sm'" for q sm'
  proof (cases "q = p")
    case True
    then have e: "ep = Some sm'" using that net' by simp
    show ?thesis unfolding True
      by (rule ep_ok_step[OF ok]) (use ep[OF e] net' in auto)
  next
    case False
    then have "ep_ok w cfg net q sm'" using that inv net' by (simp add: net_inv_def)
    then show ?thesis using False net' by (simp add: ep_ok_def)
  qed
  moreover have "from_start (w (\<not> q) sid) (reads_of sid (n_events net' q))" for q sid
  proof (cases "q = p")
    case True
    show ?thesis
    proof (cases ep)
      case None
      then have "reads_of sid (n_events net' q) = reads_of sid (n_events net p)" using dead True net' by simp
      then show ?thesis using inv True by (simp add: net_inv_def)
    next
      case (Some sm')
      then have "ep_ok w cfg net' p sm'" using calculation net' by simp
      then show ?thesis using ep_reads(1)[of w p cfg "n_events net' p" sm' sid] True by (simp add: ep_ok_def)
    qed
  next
    case False
    have "from_start (w (\<not> q) sid) (reads_of sid (n_events net q))" using inv unfolding net_inv_def by blast
    then show ?thesis using False net' by simp
  qed
  moreover have "\<forall>payload \<in> set (n_wire net' q). good_payload (w q) payload" for q
    using inv outs net' by (auto simp: net_inv_def)
  ultimately have "net_inv w cfg net'" unfolding net_inv_def by blast
  moreover have "\<exists>sm out. n_ep net q = Some sm \<and> sm_evo (w (\<not> q)) sm out sm'" if "n_ep net' q = Some sm'" for q sm'
    using that ep sm net' by (cases "q = p") (auto intro: sm_evo_refl)
  ultimately show ?thesis unfolding net_good_def by blast
qed

subsection \<open>Every step\<close>

lemma alive_good:
  assumes "sm_good c w sm p" "alive p = Some sm'"
  shows "sm_inv c w 0 0 {} sm' \<and> sm_evo c sm [] sm'"
  using assms by (auto simp: alive_def sm_good_def split: res.splits)

lemma agrees_write:
  assumes ag: "agrees w net'" and ev: "n_events net' p = n_events net p @ [AppWrote sid bs]"
  shows "bs = map (w p sid) [length (writes_of sid (n_events net p))..<length (writes_of sid (n_events net p)) + length bs]"
proof -
  let ?old = "writes_of sid (n_events net p)"
  have "from_start (w p sid) (writes_of sid (n_events net' p))" using ag by (simp add: agrees_def)
  then have all: "i < length (?old @ bs) \<Longrightarrow> (?old @ bs) ! i = w p sid i" for i
    by (simp add: from_start_nth ev del: nth_append_length_plus)
  show ?thesis
  proof (rule nth_equalityI)
    show "bs ! i = map (w p sid) [length ?old..<length ?old + length bs] ! i" if "i < length bs" for i
      using all[of "length ?old + i"] that by simp
  qed simp
qed

lemma app_step_ok:
  assumes ok: "ep_ok w cfg net p sm" and st: "app_step a sm = (Some sm', evs)"
    and ag: "agrees w net'" "n_events net' p = n_events net p @ evs"
  shows "sm_inv (w (\<not> p)) (w p) 0 0 {} sm' \<and> sm_evo (w (\<not> p)) sm evs sm'"
proof -
  have inv: "sm_inv (w (\<not> p)) (w p) 0 0 {} sm" using ok by (simp add: ep_ok_def)
  show ?thesis
  proof (cases a)
    case (WriteStream sid buf fin)
    obtain r where r: "sm_stream_write sm sid buf fin = (sm', r)" "r \<noteq> Panic"
      "evs = [AppWrote sid (case r of Ok n \<Rightarrow> take n buf | _ \<Rightarrow> [])]"
      using st WriteStream by (cases "sm_stream_write sm sid buf fin") (auto simp: app_step_def alive_def Let_def split: res.splits)
    show ?thesis unfolding r(3)
    proof (rule sm_stream_write_ok[OF inv r(1,2)])
      fix n assume n: "r = Ok n"
      let ?k = "length (writes_of sid (n_events net p))"
      have t: "take n buf = map (w p sid) [?k..<?k + length (take n buf)]"
        by (rule agrees_write[OF ag(1)]) (use ag(2) r(3) n in simp)
      have len: "length (take n buf) = n" and "0 < n \<Longrightarrow> sm_open sm sid"
        using sm_stream_write_taken[OF inv r(1)[unfolded n]] by simp_all
      moreover have "sm_open sm sid \<Longrightarrow> sm_wo sm sid = ?k"
        using ok ep_reads(2)[of w p cfg "n_events net p" sm sid] by (simp add: ep_ok_def)
      ultimately show "take n buf = map (w p sid) [sm_wo sm sid..<sm_wo sm sid + n]"
        using t[unfolded len] by (cases "n = 0") simp_all
    qed
  next
    case (ReadStream sid cap)
    obtain r where r: "sm_stream_read sm sid cap = (sm', r)" "r \<noteq> Panic"
      "evs = [AppRead sid (case r of Ok (bs, fin) \<Rightarrow> bs | _ \<Rightarrow> [])]"
      using st ReadStream by (cases "sm_stream_read sm sid cap") (auto simp: app_step_def alive_def Let_def split: res.splits)
    show ?thesis unfolding r(3) by (rule sm_stream_read_ok[OF inv r(1,2)])
  next
    case (OpenStream b u i)
    then show ?thesis using st alive_good[OF sm_stream_new_ok(1)[OF inv]] alive_good[OF sm_stream_new_ok(2)[OF inv]]
      by (auto simp: app_step_def split: if_splits)
  qed (use st alive_good[OF sm_stream_shutdown_ok[OF inv]] alive_good[OF sm_stream_set_priority_ok[OF inv]]
      alive_good[OF sm_stream_set_context_ok[OF inv]] alive_good[OF sm_want_good(1)[OF inv]]
      alive_good[OF sm_want_good(2)[OF inv]] alive_good[OF sm_stream_writable_ok[OF inv]] in \<open>auto simp: app_step_def\<close>)
qed


lemma send_stream_frames_ok:
  assumes s: "sender_ok c w cap s" and cap: "cap \<le> 2 ^ 14"
  shows "\<exists>s' r. send_stream_frames cx order cap s = Some (s', r) \<and> sender_good c w cap s (s', r)"
proof -
  obtain s1 r1 where c1: "try_write_stream_control_frames cx order cap s = (s1, r1)" by fastforce
  have g: "sender_good c w cap s (s1, r1)" using control_frames_good[OF s, of cx order] c1 by simp
  show ?thesis
  proof (cases r1)
    case (Ok u)
    then have e: "sender_evo c w cap s s1" "sender_ok c w cap s1" using g by (simp_all add: sender_good_def sender_evo_def)
    obtain s' r where s': "try_write_stream_frames cx cap s1 = Some (s', r)" "sender_good c w cap s1 (s', r)"
      using try_write_stream_frames_ok[OF e(2) cap, of cx] by (auto simp: sender_good_def)
    then have "sender_good c w cap s (s', r)" using sender_evo_trans[OF e(1)] by (simp add: sender_good_def)
    then show ?thesis using s' Ok c1 by (cases r; cases s') (auto simp: send_stream_frames_def sender_good_def)
  qed (use g c1 in \<open>simp_all add: send_stream_frames_def\<close>)
qed

lemma send_step_ok:
  assumes inv: "sm_inv c w 0 0 {} sm" and cap: "cap \<le> 2 ^ 14" and st: "send_step cx order cap sm = (ep, outs, fs)"
  shows "\<forall>payload \<in> set outs. good_payload w payload"
    "ep = Some sm' \<Longrightarrow> sm_inv c w 0 0 {} sm' \<and> sm_evo c sm [] sm' \<and> (\<forall>f \<in> set fs. frame_sent sm' f)"
proof -
  let ?s = "(sm, ([], fw_default)) :: 'a sender"
  have "sender_ok c w cap ?s" using inv by (simp add: sender_ok_def pk_fits_def fw_default_def)
  then obtain sm1 out stat r where r: "send_stream_frames cx order cap ?s = Some ((sm1, (out, stat)), r)"
    and g: "sender_good c w cap ?s ((sm1, (out, stat)), r)"
    using send_stream_frames_ok[OF _ cap] by (metis surj_pair)
  show "\<forall>payload \<in> set outs. good_payload w payload"
  proof (cases "r = Panic")
    case False
    have sent: "f \<noteq> Paddings n" if "frame_sent sm1 f" for f n using that by (auto simp: frame_sent_def)
    have "good_payload w out"
      using g False sent unfolding sender_good_def sender_evo_def pk_ext_def good_payload_def by fastforce
    then show ?thesis using st r False by (auto simp: send_step_def split: res.splits if_splits)
  qed (use st r in \<open>simp add: send_step_def\<close>)
  show "sm_inv c w 0 0 {} sm' \<and> sm_evo c sm [] sm' \<and> (\<forall>f \<in> set fs. frame_sent sm' f)" if "ep = Some sm'"
  proof (cases "r = Panic")
    case False
    then have "sm_inv c w 0 0 {} sm1 \<and> sm_evo c sm [] sm1 \<and> (\<forall>f \<in> set (fw_frames stat). frame_sent sm1 f)"
      using g by (auto simp: sender_good_def sender_evo_def sender_ok_def pk_ext_def fw_default_def)
    then show ?thesis using st r False that by (auto simp: send_step_def split: res.splits if_splits)
  qed (use st r that in \<open>simp add: send_step_def\<close>)
qed

lemma acked_lost_good:
  assumes inv: "sm_inv c w 0 0 {} sm" and f: "frame_sent sm f"
  shows "sm_good c w sm (process_acked_frame f sm)" "sm_good c w sm (process_lost_frame f sm)"
  using f sm_on_stream_frame_acked_ok[OF inv] sm_on_reset_stream_frame_acked_ok[OF inv]
    sm_on_stream_frame_lost_ok[OF inv] sm_lost_marks_ok[OF inv] sm_cc_marks_ok[OF inv]
  by (cases f; simp add: process_acked_frame_def process_lost_frame_def frame_sent_def sm_goodI inv sm_evo_refl
      sm_on_max_streams_frame_lost_def)+


text \<open>A step that neither writes packets nor touches the application.\<close>

lemma net_inv_quiet:
  assumes "net_inv w cfg net" "n_ep net p = Some sm"
    and "\<And>sm'. ep = Some sm' \<Longrightarrow> sm_inv (w (\<not> p)) (w p) 0 0 {} sm' \<and> sm_evo (w (\<not> p)) sm [] sm'"
  shows "net_good w cfg net (net\<lparr>n_ep := (n_ep net)(p := ep)\<rparr>)"
  by (rule net_inv_step[OF assms(1,2), where outs = "[]" and fs = "[]" and evs = "[]"]) (use assms(3) in auto)

lemma app_step_dead: "app_step a sm = (None, evs) \<Longrightarrow> reads_of sid evs = []"
  by (cases a) (auto simp: app_step_def alive_def Let_def reads_of_def split: res.splits)

lemma net_inv_ep: "net_inv w cfg net \<Longrightarrow> n_ep net p = Some sm \<Longrightarrow> ep_ok w cfg net p sm"
  by (simp add: net_inv_def)

lemma net_step_App:
  assumes inv: "net_inv w cfg net" and sm: "n_ep net p = Some sm" and ag: "agrees w (net_step (App p a) net)"
  shows "net_good w cfg net (net_step (App p a) net)"
proof -
  obtain ep evs where st: "app_step a sm = (ep, evs)" by fastforce
  have eq: "net_step (App p a) net = net\<lparr>n_ep := (n_ep net)(p := ep), n_events := (n_events net)(p := n_events net p @ evs)\<rparr>"
    by (simp add: net_step_def sm st)
  note ok = app_step_ok[OF net_inv_ep[OF inv sm] _ ag, of a _ evs]
  show ?thesis
    by (rule net_inv_step[OF inv sm, where ep = ep and outs = "[]" and fs = "[]" and evs = evs])
      (use ok st app_step_dead[of a sm evs] in \<open>auto simp: eq\<close>)
qed

lemma net_step_Send:
  assumes inv: "net_inv w cfg net" and sm: "n_ep net p = Some sm" and cap: "cap \<le> 2 ^ 14"
  shows "net_good w cfg net (net_step (Send p cx order cap) net)"
proof -
  obtain ep outs fs where st: "send_step cx order cap sm = (ep, outs, fs)" by (metis surj_pair)
  have "sm_inv (w (\<not> p)) (w p) 0 0 {} sm" using net_inv_ep[OF inv sm] by (simp add: ep_ok_def)
  note ok = send_step_ok[OF this cap st]
  show ?thesis
    by (rule net_inv_step[OF inv sm, where ep = ep and outs = outs and fs = fs and evs = "[]"])
      (use ok in \<open>auto simp: net_step_def sm st\<close>)
qed

lemma net_step_Deliver:
  assumes inv: "net_inv w cfg net" and sm: "n_ep net p = Some sm"
  shows "net_good w cfg net (net_step (Deliver p other pkt i) net)"
proof (cases "nth_opt (n_wire net (\<not> p)) i")
  case None
  then show ?thesis using net_good_refl[OF inv] by (simp add: net_step_def)
next
  case (Some payload)
  then have "good_payload (w (\<not> p)) payload" using inv by (auto simp: net_inv_def nth_opt_def split: if_splits)
  moreover have "sm_inv (w (\<not> p)) (w p) 0 0 {} sm" using net_inv_ep[OF inv sm] by (simp add: ep_ok_def)
  ultimately obtain sm' r where r: "recv_payload other pkt payload sm = Some (sm', r)" "sm_fine (w (\<not> p)) (w p) sm (sm', r)"
    using recv_payload_ok by blast
  have "net_step (Deliver p other pkt i) net = net\<lparr>n_ep := (n_ep net)(p := accepted (sm', r))\<rparr>"
    using Some sm r(1) by (simp add: net_step_def)
  then show ?thesis using net_inv_quiet[OF inv sm, of "accepted (sm', r)"] r(2)
    by (auto simp: accepted_def sm_fine_def split: res.splits)
qed

lemma net_step_feedback:
  assumes inv: "net_inv w cfg net" and sm: "n_ep net p = Some sm"
  shows "net_good w cfg net (net_step (Acked p i) net)" "net_good w cfg net (net_step (Lost p i) net)"
    "peer_params_ok tp \<Longrightarrow> net_good w cfg net (net_step (PeerParams p tp) net)"
proof -
  have s: "sm_inv (w (\<not> p)) (w p) 0 0 {} sm" "\<And>f. f \<in> set (n_flight net p) \<Longrightarrow> frame_sent sm f"
    using net_inv_ep[OF inv sm] by (simp_all add: ep_ok_def)
  note alive = net_inv_quiet[OF inv sm] alive_good
  show "peer_params_ok tp \<Longrightarrow> net_good w cfg net (net_step (PeerParams p tp) net)"
    using alive(1)[OF alive(2)[OF sm_update_peer_params_ok[OF s(1)]]] by (simp add: net_step_def sm)
  have "frame_sent sm f" if "nth_opt (n_flight net p) i = Some f" for f
    using that s(2)[of f] by (auto simp: nth_opt_def split: if_splits)
  note fb = acked_lost_good[OF s(1) this]
  show "net_good w cfg net (net_step (Acked p i) net)" "net_good w cfg net (net_step (Lost p i) net)"
    using net_good_refl[OF inv] alive(1)[OF alive(2)[OF fb(1)]] alive(1)[OF alive(2)[OF fb(2)]]
    by (auto simp: net_step_def sm split: option.split)
qed

fun net_op_at :: "'c net_op \<Rightarrow> bool" where
  "net_op_at (App p a) = p"
| "net_op_at (Send p cx order cap) = p"
| "net_op_at (Deliver p other pkt i) = p"
| "net_op_at (Acked p i) = p"
| "net_op_at (Lost p i) = p"
| "net_op_at (PeerParams p tp) = p"

lemma net_step_dead: "n_ep net (net_op_at oper) = None \<Longrightarrow> net_step oper net = net"
  by (cases oper) (simp_all add: net_step_def split: option.split)

lemma net_step_inv:
  assumes inv: "net_inv w cfg net" and legal: "net_legal oper" and ag: "agrees w (net_step oper net)"
  shows "net_good w cfg net (net_step oper net)"
proof (cases "n_ep net (net_op_at oper)")
  case None
  then show ?thesis using net_good_refl[OF inv] net_step_dead by metis
next
  case (Some sm)
  then show ?thesis
    using inv legal ag by (cases oper) (simp_all add: net_step_App net_step_Send net_step_Deliver net_step_feedback)
qed

lemma net_step_events: "\<exists>evs. n_events (net_step oper net) p = n_events net p @ evs"
  by (cases oper) (auto simp: net_step_def Let_def split: option.split prod.split)

lemma agrees_back: "agrees w (net_step oper net) \<Longrightarrow> agrees w net"
proof -
  assume ag: "agrees w (net_step oper net)"
  have "from_start (w p sid) (writes_of sid (n_events net p))" for p sid
  proof -
    obtain evs where "n_events (net_step oper net) p = n_events net p @ evs" using net_step_events by blast
    moreover have "from_start (w p sid) (writes_of sid (n_events (net_step oper net) p))" using ag by (simp add: agrees_def)
    ultimately show ?thesis using from_start_append by (metis writes_of_simps(2))
  qed
  then show ?thesis by (simp add: agrees_def)
qed

lemma net_run_inv:
  assumes "config_ok cfg" "\<forall>oper \<in> set ops. net_legal oper" "agrees w (net_run cfg ops)"
  shows "net_inv w cfg (net_run cfg ops)"
  using assms(2,3)
proof (induction ops rule: rev_induct)
  case Nil
  then show ?case using net_init_inv[OF assms(1)] by (simp add: net_run_def)
next
  case (snoc oper ops)
  have eq: "net_run cfg (ops @ [oper]) = net_step oper (net_run cfg ops)" by (simp add: net_run_def)
  then have "net_inv w cfg (net_run cfg ops)" using snoc agrees_back by auto
  then show ?case using snoc.prems eq net_step_inv[of w cfg "net_run cfg ops" oper] by (simp add: net_good_def)
qed

text \<open>
  The ghost stream is what the application wrote, continued by a byte of our choice; as the byte is
  arbitrary, nothing beyond what was written can have been read.
\<close>

definition written_stream :: "byte \<Rightarrow> 'c net \<Rightarrow> bool \<Rightarrow> nat \<Rightarrow> nat \<Rightarrow> byte" where
  "written_stream x net p sid i = (let bs = writes_of sid (n_events net p) in if i < length bs then bs ! i else x)"

lemma written_stream_agrees: "agrees (written_stream x net) net"
  by (simp add: agrees_def from_start_nth written_stream_def)

lemmas net_run_written = net_run_inv [OF _ _ written_stream_agrees]

lemma net_run_append: "net_run cfg (ops @ ops') = fold net_step ops' (net_run cfg ops)"
  by (simp add: net_run_def)

lemma net_run_evo:
  assumes "config_ok cfg" "\<forall>oper \<in> set (ops @ ops'). net_legal oper" "agrees w (net_run cfg (ops @ ops'))"
    and "n_ep (net_run cfg (ops @ ops')) p = Some sm'"
  shows "\<exists>sm out. n_ep (net_run cfg ops) p = Some sm \<and> sm_evo (w (\<not> p)) sm out sm'"
  using assms(2-4)
proof (induction ops' arbitrary: sm' rule: rev_induct)
  case Nil
  then show ?case using sm_evo_refl by auto
next
  case (snoc oper ops')
  let ?net = "net_run cfg (ops @ ops')"
  have eq: "net_run cfg (ops @ ops' @ [oper]) = net_step oper ?net" by (simp add: net_run_append)
  have ag: "agrees w ?net" using snoc.prems(2) eq agrees_back by metis
  have legal: "\<forall>oper \<in> set (ops @ ops'). net_legal oper" "net_legal oper" using snoc.prems(1) by auto
  have "net_good w cfg ?net (net_step oper ?net)"
    using net_step_inv[OF net_run_inv[OF assms(1) legal(1) ag] legal(2)] snoc.prems(2) eq by simp
  then obtain sm1 out1 where "n_ep ?net p = Some sm1" "sm_evo (w (\<not> p)) sm1 out1 sm'"
    using snoc.prems(3) eq by (fastforce simp: net_good_def)
  then show ?case using snoc.IH[OF legal(1) ag] sm_evo_trans by blast
qed


section \<open>Properties\<close>

text \<open>
  C1: End to end, on every stream, what the application of one endpoint reads is a prefix of what
  the application of the other endpoint wrote. This holds for any two endpoints with sane
  windows, in any interleaving of application calls, packets sent, and packets delivered in any
  order, any number of times or never, with frames declared acknowledged or lost whether or not
  they were.
\<close>

theorem streams_delivered_exactly:
  assumes "config_ok cfg" "\<forall>oper \<in> set ops. net_legal oper"
  shows "prefix (reads_of sid (n_events (net_run cfg ops) (\<not> p))) (writes_of sid (n_events (net_run cfg ops) p))"
proof -
  let ?net = "net_run cfg ops"
  let ?R = "reads_of sid (n_events ?net (\<not> p))" and ?W = "writes_of sid (n_events ?net p)"
  have "from_start (written_stream x ?net p sid) ?R" for x
    using net_run_written[OF assms, of x] by (auto simp: net_inv_def dest!: spec[of _ "\<not> p"])
  then have R: "i < length ?R \<Longrightarrow> ?R ! i = written_stream x ?net p sid i" for x i by (simp add: from_start_nth)
  have len: "length ?R \<le> length ?W"
  proof (rule ccontr)
    assume "\<not> length ?R \<le> length ?W"
    then show False using R[of "length ?W" 0] R[of "length ?W" 1] by (simp add: written_stream_def)
  qed
  then have "?R = take (length ?R) ?W" using R[of _ 0] by (intro nth_equalityI) (simp_all add: written_stream_def)
  then show ?thesis by (metis take_is_prefix)
qed

text \<open>
  A run: the client writes three bytes, the packet is lost, the loss is detected, the bytes are
  sent again, that packet arrives twice, and the server reads them.
\<close>

definition demo_params :: stream_transport_params where
  "demo_params =
     \<lparr>stp_initial_max_data = 100, stp_initial_max_stream_data_bidi_local = 50,
      stp_initial_max_stream_data_bidi_remote = 50, stp_initial_max_stream_data_uni = 50,
      stp_initial_max_streams_bidi = 3, stp_initial_max_streams_uni = 3\<rparr>"

definition demo_config :: config where
  "demo_config p = (1000, 100, demo_params)"

definition demo_ctx :: send_ctx where
  "demo_ctx =
     \<lparr>cx_pkt_type = OneRTT, cx_closing = False, cx_path_active = Some True, cx_srtt = 0, cx_now = 0,
      cx_multipath = False, cx_algorithm = MinRtt\<rparr>"

definition demo_ops :: "unit net_op list" where
  "demo_ops =
     [PeerParams False demo_params, PeerParams True demo_params, App False (WriteStream 0 [1, 2, 3] False),
      Send False demo_ctx sorted_list_of_set 100, Lost False 0, Send False demo_ctx sorted_list_of_set 100,
      Deliver True (\<lambda>_. Ok ()) OneRTT 1, Deliver True (\<lambda>_. Ok ()) OneRTT 1, App True (ReadStream 0 10)]"

lemma demo_ok: "config_ok demo_config" "\<forall>oper \<in> set demo_ops. net_legal oper"
  by (simp_all add: config_ok_def demo_config_def local_params_ok_def stp_ok_def peer_params_ok_def demo_params_def
      demo_ops_def VINT_MAX_def u64_max_def)

definition demo_outcome :: "unit net \<Rightarrow> bool" where
  "demo_outcome net \<longleftrightarrow> n_ep net True \<noteq> None \<and> reads_of 0 (n_events net True) = [1, 2, 3]"

lemma demo_run: "demo_outcome (net_run demo_config demo_ops)"
  by code_simp

lemma demo_read: "reads_of 0 (n_events (net_run demo_config demo_ops) True) = [1, 2, 3]"
  and demo_alive: "n_ep (net_run demo_config demo_ops) True \<noteq> None"
  using demo_run by (simp_all add: demo_outcome_def)

theorem streams_delivered_exactly_witness:
  "reads_of 0 (n_events (net_run demo_config demo_ops) True) = [1, 2, 3] \<and>
   prefix [1, 2, 3] (writes_of 0 (n_events (net_run demo_config demo_ops) False))"
  using streams_delivered_exactly[OF demo_ok, of 0 False] demo_read by simp

text \<open>
  C2: In every state an endpoint can reach, the bytes written on all its streams are within the
  credit the peer granted for the connection and for each stream, the bytes received are within
  the credit it advertised, its streams are within the numbers permitted, and every stream with
  data to send is queued for sending.
\<close>

theorem streams_within_limits:
  assumes "config_ok cfg" "\<forall>oper \<in> set ops. net_legal oper" "n_ep (net_run cfg ops) p = Some sm"
  shows "sm_written sm \<le> sc_tx_data (sm_send_capacity sm) \<and>
    sc_tx_data (sm_send_capacity sm) \<le> sc_max_data (sm_send_capacity sm) \<and>
    sm_received sm \<le> fc_recv_off (sm_flow_control sm) \<and>
    fc_recv_off (sm_flow_control sm) \<le> fc_max_data (sm_flow_control sm) \<and>
    (\<forall>sid st. sm_get sm sid = Some st \<longrightarrow>
      sb_write_off (st_send st) \<le> sb_max_data (st_send st) \<and>
      rv_recv_off (st_recv st) \<le> rv_max_data (st_recv st) \<and>
      \<not> cc_is_limited (sm_concurrency_control sm) sid (sm_is_server sm) \<and>
      (st_is_sendable st \<longrightarrow> sm_queued sm sid))"
proof -
  let ?w = "written_stream 0 (net_run cfg ops)"
  have inv: "sm_inv (?w (\<not> p)) (?w p) 0 0 {} sm"
    using net_inv_ep[OF net_run_written[OF assms(1,2)] assms(3)] by (simp add: ep_ok_def)
  have cc: "cc_inv (sm_concurrency_control sm)" using inv by (simp add: sm_inv_def sm_core_def)
  have "sb_write_off (st_send st) \<le> sb_max_data (st_send st) \<and> rv_recv_off (st_recv st) \<le> rv_max_data (st_recv st) \<and>
      \<not> cc_is_limited (sm_concurrency_control sm) sid (sm_is_server sm) \<and> (st_is_sendable st \<longrightarrow> sm_queued sm sid)"
    if "sm_get sm sid = Some st" for sid st
    using sm_inv_stream(1,5,6)[OF inv that] inv that cc_created_iff[OF cc]
    by (auto simp: sb_inv_def rv_inv_def sm_created_def sm_inv_def sm_queues_ok_def)
  then show ?thesis using inv by (simp add: sm_inv_def sm_tx_ok_def sm_rx_ok_def Let_def)
qed

theorem streams_within_limits_witness:
  "\<exists>sm. n_ep (net_run demo_config demo_ops) True = Some sm \<and>
    fc_recv_off (sm_flow_control sm) \<le> fc_max_data (sm_flow_control sm)"
  using streams_within_limits[OF demo_ok, of True] demo_alive by auto

text \<open>
  C4: A stream that was destroyed never comes back: whatever the peer sends, the application
  calls, or the network replays afterwards, the endpoint still counts it as created and holds no
  state for it.
\<close>

theorem destroyed_stream_stays_destroyed:
  assumes "config_ok cfg" "\<forall>oper \<in> set (ops @ ops'). net_legal oper"
    and "n_ep (net_run cfg ops) p = Some sm" "sm_destroyed sm sid" "n_ep (net_run cfg (ops @ ops')) p = Some sm'"
  shows "sm_created sm' sid \<and> sm_get sm' sid = None"
proof -
  obtain out where "sm_evo (written_stream 0 (net_run cfg (ops @ ops')) (\<not> p)) sm out sm'"
    using net_run_evo[OF assms(1,2) written_stream_agrees assms(5)] assms(3) by auto
  then show ?thesis using assms(4) by (auto simp: sm_evo_def sm_destroyed_def)
qed

definition close_ops :: "unit net_op list" where
  "close_ops =
     [PeerParams False demo_params, PeerParams True demo_params, App False (WriteStream 2 [7] True),
      Send False demo_ctx sorted_list_of_set 100, Deliver True (\<lambda>_. Ok ()) OneRTT 0, App True (ReadStream 2 10)]"

definition replay_ops :: "unit net_op list" where
  "replay_ops = [Deliver True (\<lambda>_. Ok ()) OneRTT 0]"

definition replay_outcome :: "unit net \<Rightarrow> bool" where
  "replay_outcome net \<longleftrightarrow>
     (case n_ep net True of
        None \<Rightarrow> False
      | Some sm \<Rightarrow> sm_destroyed sm 2 \<and> n_ep (fold net_step replay_ops net) True \<noteq> None)"

lemma replay_run: "replay_outcome (net_run demo_config close_ops)"
  by code_simp

lemma close_destroys: "\<exists>sm. n_ep (net_run demo_config close_ops) True = Some sm \<and> sm_destroyed sm 2"
  and replay_alive: "n_ep (net_run demo_config (close_ops @ replay_ops)) True \<noteq> None"
  using replay_run by (auto simp: replay_outcome_def net_run_append split: option.splits)

theorem destroyed_stream_stays_destroyed_witness:
  "\<exists>sm'. n_ep (net_run demo_config (close_ops @ replay_ops)) True = Some sm' \<and> sm_get sm' 2 = None"
proof -
  obtain sm where sm: "n_ep (net_run demo_config close_ops) True = Some sm" "sm_destroyed sm 2"
    using close_destroys by blast
  obtain sm' where sm': "n_ep (net_run demo_config (close_ops @ replay_ops)) True = Some sm'" using replay_alive by auto
  have "\<forall>oper \<in> set (close_ops @ replay_ops). net_legal oper"
    using demo_ok(2) by (simp add: close_ops_def replay_ops_def demo_ops_def)
  then show ?thesis using destroyed_stream_stays_destroyed[OF demo_ok(1) _ sm sm'] sm' by blast
qed


text \<open>
  C3: Filling a packet ends: from a well-formed stream manager, \<open>try_write_stream_frames\<close> on an
  active path appends the encodings of whole STREAM frames that carry the bytes the application
  wrote at their offsets, stays within the packet, keeps the manager well-formed, and stops only
  when the packet is full or no stream has data left to send.
\<close>

theorem packet_filled:
  assumes inv: "sm_inv c w 0 0 {} sm" and cap: "cap \<le> 2 ^ 14" "length out \<le> cap" "fw_written st = length out"
    and cx: "cx_pkt_type cx \<in> {OneRTT, ZeroRTT}" "\<not> cx_closing cx" "cx_path_active cx = Some True"
  shows "\<exists>sm' st' fs. let out' = out @ concat (map (\<lambda>f. frame_bytes (wire_frame w f)) fs) in
    try_write_stream_frames cx cap (sm, (out, st)) = Some ((sm', (out', st')), Ok ()) \<and>
    fw_frames st' = fw_frames st @ fs \<and> fw_written st' = length out' \<and> length out' \<le> cap \<and>
    sm_inv c w 0 0 {} sm' \<and> (\<forall>f \<in> set fs. frame_sent sm' f) \<and>
    (cap - length out' \<le> MAX_STREAM_OVERHEAD \<or> sm_sendable sm' = [])"
proof -
  let ?retain = "cx_multipath cx \<and> buffer_required (cx_algorithm cx)"
  let ?done = "\<lambda>s'. try_write_stream_frames cx cap (sm, (out, st)) = Some (s', Ok ()) \<and>
    sender_evo c w cap (sm, (out, st)) s' \<and> (cap - length (fst (snd s')) \<le> MAX_STREAM_OVERHEAD \<or> sm_sendable (fst s') = [])"
  have s: "sender_ok c w cap (sm, (out, st))" using inv cap by (simp add: sender_ok_def pk_fits_def)
  have "\<exists>s'. ?done s'"
  proof (cases "cap - length out \<le> MAX_STREAM_OVERHEAD")
    case True
    then have "?done (sm, (out, st))" using cap sender_evo_refl[OF s] by (simp add: try_write_stream_frames_def)
    then show ?thesis by blast
  next
    case False
    then have "try_write_stream_frames cx cap (sm, (out, st)) = stream_frames_loop ?retain (cap - length out) (sm, (out, st))"
      using cap cx by (auto simp: try_write_stream_frames_def)
    then show ?thesis using stream_frames_loop_ok[OF s _ _ cap(1), of "cap - length out" ?retain] False by (simp add: not_le)
  qed
  then obtain sm' out' st' where d: "?done (sm', (out', st'))" by (metis surj_pair)
  then obtain fs where "fw_frames st' = fw_frames st @ fs" "out' = out @ concat (map (\<lambda>f. frame_bytes (wire_frame w f)) fs)"
    "\<forall>f \<in> set fs. frame_sent sm' f"
    unfolding sender_evo_def pk_ext_def by auto
  then show ?thesis using d unfolding sender_evo_def sender_ok_def pk_ext_def Let_def
    by (intro exI[of _ sm'] exI[of _ st'] exI[of _ fs]) simp
qed

lemma written_alive: "n_ep (net_run demo_config (take 3 demo_ops)) False \<noteq> None"
  by code_simp

theorem packet_filled_witness:
  "\<exists>sm s'. n_ep (net_run demo_config (take 3 demo_ops)) False = Some sm \<and>
    try_write_stream_frames demo_ctx 100 (sm, ([], fw_default)) = Some (s', Ok ()) \<and> length (fst (snd s')) \<le> 100"
proof -
  let ?net = "net_run demo_config (take 3 demo_ops)"
  obtain sm where sm: "n_ep ?net False = Some sm" using written_alive by auto
  have "\<forall>oper \<in> set (take 3 demo_ops). net_legal oper" using demo_ok(2) by (meson in_set_takeD)
  then have "sm_inv (written_stream 0 ?net True) (written_stream 0 ?net False) 0 0 {} sm"
    using net_inv_ep[OF net_run_written[OF demo_ok(1)] sm] by (simp add: ep_ok_def)
  from packet_filled[OF this, of 100 "[]" fw_default demo_ctx] sm show ?thesis
    by (auto simp: fw_default_def demo_ctx_def Let_def)
qed


lemma is_local_add_4 [simp]: "is_local (sid + 4) srv = is_local sid srv"
  unfolding is_local_def by presburger

text \<open>
  C30: A stream the peer opens moves the number of our own next stream: after a peer's
  bidirectional stream \<open>sid\<close> that is not below it, \<open>stream_bidi_new\<close> tries \<open>sid + 4\<close>, which is the
  peer's to open, and fails with StreamStateError.
\<close>

theorem peer_stream_misleads_next_id:
  assumes "sm_get_or_create sm sid False = (sm', Ok st)" "sm_get sm sid = None" "is_bidi sid"
    and "sm_next_stream_id_bidi sm \<le> sid" "sid + 4 \<le> VINT_MAX"
    and "sm_get sm' (sid + 4) = None" "\<not> sm_is_closed sm' (sid + 4)"
  shows "sm_stream_bidi_new sm' urgency incremental = (sm', Err StreamStateError)"
proof -
  have "sm_next_stream_id_bidi sm' = sid + 4" "\<not> is_local (sid + 4) (sm_is_server sm')"
    using assms(1-5) is_local_add_4 by (auto simp: sm_get_or_create_def sm_advance_next_id_def Let_def sat_add64_def VINT_MAX_def u64_max_def
        sm_put_def split: attempt_splits prod.splits if_splits)
  then show ?thesis using assms(5-7)
    by (simp add: sm_stream_bidi_new_def sm_stream_set_priority_def sm_get_or_create_def unless_closed_def)
qed

definition server_streams :: "(nat, unit) stream_map" where
  "server_streams = sm_new True 1000 100 (stp_default\<lparr>stp_initial_max_streams_bidi := 9\<rparr>)"

theorem peer_stream_misleads_next_id_witness:
  "\<exists>sm' st. sm_get_or_create server_streams 4 False = (sm', Ok st) \<and>
     sm_stream_bidi_new sm' 127 True = (sm', Err StreamStateError)"
proof -
  have "case sm_get_or_create server_streams 4 False of
      (sm', Ok st) \<Rightarrow> sm_get sm' 8 = None \<and> \<not> sm_is_closed sm' 8 | (sm', Err e) \<Rightarrow> False | (sm', Panic) \<Rightarrow> False"
    by code_simp
  then obtain sm' st where r: "sm_get_or_create server_streams 4 False = (sm', Ok st)"
    "sm_get sm' 8 = None" "\<not> sm_is_closed sm' 8"
    by (auto split: prod.splits res.splits)
  then show ?thesis using peer_stream_misleads_next_id[OF r(1)] by (simp add: server_streams_def sm_new_def sm_get_def bm_get_def is_bidi_def VINT_MAX_def)
qed

end
