(* ===== verification/Packet.thy ===== *)
theory Packet
  imports Frame
begin

text \<open>
  Packet headers, packet numbers and packet protection: \<open>src/src/packet.rs\<close> in full, and the part
  of \<open>src/src/tls/boringssl/crypto.rs\<close> that computes nonces and checks buffers around the
  cryptographic library. The library itself (AEAD and header masks of BoringSSL and ring, the tag
  of Retry packets) and the random number generator are arguments: the record \<open>aead_key\<close>
  holds the functions of one key, and \<open>keys_match\<close> is what is documented of a sealing and an
  opening key derived from the same secret.
\<close>

section \<open>The code\<close>

subsection \<open>Headers\<close>

datatype Level = LevelInitial | LevelZeroRTT | LevelHandshake | LevelOneRTT

datatype SpaceId = SpaceInitial | SpaceHandshake | SpaceData | SpaceDataExt nat

definition to_level :: "PacketType \<Rightarrow> Level qres" where
  "to_level ty =
     (case ty of
        Initial \<Rightarrow> Ok LevelInitial | ZeroRTT \<Rightarrow> Ok LevelZeroRTT | Handshake \<Rightarrow> Ok LevelHandshake
      | OneRTT \<Rightarrow> Ok LevelOneRTT | _ \<Rightarrow> Err InternalError)"

definition to_space :: "PacketType \<Rightarrow> SpaceId qres" where
  "to_space ty =
     (case ty of
        Initial \<Rightarrow> Ok SpaceInitial | Handshake \<Rightarrow> Ok SpaceHandshake | ZeroRTT \<Rightarrow> Ok SpaceData | OneRTT \<Rightarrow> Ok SpaceData
      | _ \<Rightarrow> Err InternalError)"

definition space_level :: "SpaceId \<Rightarrow> Level" where
  "space_level sp =
     (case sp of
        SpaceInitial \<Rightarrow> LevelInitial | SpaceHandshake \<Rightarrow> LevelHandshake | SpaceData \<Rightarrow> LevelOneRTT
      | SpaceDataExt _ \<Rightarrow> LevelOneRTT)"

definition QUIC_VERSION_V1 :: nat where
  "QUIC_VERSION_V1 = 1"

definition version_is_supported :: "nat \<Rightarrow> bool" where
  "version_is_supported version \<longleftrightarrow> version = QUIC_VERSION_V1"

record PacketHeader =
  hdr_pkt_type :: PacketType
  hdr_version :: nat
  hdr_dcid :: ConnectionId
  hdr_scid :: ConnectionId
  hdr_pkt_num_len :: nat
  hdr_pkt_num :: nat
  hdr_token :: "bytes option"
  hdr_key_phase :: bool

abbreviation (input) "HEADER_LONG_FORM_BIT \<equiv> (0x80 :: byte)"
abbreviation (input) "HEADER_FIXED_BIT \<equiv> (0x40 :: byte)"
abbreviation (input) "HEADER_KEY_PHASE_BIT \<equiv> (0x04 :: byte)"
abbreviation (input) "PKT_TYPE_MASK \<equiv> (0x30 :: byte)"
abbreviation (input) "PKT_NUM_LEN_MASK \<equiv> (0x03 :: byte)"
abbreviation (input) "MAX_PKT_NUM_LEN \<equiv> (4 :: nat)"
abbreviation (input) "SAMPLE_LEN \<equiv> (16 :: nat)"
abbreviation (input) "TAG_LEN \<equiv> (16 :: nat)"

definition long_header :: "byte \<Rightarrow> bool" where
  "long_header first \<longleftrightarrow> first AND HEADER_LONG_FORM_BIT \<noteq> 0"

definition long_type :: "PacketType \<Rightarrow> byte option" where
  "long_type ty =
     (case ty of
        Initial \<Rightarrow> Some 0x00 | ZeroRTT \<Rightarrow> Some 0x01 | Handshake \<Rightarrow> Some 0x02 | Retry \<Rightarrow> Some 0x03 | _ \<Rightarrow> None)"

definition num_len_bits :: "nat \<Rightarrow> byte" where
  "num_len_bits pkt_num_len = word_of_nat (pkt_num_len - 1)"

definition write_header :: "PacketHeader \<Rightarrow> wbuf \<Rightarrow> wbuf qres" where
  "write_header hdr b =
     (if hdr_pkt_type hdr = OneRTT then
        let first = HEADER_FIXED_BIT OR (if hdr_key_phase hdr then HEADER_KEY_PHASE_BIT else 0) OR
              num_len_bits (hdr_pkt_num_len hdr)
        in rbind (write_u8 (unat first) b) (write_slice (hdr_dcid hdr))
      else case long_type (hdr_pkt_type hdr) of
        None \<Rightarrow> Err InternalError
      | Some ty \<Rightarrow>
          let first = HEADER_LONG_FORM_BIT OR HEADER_FIXED_BIT OR push_bit 4 ty OR num_len_bits (hdr_pkt_num_len hdr)
          in rbind (write_u8 (unat first) b) (\<lambda>b. rbind (write_u32 (hdr_version hdr) b) (\<lambda>b.
             rbind (write_u8 (length (hdr_dcid hdr)) b) (\<lambda>b. rbind (write_slice (hdr_dcid hdr) b) (\<lambda>b.
             rbind (write_u8 (length (hdr_scid hdr)) b) (\<lambda>b. rbind (write_slice (hdr_scid hdr) b) (\<lambda>b.
               case hdr_pkt_type hdr of
                 Initial \<Rightarrow>
                   (case hdr_token hdr of
                      Some v \<Rightarrow> rbind (write_varint (length v) b) (write_slice v)
                    | None \<Rightarrow> write_varint 0 b)
               | Retry \<Rightarrow> (case hdr_token hdr of None \<Rightarrow> Panic | Some v \<Rightarrow> write_slice v b)
               | _ \<Rightarrow> Ok b)))))))"

text \<open>The bytes at the start of a buffer of \<open>cap\<close> bytes; \<open>to_bytes\<close> returns their number.\<close>

definition hdr_to_bytes :: "PacketHeader \<Rightarrow> nat \<Rightarrow> bytes qres" where
  "hdr_to_bytes hdr cap = rbind (write_header hdr ([], cap)) (\<lambda>(out, room). Ok out)"

definition parsed_header ::
    "PacketType \<Rightarrow> nat \<Rightarrow> bytes \<Rightarrow> bytes \<Rightarrow> bytes option \<Rightarrow> PacketHeader" where
  "parsed_header ty version dcid scid token =
     \<lparr>hdr_pkt_type = ty, hdr_version = version, hdr_dcid = cid_new dcid, hdr_scid = cid_new scid,
      hdr_pkt_num_len = 0, hdr_pkt_num = 0, hdr_token = token, hdr_key_phase = False\<rparr>"

definition decode_type :: "nat \<Rightarrow> byte \<Rightarrow> PacketType qres" where
  "decode_type version first =
     (if version = 0 then Ok VersionNegotiation
      else
        let t = drop_bit 4 (first AND PKT_TYPE_MASK)
        in if t = 0 then Ok Initial else if t = 1 then Ok ZeroRTT else if t = 2 then Ok Handshake
           else if t = 3 then Ok Retry else Err InvalidPacket)"

definition read_cid :: "nat \<Rightarrow> bytes reader" where
  "read_cid version b =
     rbind (read_u8 b) (\<lambda>(len, b).
       if version_is_supported version \<and> len > MAX_CID_LEN then Err InvalidPacket else read_bytes len b)"

definition read_token :: "PacketType \<Rightarrow> bytes option reader" where
  "read_token ty b =
     (case ty of
        Initial \<Rightarrow>
          rbind (read_varint b) (\<lambda>(token_len, b).
            if token_len > 0 then rbind (read_bytes token_len b) (\<lambda>(t, b). Ok (Some t, b)) else Ok (None, b))
      | Retry \<Rightarrow>
          if length b < TAG_LEN then Err InvalidPacket
          else rbind (sub64 (length b) TAG_LEN) (\<lambda>token_len.
            rbind (read_bytes token_len b) (\<lambda>(t, b). Ok (Some t, b)))
      | _ \<Rightarrow> Ok (None, b))"

definition hdr_from_bytes :: "bytes \<Rightarrow> nat \<Rightarrow> (PacketHeader \<times> nat) qres" where
  "hdr_from_bytes buf dcid_len =
     (let len = length buf in
      rbind (read_u8 buf) (\<lambda>(v, b).
        let first = word_of_nat v
        in if \<not> long_header first then
             rbind (read_bytes dcid_len b) (\<lambda>(dcid, b).
               rbind (sub64 len (length b)) (\<lambda>n. Ok (parsed_header OneRTT 0 dcid [] None, n)))
           else
             rbind (read_u32 b) (\<lambda>(version, b). rbind (decode_type version first) (\<lambda>ty.
             rbind (read_cid version b) (\<lambda>(dcid, b). rbind (read_cid version b) (\<lambda>(scid, b).
             rbind (read_token ty b) (\<lambda>(token, b). rbind (sub64 len (length b)) (\<lambda>n.
               Ok (parsed_header ty version dcid scid token, n)))))))))"

definition header_info :: "bytes \<Rightarrow> nat \<Rightarrow> (bool \<times> nat \<times> ConnectionId) qres" where
  "header_info buf dcid_len =
     rbind (read_u8 buf) (\<lambda>(v, b).
       if \<not> long_header (word_of_nat v) then rbind (read_bytes dcid_len b) (\<lambda>(dcid, b). Ok (False, 0, cid_new dcid))
       else
         rbind (read_u32 b) (\<lambda>(version, b). rbind (read_u8 b) (\<lambda>(dcid_len, b).
         rbind (read_bytes dcid_len b) (\<lambda>(dcid, b). Ok (True, version, cid_new dcid)))))"

subsection \<open>Packet numbers\<close>

text \<open>Arithmetic on \<open>u64\<close>; a shift by 64 or more bits panics, and \<open>!m\<close> is \<open>u64_max - m\<close>.\<close>

definition decode_packet_num :: "nat \<Rightarrow> nat \<Rightarrow> nat \<Rightarrow> nat qres" where
  "decode_packet_num largest_pn truncated_pn pkt_num_len =
     (let pn_nbits = pkt_num_len * 8 in
      rbind (add64 largest_pn 1) (\<lambda>expected_pn.
      if pn_nbits \<ge> 64 then Panic
      else
        let pn_win = 2 ^ pn_nbits; pn_hwin = pn_win div 2; pn_mask = pn_win - 1;
            candidate_pn = (expected_pn AND (u64_max - pn_mask)) OR truncated_pn;
            last = rbind (add64 expected_pn pn_hwin) (\<lambda>high.
              if candidate_pn > high \<and> candidate_pn \<ge> pn_win then sub64 candidate_pn pn_win else Ok candidate_pn)
        in rbind (add64 candidate_pn pn_hwin) (\<lambda>low.
             if low \<le> expected_pn then
               rbind (sub64 (2 ^ 62) pn_win) (\<lambda>bound. if candidate_pn < bound then add64 candidate_pn pn_win else last)
             else last)))"

definition encode_packet_num :: "nat \<Rightarrow> nat \<Rightarrow> wbuf \<Rightarrow> wbuf qres" where
  "encode_packet_num pkt_num len b =
     (if len = 1 then write_u8 (take_bit 8 pkt_num) b
      else if len = 2 then write_u16 (take_bit 16 pkt_num) b
      else if len = 3 then write_u24 (take_bit 32 pkt_num) b
      else if len = 4 then write_u32 (take_bit 32 pkt_num) b
      else Err InvalidPacket)"

definition num_unacked :: "nat \<Rightarrow> nat option \<Rightarrow> nat" where
  "num_unacked pkt_num largest_acked =
     (case largest_acked of Some acked \<Rightarrow> pkt_num - acked | None \<Rightarrow> sat_add64 pkt_num 1)"

definition packet_num_len :: "nat \<Rightarrow> nat option \<Rightarrow> nat" where
  "packet_num_len pkt_num largest_acked =
     (let min_bits = bit_len (num_unacked pkt_num largest_acked) + 1 in (min_bits + 7) div 8)"

subsection \<open>Nonces and the AEAD\<close>

text \<open>
  One direction of a key: the IV, \<open>EVP_AEAD_CTX_seal_scatter\<close> (nonce, associated data, plaintext
  and extra input to ciphertext and tag), \<open>EVP_AEAD_CTX_open\<close> (nonce, associated data and
  ciphertext with its tag to plaintext), and the header protection mask of a sample.
\<close>

record aead_key =
  ak_iv :: bytes
  ak_seal :: "bytes \<Rightarrow> bytes \<Rightarrow> bytes \<Rightarrow> bytes \<Rightarrow> (bytes \<times> bytes) option"
  ak_open :: "bytes \<Rightarrow> bytes \<Rightarrow> bytes \<Rightarrow> bytes option"
  ak_mask :: "bytes \<Rightarrow> bytes option"

text \<open>\<open>iter_mut().zip(..)\<close> with \<open>*a ^= b\<close>: what has no partner stays.\<close>

fun xor_zip :: "bytes \<Rightarrow> bytes \<Rightarrow> bytes" where
  "xor_zip (a # as) (b # bs) = (a XOR b) # xor_zip as bs"
| "xor_zip as _ = as"

definition build_nonce :: "bytes \<Rightarrow> nat option \<Rightarrow> nat \<Rightarrow> bytes qres" where
  "build_nonce iv cid_seq counter =
     (if length iv \<noteq> 12 then Panic
      else
        Ok ((case cid_seq of Some s \<Rightarrow> xor_zip (take 4 iv) (be_bytes 4 s) | None \<Rightarrow> take 4 iv) @
            xor_zip (drop 4 iv) (be_bytes 8 counter)))"

definition seal ::
    "aead_key \<Rightarrow> nat option \<Rightarrow> nat \<Rightarrow> bytes \<Rightarrow> bytes \<Rightarrow> nat \<Rightarrow> bytes option \<Rightarrow> (bytes \<times> nat) qres" where
  "seal key cid_seq counter ad buf in_len extra_in =
     (let extra = (case extra_in of Some v \<Rightarrow> v | None \<Rightarrow> []) in
      if in_len + TAG_LEN + length extra > length buf then Err CryptoFail
      else
        rbind (build_nonce (ak_iv key) cid_seq counter) (\<lambda>nonce.
          case ak_seal key nonce ad (take in_len buf) extra of
            None \<Rightarrow> Err CryptoFail
          | Some (ct, tag) \<Rightarrow> Ok (ct @ tag @ drop (in_len + length tag) buf, in_len + length tag)))"

definition open_ciphertext :: "aead_key \<Rightarrow> nat option \<Rightarrow> nat \<Rightarrow> bytes \<Rightarrow> bytes \<Rightarrow> bytes qres" where
  "open_ciphertext key cid_seq counter ad ciphertext =
     (if length ciphertext < TAG_LEN then Err CryptoFail
      else
        rbind (build_nonce (ak_iv key) cid_seq counter) (\<lambda>nonce.
          case ak_open key nonce ad ciphertext of None \<Rightarrow> Err CryptoFail | Some plaintext \<Rightarrow> Ok plaintext))"

definition new_mask :: "aead_key \<Rightarrow> bytes \<Rightarrow> bytes qres" where
  "new_mask key sample = (case ak_mask key sample of None \<Rightarrow> Err CryptoFail | Some msk \<Rightarrow> Ok msk)"

subsection \<open>Packet protection\<close>

definition mask_first :: "byte \<Rightarrow> byte \<Rightarrow> byte" where
  "mask_first first msk = first XOR (msk AND (if long_header first then 0x0f else 0x1f))"

text \<open>The loop over the packet number field; \<open>msk\<close> has five bytes.\<close>

definition mask_num :: "bytes \<Rightarrow> bytes \<Rightarrow> bytes" where
  "mask_num num msk = map (\<lambda>i. num ! i XOR msk ! (i + 1)) [0..<length num]"

definition encrypt_header :: "bytes \<Rightarrow> nat \<Rightarrow> bytes \<Rightarrow> aead_key \<Rightarrow> bytes qres" where
  "encrypt_header hdr_buf pkt_num_len payload key =
     rbind (sub64 MAX_PKT_NUM_LEN pkt_num_len) (\<lambda>sample_start.
     if sample_start + SAMPLE_LEN > length payload then Panic
     else
       rbind (new_mask key (take SAMPLE_LEN (drop sample_start payload))) (\<lambda>msk.
       if length hdr_buf < 1 then Panic
       else
         let first = hdr_buf ! 0; rest = drop 1 hdr_buf
         in rbind (sub64 (length rest) pkt_num_len) (\<lambda>mid.
              Ok (mask_first first (msk ! 0) # take mid rest @ mask_num (drop mid rest) msk))))"

definition encrypt_packet ::
    "bytes \<Rightarrow> nat option \<Rightarrow> nat \<Rightarrow> nat \<Rightarrow> nat \<Rightarrow> nat \<Rightarrow> bytes option \<Rightarrow> aead_key \<Rightarrow> (bytes \<times> nat) qres" where
  "encrypt_packet pkt_buf cid_seq pkt_num pkt_num_len payload_len payload_offset extra_in aead =
     (if length pkt_buf < payload_offset + payload_len then Err BufferTooShort
      else
        let pkt_hdr = take payload_offset pkt_buf; payload = drop payload_offset pkt_buf
        in rbind (seal aead cid_seq pkt_num pkt_hdr payload payload_len extra_in) (\<lambda>(payload, ciphertext_len).
           rbind (encrypt_header pkt_hdr pkt_num_len payload aead) (\<lambda>pkt_hdr.
             Ok (pkt_hdr @ payload, payload_offset + ciphertext_len))))"

text \<open>The feature \<open>fuzzing\<close>, under which \<open>decrypt_payload\<close> returns the ciphertext, is off.\<close>

definition decrypt_payload ::
    "bytes \<Rightarrow> nat \<Rightarrow> nat \<Rightarrow> nat option \<Rightarrow> nat \<Rightarrow> aead_key \<Rightarrow> bytes qres" where
  "decrypt_payload pkt_buf payload_offset payload_len cid_seq pkt_num aead =
     (if length pkt_buf < payload_offset + payload_len then Err BufferTooShort
      else open_ciphertext aead cid_seq pkt_num (take payload_offset pkt_buf)
             (take payload_len (drop payload_offset pkt_buf)))"

definition read_pkt_num :: "nat \<Rightarrow> bytes \<Rightarrow> nat qres" where
  "read_pkt_num pkt_num_len b =
     (let value = (\<lambda>(v, b). Ok v) in
      if pkt_num_len = 1 then rbind (read_u8 b) value
      else if pkt_num_len = 2 then rbind (read_u16 b) value
      else if pkt_num_len = 3 then rbind (read_u24 b) value
      else if pkt_num_len = 4 then rbind (read_u32 b) value
      else Err InvalidPacket)"

definition num_len_of :: "byte \<Rightarrow> nat" where
  "num_len_of first = unat (first AND PKT_NUM_LEN_MASK) + 1"

text \<open>The first byte and the packet number in the clear, and the buffer with that number in place.\<close>

definition unmask_header :: "bytes \<Rightarrow> nat \<Rightarrow> aead_key \<Rightarrow> bool \<Rightarrow> (byte \<times> bytes) qres" where
  "unmask_header pkt_buf off aead plaintext_mode =
     (if plaintext_mode then Ok (pkt_buf ! 0, pkt_buf)
      else
        rbind (new_mask aead (take SAMPLE_LEN (drop (off + MAX_PKT_NUM_LEN) pkt_buf))) (\<lambda>msk.
          let first = mask_first (pkt_buf ! 0) (msk ! 0); n = num_len_of first
          in Ok (first, take off pkt_buf @ mask_num (take n (drop off pkt_buf)) msk @ drop (off + n) pkt_buf)))"

definition decrypt_header ::
    "bytes \<Rightarrow> nat \<Rightarrow> PacketHeader \<Rightarrow> aead_key \<Rightarrow> bool \<Rightarrow> (bytes \<times> PacketHeader) qres" where
  "decrypt_header pkt_buf off hdr aead plaintext_mode =
     (if length pkt_buf < off + MAX_PKT_NUM_LEN + (if plaintext_mode then 0 else SAMPLE_LEN) then Err BufferTooShort
      else
        rbind (unmask_header pkt_buf off aead plaintext_mode) (\<lambda>(first, pkt_buf).
          let n = num_len_of first
          in rbind (read_pkt_num n (take n (drop off pkt_buf))) (\<lambda>pkt_num.
               Ok (pkt_buf[0 := first],
                   let hdr1 = hdr\<lparr>hdr_pkt_num_len := n, hdr_pkt_num := pkt_num\<rparr>
                   in if hdr_pkt_type hdr = OneRTT
                      then hdr1\<lparr>hdr_key_phase := (first AND HEADER_KEY_PHASE_BIT \<noteq> 0)\<rparr> else hdr1))))"

subsection \<open>Version Negotiation, Retry and Stateless Reset\<close>

text \<open>\<open>rnd\<close> is the random byte; \<open>gcm_tag\<close> the AES-128-GCM tag of associated data under the fixed Retry key.\<close>

definition version_negotiation :: "byte \<Rightarrow> bytes \<Rightarrow> bytes \<Rightarrow> wbuf \<Rightarrow> wbuf qres" where
  "version_negotiation rnd scid dcid b =
     rbind (write_u8 (unat (rnd OR HEADER_LONG_FORM_BIT)) b) (\<lambda>b. rbind (write_u32 0 b) (\<lambda>b.
     rbind (write_u8 (length dcid) b) (\<lambda>b. rbind (write_slice dcid b) (\<lambda>b.
     rbind (write_u8 (length scid) b) (\<lambda>b. rbind (write_slice scid b) (\<lambda>b.
     write_u32 QUIC_VERSION_V1 b))))))"

definition compute_retry_integrity_tag :: "(bytes \<Rightarrow> bytes option) \<Rightarrow> bytes \<Rightarrow> bytes \<Rightarrow> bytes qres" where
  "compute_retry_integrity_tag gcm_tag retry_hdr odcid =
     rbind (rbind (write_u8 (length odcid) ([], 1 + length odcid + length retry_hdr)) (\<lambda>b.
            rbind (write_slice odcid b) (write_slice retry_hdr)))
       (\<lambda>(pseudo_pkt, room). case gcm_tag pseudo_pkt of None \<Rightarrow> Err CryptoFail | Some tag \<Rightarrow> Ok tag)"

definition retry ::
    "(bytes \<Rightarrow> bytes option) \<Rightarrow> bytes \<Rightarrow> bytes \<Rightarrow> bytes \<Rightarrow> bytes \<Rightarrow> nat \<Rightarrow> nat \<Rightarrow> bytes qres" where
  "retry gcm_tag scid dcid odcid token version cap =
     (if \<not> version_is_supported version then Err UnknownVersion
      else
        rbind (hdr_to_bytes (parsed_header Retry version dcid scid (Some token)) cap) (\<lambda>hdr.
        rbind (compute_retry_integrity_tag gcm_tag hdr odcid) (\<lambda>tag.
        rbind (write_slice tag (hdr, cap - length hdr)) (\<lambda>(out, room). Ok out))))"

definition verify_retry_integrity_tag :: "(bytes \<Rightarrow> bytes option) \<Rightarrow> bytes \<Rightarrow> bytes \<Rightarrow> unit qres" where
  "verify_retry_integrity_tag gcm_tag buf odcid =
     (if length buf < TAG_LEN then Err BufferTooShort
      else
        let n = length buf - TAG_LEN
        in rbind (compute_retry_integrity_tag gcm_tag (take n buf) odcid) (\<lambda>tag.
             if drop n buf = tag then Ok () else Err CryptoFail))"

definition MIN_RESET_PACKET_LEN :: nat where
  "MIN_RESET_PACKET_LEN = 21"

text \<open>\<open>rnd n\<close> are the \<open>n\<close> random bytes; the result is the content of \<open>out\<close>, of \<open>cap\<close> bytes, that was written.\<close>

definition stateless_reset :: "(nat \<Rightarrow> bytes) \<Rightarrow> nat \<Rightarrow> bytes \<Rightarrow> nat \<Rightarrow> bytes qres" where
  "stateless_reset rnd pkt_len token cap =
     (if pkt_len > cap then Err BufferTooShort
      else if pkt_len < MIN_RESET_PACKET_LEN then Err InternalError
      else if length token \<noteq> RESET_TOKEN_LEN then Err InternalError
      else
        let unpredict = rnd (pkt_len - RESET_TOKEN_LEN);
            unpredict = unpredict[0 := ((unpredict ! 0) AND 0x3f) OR HEADER_FIXED_BIT]
        in rbind (write_slice token (unpredict, cap - length unpredict)) (\<lambda>(out, room). Ok out))"


section \<open>Packet numbers\<close>

lemma and_high:
  assumes "e \<le> u64_max" "k < 64"
  shows "e AND (u64_max - (2 ^ k - 1)) = e div 2 ^ k * 2 ^ k"
proof -
  have "2 ^ 64 - (2 :: nat) ^ k = 2 ^ k * (2 ^ (64 - k) - 1)"
    using assms(2) by (simp add: right_diff_distrib' power_add[symmetric] del: power_add)
  moreover have "u64_max - (2 ^ k - 1) = 2 ^ 64 - 2 ^ k" using assms(2) by (simp add: u64_max_def)
  ultimately have "u64_max - (2 ^ k - 1) = push_bit k (mask (64 - k))"
    by (simp add: push_bit_eq_mult mask_eq_exp_minus_1 mult.commute)
  moreover have "e = take_bit 64 e" using assms(1) by (simp add: take_bit_eq_mod u64_max_def)
  then have "n < 64" if "bit e n" for n using that bit_take_bit_iff[of 64 e n] by argo
  ultimately have "e AND (u64_max - (2 ^ k - 1)) = push_bit k (drop_bit k e)"
    using assms(2) by (auto simp: bit_eq_iff bit_simps diff_less_mono)
  then show ?thesis by (simp add: push_bit_eq_mult drop_bit_eq_div)
qed

text \<open>The candidate is the number with the given low bits in the window of the expected number.\<close>

lemma decode_packet_num_eq:
  assumes w: "0 < len" "len \<le> 4" and e: "largest < 2 ^ 63"
    and tr: "tr < 2 ^ (len * 8)"
  defines "W \<equiv> 2 ^ (len * 8)" and "ex \<equiv> largest + 1"
  defines "cand \<equiv> ex div W * W + tr"
  shows "decode_packet_num largest tr len =
    (if cand + W div 2 \<le> ex \<and> cand < 2 ^ 62 - W then Ok (cand + W)
     else if cand > ex + W div 2 \<and> cand \<ge> W then Ok (cand - W) else Ok cand)"
proof -
  have k: "len * 8 < 64" "W \<le> 2 ^ 32" using w by (auto simp: W_def intro: power_increasing[of _ 32 "2 :: nat", simplified])
  have u: "ex \<le> u64_max" "ex \<le> 2 ^ 63" using e by (simp_all add: ex_def u64_max_def)
  have c: "(ex AND (u64_max - (W - 1))) OR tr = cand"
    using and_high[OF u(1) k(1)] or_high[of tr "len * 8" "ex div W"] tr by (simp add: cand_def W_def or.commute)
  have "cand \<le> ex + 2 ^ 32"
    using k(2) tr div_times_less_eq_dividend[of ex W] unfolding cand_def W_def by linarith
  then have adds: "add64 largest 1 = Ok ex" "add64 cand (W div 2) = Ok (cand + W div 2)" "add64 cand W = Ok (cand + W)"
    "add64 ex (W div 2) = Ok (ex + W div 2)" "sub64 (2 ^ 62) W = Ok (2 ^ 62 - W)"
    using k(2) u by (simp_all add: ex_def u64_max_def)
  show ?thesis using k(1)
    unfolding decode_packet_num_def Let_def adds(1) rbind.simps W_def[symmetric] c adds(2-5) by (simp add: not_less)
qed

text \<open>A number within half a window of the expected one is recovered from its low bits.\<close>

lemma decode_packet_num_back:
  assumes w: "0 < len" "len \<le> 4" and e: "largest < 2 ^ 63" and pn: "pn < 2 ^ 62"
    and win: "largest + 1 < pn + 2 ^ (len * 8) div 2" "pn \<le> largest + 1 + 2 ^ (len * 8) div 2"
  shows "decode_packet_num largest (pn mod 2 ^ (len * 8)) len = Ok pn"
proof -
  define W :: nat where "W = 2 ^ (len * 8)"
  define ex where "ex = largest + 1"
  define a b where "a = ex div W" and "b = pn div W"
  have W: "0 < W" "even W" using w by (simp_all add: W_def)
  have p: "pn = b * W + pn mod W" and x: "ex = a * W + ex mod W" by (simp_all add: a_def b_def)
  have m: "pn mod W < W" "ex mod W < W" using W by simp_all
  have h: "W div 2 * 2 = W" using W by simp
  have win': "ex < pn + W div 2" "pn \<le> ex + W div 2" using win by (simp_all add: ex_def W_def)
  have "b < a + 2" "a < b + 2"
  proof -
    have "(a + 2) * W = a * W + W + W" "(b + 2) * W = b * W + W + W" by (simp_all add: algebra_simps)
    then have "b * W < (a + 2) * W" "a * W < (b + 2) * W" using p x m win' h by linarith+
    then show "b < a + 2" "a < b + 2" by (simp_all only: mult_less_cancel2)
  qed
  then consider "b = a" | "b = a + 1" | "a = b + 1" by linarith
  then have cases: "pn = a * W + pn mod W \<or> pn = a * W + pn mod W + W \<or> pn + W = a * W + pn mod W"
    using p by cases (simp_all add: algebra_simps)
  have "decode_packet_num largest (pn mod W) len =
     (if a * W + pn mod W + W div 2 \<le> ex \<and> a * W + pn mod W < 2 ^ 62 - W then Ok (a * W + pn mod W + W)
      else if a * W + pn mod W > ex + W div 2 \<and> a * W + pn mod W \<ge> W then Ok (a * W + pn mod W - W)
      else Ok (a * W + pn mod W))"
    using decode_packet_num_eq[OF w e, of "pn mod W"] m(1) by (simp only: a_def ex_def W_def)
  moreover define c where "c = a * W + pn mod W"
  ultimately have "decode_packet_num largest (pn mod W) len =
     (if c + W div 2 \<le> ex \<and> c < 2 ^ 62 - W then Ok (c + W)
      else if c > ex + W div 2 \<and> c \<ge> W then Ok (c - W) else Ok c)" by simp
  moreover have "pn = c \<or> pn = c + W \<or> pn + W = c" using cases by (simp only: c_def)
  moreover have "pn = c \<Longrightarrow> \<not> c + W div 2 \<le> ex \<and> \<not> c > ex + W div 2"
    "pn = c + W \<Longrightarrow> c + W div 2 \<le> ex \<and> c < 2 ^ 62 - W"
    "pn + W = c \<Longrightarrow> \<not> c + W div 2 \<le> ex \<and> c > ex + W div 2 \<and> c \<ge> W \<and> c - W = pn"
    using win' h pn by linarith+
  ultimately show ?thesis unfolding W_def[symmetric] by metis
qed


lemma packet_num_len_window:
  assumes "num_unacked pn acked < 2 ^ 31"
  defines "len \<equiv> packet_num_len pn acked"
  shows "0 < len" "len \<le> 4" "num_unacked pn acked < 2 ^ (len * 8) div 2"
proof -
  let ?n = "num_unacked pn acked"
  have b: "bit_len ?n \<le> 31" using assms(1) by (rule bit_len_le)
  then show len: "0 < len" "len \<le> 4" by (simp_all add: len_def packet_num_len_def)
  have "bit_len ?n + 1 \<le> len * 8" by (simp add: len_def packet_num_len_def Let_def)
  then have "(2 :: nat) ^ (bit_len ?n + 1) \<le> 2 ^ (len * 8)" by (rule power_increasing) simp
  then have "2 ^ bit_len ?n \<le> 2 ^ (len * 8) div (2 :: nat)" by simp
  then show "?n < 2 ^ (len * 8) div 2" using less_bit_len[of ?n] by linarith
qed

lemma write_u24_low: "write_u24 n = write_u24 (take_bit 24 n)"
proof -
  have m: "(0xFFFF :: nat) = mask 16" "(0xFF0000 :: nat) = push_bit 16 (mask 8)"
    by (simp_all add: mask_eq_exp_minus_1 push_bit_eq_mult)
  have "take_bit 24 n AND 0xFFFF = n AND 0xFFFF" "take_bit 24 n AND 0xFF0000 = n AND 0xFF0000"
    unfolding m by (auto simp: bit_eq_iff bit_simps)
  then show ?thesis by (simp add: write_u24_def fun_eq_iff)
qed

lemma encode_packet_num_eq:
  "0 < len \<Longrightarrow> len \<le> 4 \<Longrightarrow> encode_packet_num pn len = emit (be_bytes len (pn mod 2 ^ (len * 8)))"
proof -
  assume "0 < len" "len \<le> 4"
  then consider "len = 1" | "len = 2" | "len = 3" | "len = 4" by linarith
  moreover have "write_u24 (take_bit 32 pn) = emit (be_bytes 3 (pn mod 2 ^ 24))"
    using write_u24_low[of "take_bit 32 pn"] u24_write[of "take_bit 24 pn"]
    by (simp only: take_bit_take_bit) (simp add: take_bit_eq_mod)
  ultimately show ?thesis
    by cases (simp_all add: fun_eq_iff encode_packet_num_def take_bit_eq_mod u8.write_emit u16.write_emit u32.write_emit)
qed

text \<open>
  C8: Packet numbers survive truncation: a number below \<open>2 ^ 62\<close> that is encoded in the length
  \<open>packet_num_len\<close> chooses for it is written in that many bytes, one to four, and
  \<open>decode_packet_num\<close> at the receiver gives the full number back, provided that the receiver has
  seen what it acknowledged, and that the packet is not reordered by more than the packets in flight.
\<close>

theorem packet_number_roundtrip:
  assumes pn: "pn < 2 ^ 62" and n: "num_unacked pn acked < 2 ^ 31"
    and acked: "\<And>a. acked = Some a \<Longrightarrow> a < pn \<and> a \<le> largest"
    and order: "largest < pn + num_unacked pn acked"
  defines "len \<equiv> packet_num_len pn acked"
  shows "1 \<le> len \<and> len \<le> 4 \<and>
    (\<exists>bs. encode_packet_num pn len ([], len) = Ok (bs, 0) \<and> length bs = len \<and>
      decode_packet_num largest (be_value bs) len = Ok pn)"
proof -
  note len = packet_num_len_window[OF n, folded len_def]
  let ?bs = "be_bytes len (pn mod 2 ^ (len * 8))"
  have "num_unacked pn acked \<le> pn + 1" by (auto simp: num_unacked_def sat_add64_def split: option.split)
  then have e: "largest < 2 ^ 63" using order pn by simp
  have "pn \<le> largest + num_unacked pn acked"
    using acked pn by (auto simp: num_unacked_def sat_add64_def u64_max_def split: option.split)
  then have "decode_packet_num largest (pn mod 2 ^ (len * 8)) len = Ok pn"
    using decode_packet_num_back[OF len(1,2) e pn] order len(3) by linarith
  moreover have "be_value ?bs = pn mod 2 ^ (len * 8)"
    using power_mult[of "2 :: nat" 8 len] by (simp add: be_value_be_bytes mult.commute[of len])
  ultimately show ?thesis using len(1,2) encode_packet_num_eq[OF len(1,2), of pn]
    by (auto simp: emit_def put_def)
qed

theorem packet_number_roundtrip_witness:
  "packet_num_len 0xac5c02 (Some 0xabe8b3) = 2 \<and>
   (\<exists>bs. encode_packet_num 0xac5c02 2 ([], 2) = Ok (bs, 0) \<and> decode_packet_num 0xac5bff (be_value bs) 2 = Ok 0xac5c02)"
proof -
  have n: "num_unacked 0xac5c02 (Some 0xabe8b3) = 29519" by (simp add: num_unacked_def)
  have "bit_len 29519 = 15" by (simp add: bit_len.simps)
  then have l: "packet_num_len 0xac5c02 (Some 0xabe8b3) = 2" by (simp add: packet_num_len_def n)
  then show ?thesis using packet_number_roundtrip[of "0xac5c02" "Some 0xabe8b3" "0xac5bff"] n by (auto simp: l)
qed


section \<open>Headers\<close>

lemma num_len_bits_small: "l \<le> 4 \<Longrightarrow> num_len_bits l \<in> {0, 1, 2, 3}"
proof -
  assume "l \<le> 4"
  then consider "l = 0" | "l = 1" | "l = 2" | "l = 3" | "l = 4" by linarith
  then show ?thesis by cases (simp_all add: num_len_bits_def)
qed

definition first_short :: "PacketHeader \<Rightarrow> byte" where
  "first_short hdr = HEADER_FIXED_BIT OR (if hdr_key_phase hdr then HEADER_KEY_PHASE_BIT else 0) OR
     num_len_bits (hdr_pkt_num_len hdr)"

definition first_long :: "byte \<Rightarrow> nat \<Rightarrow> byte" where
  "first_long ty l = HEADER_LONG_FORM_BIT OR HEADER_FIXED_BIT OR push_bit 4 ty OR num_len_bits l"

lemma first_short_bits:
  assumes "hdr_pkt_num_len hdr \<le> 4"
  shows "\<not> long_header (first_short hdr)"
    "first_short hdr AND PKT_NUM_LEN_MASK = num_len_bits (hdr_pkt_num_len hdr)"
    "first_short hdr AND HEADER_KEY_PHASE_BIT \<noteq> 0 \<longleftrightarrow> hdr_key_phase hdr"
  using num_len_bits_small[OF assms] by (auto simp: first_short_def long_header_def)

lemma first_long_bits:
  assumes "l \<le> 4" "ty \<in> {0, 1, 2, 3}"
  shows "long_header (first_long ty l)" "first_long ty l AND PKT_NUM_LEN_MASK = num_len_bits l"
    "drop_bit 4 (first_long ty l AND PKT_TYPE_MASK) = ty"
  using num_len_bits_small[OF assms(1)] assms(2) by (auto simp: first_long_def long_header_def)

text \<open>What a header is on the wire.\<close>

definition token_bytes :: "PacketHeader \<Rightarrow> bytes" where
  "token_bytes hdr =
     (case hdr_pkt_type hdr of
        Initial \<Rightarrow> (case hdr_token hdr of Some v \<Rightarrow> varint_slice v | None \<Rightarrow> varint_bytes 0)
      | Retry \<Rightarrow> (case hdr_token hdr of Some v \<Rightarrow> v | None \<Rightarrow> [])
      | _ \<Rightarrow> [])"

definition header_bytes :: "PacketHeader \<Rightarrow> bytes" where
  "header_bytes hdr =
     (case long_type (hdr_pkt_type hdr) of
        None \<Rightarrow> first_short hdr # hdr_dcid hdr
      | Some ty \<Rightarrow>
          first_long ty (hdr_pkt_num_len hdr) # be_bytes 4 (hdr_version hdr) @ u8_slice (hdr_dcid hdr) @
          u8_slice (hdr_scid hdr) @ token_bytes hdr)"

text \<open>
  The headers the code builds: a connection id is at most 20 bytes, a packet with a long header
  has a version, and only an Initial packet may and a Retry packet must have a token.
\<close>

definition header_wf :: "PacketHeader \<Rightarrow> bool" where
  "header_wf hdr \<longleftrightarrow> hdr_pkt_type hdr \<noteq> VersionNegotiation \<and> hdr_pkt_num_len hdr \<le> 4 \<and>
     length (hdr_dcid hdr) \<le> MAX_CID_LEN \<and> length (hdr_scid hdr) \<le> MAX_CID_LEN \<and>
     (hdr_pkt_type hdr \<noteq> OneRTT \<longrightarrow> 0 < hdr_version hdr \<and> hdr_version hdr < 2 ^ 32) \<and>
     (case hdr_pkt_type hdr of
        Initial \<Rightarrow> (\<forall>v. hdr_token hdr = Some v \<longrightarrow> v \<noteq> [] \<and> length v \<le> VINT_MAX)
      | Retry \<Rightarrow> hdr_token hdr \<noteq> None
      | _ \<Rightarrow> hdr_token hdr = None)"

lemma u8_of_byte: "write_u8 (unat x) = emit [x]" "read_u8 (x # rest) = Ok (unat x, rest)"
  using u8.write_emit[of "unat x"] unsigned_less[of x] by (simp_all add: be_bytes.simps read_u8_eq)

lemma write_header_emit:
  assumes "header_wf hdr"
  shows "write_header hdr = emit (header_bytes hdr)"
proof (cases "hdr_pkt_type hdr = OneRTT")
  case True
  then show ?thesis
    by (simp add: write_header_def header_bytes_def long_type_def first_short_def u8_of_byte write_slice_emit fun_eq_iff)
next
  case False
  then obtain ty where ty: "long_type (hdr_pkt_type hdr) = Some ty" "hdr_pkt_type hdr \<noteq> OneRTT"
    using assms by (cases "hdr_pkt_type hdr") (auto simp: long_type_def header_wf_def)
  have w: "hdr_version hdr < 4294967296" "length (hdr_dcid hdr) < 256" "length (hdr_scid hdr) < 256"
    using assms False by (auto simp: header_wf_def MAX_CID_LEN_def)
  have t: "(case hdr_pkt_type hdr of
       Initial \<Rightarrow> (case hdr_token hdr of Some v \<Rightarrow> rbind (write_varint (length v) b) (write_slice v) | None \<Rightarrow> write_varint 0 b)
     | Retry \<Rightarrow> (case hdr_token hdr of None \<Rightarrow> Panic | Some v \<Rightarrow> write_slice v b)
     | _ \<Rightarrow> Ok b) = emit (token_bytes hdr) b" for b
    using assms by (auto simp: token_bytes_def header_wf_def varint.write_emit write_slice_emit varint_slice_def VINT_MAX_def
        split: PacketType.split option.split)
  show ?thesis using ty w
    by (simp add: write_header_def t header_bytes_def first_long_def[symmetric] u8_of_byte u32.write_emit u8.write_emit
        write_slice_emit u8_slice_def fun_eq_iff)
qed


lemma cid_new_id: "length c \<le> MAX_CID_LEN \<Longrightarrow> cid_new c = c"
  by (simp add: cid_new_def)

lemma read_cid_back: "length c \<le> MAX_CID_LEN \<Longrightarrow> read_cid v (u8_slice c @ rest) = Ok (c, rest)"
  using u8.read_back[of "length c" "c @ rest"]
  by (simp add: read_cid_def u8_slice_def read_bytes_eq MAX_CID_LEN_def)

lemma read_token_back:
  assumes "header_wf hdr" "hdr_pkt_type hdr = Retry \<Longrightarrow> length rest = TAG_LEN"
  shows "read_token (hdr_pkt_type hdr) (token_bytes hdr @ rest) = Ok (hdr_token hdr, rest)"
proof (cases "hdr_pkt_type hdr = Initial")
  case True
  show ?thesis
  proof (cases "hdr_token hdr")
    case None
    then show ?thesis using True varint.read_back[of 0 rest] by (simp add: read_token_def token_bytes_def VINT_MAX_def)
  next
    case (Some v)
    then show ?thesis using True assms(1) varint.read_back[of "length v" "v @ rest"]
      by (simp add: read_token_def token_bytes_def varint_slice_def header_wf_def read_bytes_eq)
  qed
qed (use assms in \<open>auto simp: read_token_def token_bytes_def header_wf_def read_bytes_eq sub64_def split: PacketType.split\<close>)

text \<open>
  C17: A packet header is read back as it was written: for every header the code builds, \<open>to_bytes\<close>
  succeeds on a buffer that is long enough, and \<open>from_bytes\<close> on those bytes and whatever follows
  consumes exactly them and returns the type, version, connection ids and token; the fields under
  header protection are left for \<open>decrypt_header\<close>. After a Retry header exactly the integrity tag
  follows.
\<close>

theorem header_roundtrip:
  assumes wf: "header_wf hdr" and cap: "length (header_bytes hdr) \<le> cap"
    and retry: "hdr_pkt_type hdr = Retry \<Longrightarrow> length rest = TAG_LEN"
  shows "hdr_to_bytes hdr cap = Ok (header_bytes hdr) \<and>
    hdr_from_bytes (header_bytes hdr @ rest) (length (hdr_dcid hdr)) =
      Ok (hdr\<lparr>hdr_pkt_num_len := 0, hdr_pkt_num := 0, hdr_key_phase := False,
            hdr_version := if hdr_pkt_type hdr = OneRTT then 0 else hdr_version hdr,
            hdr_scid := if hdr_pkt_type hdr = OneRTT then [] else hdr_scid hdr\<rparr>, length (header_bytes hdr))"
proof (intro conjI)
  show "hdr_to_bytes hdr cap = Ok (header_bytes hdr)"
    using cap by (simp add: hdr_to_bytes_def write_header_emit[OF wf] emit_total)
  have c: "length (hdr_dcid hdr) \<le> MAX_CID_LEN" "length (hdr_scid hdr) \<le> MAX_CID_LEN" "hdr_pkt_num_len hdr \<le> 4"
    using wf by (simp_all add: header_wf_def)
  show "hdr_from_bytes (header_bytes hdr @ rest) (length (hdr_dcid hdr)) =
      Ok (hdr\<lparr>hdr_pkt_num_len := 0, hdr_pkt_num := 0, hdr_key_phase := False,
            hdr_version := if hdr_pkt_type hdr = OneRTT then 0 else hdr_version hdr,
            hdr_scid := if hdr_pkt_type hdr = OneRTT then [] else hdr_scid hdr\<rparr>, length (header_bytes hdr))"
  proof (cases "hdr_pkt_type hdr = OneRTT")
    case True
    then show ?thesis using wf first_short_bits(1)[OF c(3)]
      by (simp add: hdr_from_bytes_def header_bytes_def long_type_def u8_of_byte read_bytes_eq parsed_header_def sub64_def
          cid_new_id[OF c(1)] header_wf_def) (simp add: cid_new_def)
  next
    case False
    then obtain ty where ty: "long_type (hdr_pkt_type hdr) = Some ty" "ty \<in> {0, 1, 2, 3}"
      "\<And>v f. 0 < v \<Longrightarrow> drop_bit 4 (f AND PKT_TYPE_MASK) = ty \<Longrightarrow> decode_type v f = Ok (hdr_pkt_type hdr)"
      using wf by (cases "hdr_pkt_type hdr") (auto simp: long_type_def header_wf_def decode_type_def)
    have v: "0 < hdr_version hdr" "hdr_version hdr < 4294967296" using wf False by (auto simp: header_wf_def)
    show ?thesis using False v ty(1) first_long_bits[OF c(3) ty(2)] ty(3)[OF v(1) first_long_bits(3)[OF c(3) ty(2)]]
        read_token_back[OF wf retry] u32.read_back[OF v(2)]
      by (simp add: hdr_from_bytes_def header_bytes_def u8_of_byte read_cid_back c cid_new_id parsed_header_def sub64_def)
  qed
qed


definition demo_header :: PacketHeader where
  "demo_header =
     \<lparr>hdr_pkt_type = Initial, hdr_version = 1, hdr_dcid = [1, 2, 3], hdr_scid = [4], hdr_pkt_num_len = 2,
      hdr_pkt_num = 7, hdr_token = Some [9, 9], hdr_key_phase = False\<rparr>"

lemma demo_header_wf: "header_wf demo_header" "length (header_bytes demo_header) = 14"
  by (simp_all add: header_wf_def demo_header_def MAX_CID_LEN_def VINT_MAX_def header_bytes_def long_type_def
      token_bytes_def varint_slice_def u8_slice_def varint_bytes_def)

theorem header_roundtrip_witness:
  "hdr_from_bytes (header_bytes demo_header @ [0, 0]) 3 = Ok (demo_header\<lparr>hdr_pkt_num_len := 0, hdr_pkt_num := 0\<rparr>, 14)"
  using header_roundtrip[OF demo_header_wf(1), of 20 "[0, 0]"] demo_header_wf(2)
  by (simp add: demo_header_def numeral_3_eq_3)

text \<open>The decoder on arbitrary bytes: one rule for every reader in the chain.\<close>

lemma safe_elim:
  assumes "safe P b r" "\<And>x b'. P x \<Longrightarrow> suffix b' b \<Longrightarrow> Q (f x b')" "\<And>e. Q (Err e)"
  shows "Q (rbind r (\<lambda>(x, b'). f x b'))"
  using assms by (cases "(P, b, r)" rule: safe.cases) auto

lemma read_fixed_safe: "safe (\<lambda>n. n < 256) b (read_u8 b)" "safe (\<lambda>n. n < 2 ^ 32) b (read_u32 b)"
proof -
  have "be_value (take k b) < 256 ^ k" if "k \<le> length b" for k using be_value_less[of "take k b"] that by simp
  from this[of 1] this[of 4] show "safe (\<lambda>n. n < 256) b (read_u8 b)" "safe (\<lambda>n. n < 2 ^ 32) b (read_u32 b)"
    by (simp_all add: read_u8_eq read_u32_eq suffix_drop not_less Suc_le_eq)
qed

lemma read_cid_safe: "safe (\<lambda>_. True) b (read_cid v b)"
  unfolding read_cid_def
  by (rule safe_bind[OF read_fixed_safe(1)]) (auto intro: safe_weaken[OF read_bytes_safe])

lemma read_token_safe: "safe (\<lambda>_. True) b (read_token ty b)"
proof -
  have "safe (\<lambda>_. True) b (rbind (read_varint b) (\<lambda>(n, b).
      if n > 0 then rbind (read_bytes n b) (\<lambda>(t, b). Ok (Some t, b)) else Ok (None, b)))"
    by (rule safe_bind[OF read_varint_safe]) (auto intro!: safe_bind[OF read_bytes_safe])
  moreover have "safe (\<lambda>_. True) b (rbind (read_bytes n b) (\<lambda>(t, b). Ok (Some t, b)))" for n
    by (rule safe_bind[OF read_bytes_safe]) simp
  ultimately show ?thesis by (simp add: read_token_def sub64_def split: PacketType.split)
qed

definition header_sane :: "bytes \<Rightarrow> nat \<Rightarrow> (PacketHeader \<times> nat) qres \<Rightarrow> bool" where
  "header_sane buf dcid_len r \<longleftrightarrow>
     (case r of
        Panic \<Rightarrow> False
      | Err e \<Rightarrow> True
      | Ok (hdr, n) \<Rightarrow> 0 < n \<and> n \<le> length buf \<and> length (hdr_dcid hdr) \<le> MAX_CID_LEN \<and> length (hdr_scid hdr) \<le> MAX_CID_LEN \<and>
          hdr_version hdr < 2 ^ 32 \<and> (hdr_pkt_type hdr = VersionNegotiation \<longleftrightarrow> long_header (buf ! 0) \<and> hdr_version hdr = 0) \<and>
          (hdr_pkt_type hdr = OneRTT \<longleftrightarrow> \<not> long_header (buf ! 0)))"

lemma header_sane_parsed:
  assumes "buf = first # b0" "suffix b b0" "version < 2 ^ 32"
    "long_header first \<Longrightarrow> decode_type version first = Ok ty" "\<not> long_header first \<Longrightarrow> ty = OneRTT"
  shows "header_sane buf n (rbind (sub64 (length buf) (length b)) (\<lambda>n. Ok (parsed_header ty version dcid scid token, n)))"
proof -
  have "length b \<le> length b0" using assms(2) by (rule suffix_length_le)
  moreover have "long_header first \<Longrightarrow> ty \<noteq> OneRTT \<and> (ty = VersionNegotiation \<longleftrightarrow> version = 0)"
    using assms(4) by (auto simp: decode_type_def Let_def split: if_splits)
  ultimately show ?thesis using assms(1,3,5) by (auto simp: header_sane_def parsed_header_def cid_new_def sub64_def)
qed

lemma hdr_from_bytes_sane: "header_sane buf dcid_len (hdr_from_bytes buf dcid_len)"
proof (cases buf)
  case Nil
  then show ?thesis by (simp add: hdr_from_bytes_def read_u8_eq header_sane_def)
next
  case (Cons first b0)
  note elim = safe_elim[where Q = "header_sane buf dcid_len"]
  have err: "header_sane buf dcid_len (Err e)" for e by (simp add: header_sane_def)
  show ?thesis
  proof (cases "long_header first")
    case False
    have "header_sane buf dcid_len (rbind (read_bytes dcid_len b0) (\<lambda>(dcid, b).
        rbind (sub64 (length buf) (length b)) (\<lambda>n. Ok (parsed_header OneRTT 0 dcid [] None, n))))"
      by (rule elim[OF read_bytes_safe]) (auto intro!: header_sane_parsed[OF Cons] simp: False err)
    then show ?thesis using False Cons by (simp add: hdr_from_bytes_def u8_of_byte Let_def)
  next
    case True
    have "header_sane buf dcid_len (rbind (read_u32 b0) (\<lambda>(version, b). rbind (decode_type version first) (\<lambda>ty.
       rbind (read_cid version b) (\<lambda>(dcid, b). rbind (read_cid version b) (\<lambda>(scid, b).
       rbind (read_token ty b) (\<lambda>(token, b). rbind (sub64 (length buf) (length b)) (\<lambda>n.
         Ok (parsed_header ty version dcid scid token, n))))))))"
    proof (rule elim[OF read_fixed_safe(2)])
      fix version :: nat and b assume v: "version < 2 ^ 32" "suffix b b0"
      have "decode_type version first \<noteq> Panic" by (simp add: decode_type_def Let_def)
      then show "header_sane buf dcid_len (rbind (decode_type version first) (\<lambda>ty. rbind (read_cid version b) (\<lambda>(dcid, b).
          rbind (read_cid version b) (\<lambda>(scid, b). rbind (read_token ty b) (\<lambda>(token, b).
            rbind (sub64 (length buf) (length b)) (\<lambda>n. Ok (parsed_header ty version dcid scid token, n)))))))"
      proof (cases "decode_type version first")
        case (Ok ty)
        show ?thesis unfolding Ok rbind.simps
        proof (rule elim[OF read_cid_safe _ err], rule elim[OF read_cid_safe _ err], rule elim[OF read_token_safe _ err])
          fix dcid scid token b1 b2 b3 assume "suffix b1 b" "suffix b2 b1" "suffix b3 b2"
          then have "suffix b3 b0" using v(2) by (meson suffix_order.order_trans)
          then show "header_sane buf dcid_len (rbind (sub64 (length buf) (length b3)) (\<lambda>n.
              Ok (parsed_header ty version dcid scid token, n)))"
            by (rule header_sane_parsed[OF Cons _ v(1)]) (use True Ok in auto)
        qed
      qed (simp_all add: err)
    qed (rule err)
    then show ?thesis using True Cons by (simp add: hdr_from_bytes_def u8_of_byte Let_def)
  qed
qed

text \<open>
  What an accepted header says about the bytes: reading a field back gives the bytes it was
  read from, so no identifier of a supported version was cut.
\<close>

lemma be_bytes_add: "k \<le> m \<Longrightarrow> be_bytes k (a * 256 ^ m + v) = be_bytes k v"
proof (induction k)
  case (Suc k)
  then obtain d where d: "m = Suc k + d" using le_Suc_ex by blast
  have e: "a * 256 ^ m = (a * 256 ^ d * 256) * 256 ^ k" by (simp add: d power_add)
  have "(a * 256 ^ m + v) div 256 ^ k = a * 256 ^ d * 256 + v div 256 ^ k" unfolding e by simp
  then have "word_of_nat ((a * 256 ^ m + v) div 256 ^ k) = (word_of_nat (v div 256 ^ k) :: byte)"
    using word_of_nat_eq_0_iff[of "256 * (a * 256 ^ d)", where 'a = 8] by (simp add: mult.commute)
  then show ?case using Suc by (simp add: be_bytes.simps)
qed (simp add: be_bytes.simps)

lemma be_bytes_be_value: "be_bytes (length bs) (be_value bs) = bs"
proof (induction bs)
  case (Cons x bs)
  have "(unat x * 256 ^ length bs + be_value bs) div 256 ^ length bs = unat x" using be_value_less[of bs] by simp
  then show ?case using Cons be_bytes_add[of "length bs" "length bs" "unat x" "be_value bs"] by (simp add: be_bytes.simps)
qed (simp add: be_bytes.simps)

lemma read_u32_field: "read_u32 b = Ok (v, b') \<Longrightarrow> b = be_bytes 4 v @ b'"
  using be_bytes_be_value[of "take 4 b"] by (auto simp: read_u32_eq split: if_splits)

lemma read_bytes_field: "read_bytes n b = Ok (c, b') \<Longrightarrow> b = c @ b' \<and> length c = n"
  by (auto simp: read_bytes_eq split: if_splits)

lemma read_cid_field:
  "read_cid v b = Ok (c, b') \<Longrightarrow> version_is_supported v \<Longrightarrow> b = u8_slice c @ b' \<and> length c \<le> MAX_CID_LEN"
  by (cases b) (auto simp: read_cid_def u8_slice_def u8_of_byte read_u8_eq be_bytes.simps split: if_splits
      dest!: read_bytes_field)

text \<open>
  The token field of a type: a length and as many bytes, no token when the length is zero; or all
  bytes before the integrity tag; or nothing.
\<close>

definition token_field :: "PacketType \<Rightarrow> bytes option \<Rightarrow> bytes \<Rightarrow> bytes \<Rightarrow> bool" where
  "token_field ty token field rest \<longleftrightarrow>
     (case ty of
        Initial \<Rightarrow>
          (let t = (case token of None \<Rightarrow> [] | Some t \<Rightarrow> t)
           in read_varint (field @ rest) = Ok (length t, t @ rest) \<and> token \<noteq> Some [])
      | Retry \<Rightarrow> token = Some field \<and> length rest = TAG_LEN
      | _ \<Rightarrow> token = None \<and> field = [])"

lemma read_token_field:
  assumes "read_token ty b = Ok (token, b')"
  shows "\<exists>field. b = field @ b' \<and> token_field ty token field b'"
proof (cases "ty = Initial \<or> ty = Retry")
  case False
  then show ?thesis using assms by (auto simp: read_token_def token_field_def split: PacketType.splits)
next
  case True
  then show ?thesis
  proof
    assume ty: "ty = Retry"
    have n: "\<not> length b < TAG_LEN" using assms ty by (auto simp: read_token_def)
    with assms obtain t where t: "read_bytes (length b - TAG_LEN) b = Ok (t, b')" "token = Some t"
      unfolding ty read_token_def by auto
    from read_bytes_field[OF t(1)] have b: "b = t @ b'" "length t = length b - TAG_LEN" by blast+
    from arg_cong[OF b(1), of length] b(2) n have "length b' = TAG_LEN" unfolding length_append by linarith
    then show ?thesis using ty t(2) b(1) by (auto simp: token_field_def)
  next
    assume ty: "ty = Initial"
    have "suffix b' b" using read_token_safe[of b ty] assms by simp
    then obtain field where b: "b = field @ b'" by (auto simp: suffix_def)
    then show ?thesis using assms ty
      by (auto simp: read_token_def token_field_def Let_def split: if_splits dest!: read_bytes_field)
  qed
qed

lemma hdr_from_bytes_long:
  assumes "hdr_from_bytes buf dcid_len = Ok (hdr, n)" "version_is_supported (hdr_version hdr)"
  shows "\<exists>field rest.
    buf = buf ! 0 # be_bytes 4 (hdr_version hdr) @ u8_slice (hdr_dcid hdr) @ u8_slice (hdr_scid hdr) @ field @ rest \<and>
    n = length buf - length rest \<and> token_field (hdr_pkt_type hdr) (hdr_token hdr) field rest"
proof -
  obtain first b0 where buf: "buf = first # b0" using assms(1) by (cases buf) (auto simp: hdr_from_bytes_def read_u8_eq)
  have "long_header first" using assms unfolding hdr_from_bytes_def buf
    by (auto simp: u8_of_byte parsed_header_def version_is_supported_def QUIC_VERSION_V1_def Let_def split: if_splits)
  then obtain version b1 ty dcid b2 scid b3 token b4 where
    "read_u32 b0 = Ok (version, b1)" and "decode_type version first = Ok ty" and
    c: "read_cid version b1 = Ok (dcid, b2)" "read_cid version b2 = Ok (scid, b3)" and
    "read_token ty b3 = Ok (token, b4)" and n: "n = length buf - length b4" and
    hdr: "hdr = parsed_header ty version dcid scid token"
    using assms(1) unfolding hdr_from_bytes_def buf by (auto simp: u8_of_byte Let_def)
  then have "b0 = be_bytes 4 version @ b1" "\<exists>field. b3 = field @ b4 \<and> token_field ty token field b4"
    using read_u32_field read_token_field by blast+
  moreover have "version_is_supported version" using assms(2) by (simp add: hdr parsed_header_def)
  from read_cid_field[OF c(1) this] read_cid_field[OF c(2) this]
  have "b1 = u8_slice dcid @ u8_slice scid @ b3" "cid_new dcid = dcid" "cid_new scid = scid"
    by (simp_all add: cid_new_id)
  ultimately show ?thesis using n by (auto simp: buf hdr parsed_header_def)
qed

lemma hdr_from_bytes_short:
  assumes "hdr_from_bytes buf dcid_len = Ok (hdr, n)" "\<not> long_header (buf ! 0)"
  shows "n = 1 + dcid_len \<and> hdr_dcid hdr = cid_new (take dcid_len (drop 1 buf))"
proof -
  obtain first b0 where buf: "buf = first # b0" using assms(1) by (cases buf) (auto simp: hdr_from_bytes_def read_u8_eq)
  then show ?thesis using assms
    by (auto simp: hdr_from_bytes_def u8_of_byte Let_def parsed_header_def read_bytes_eq split: if_splits)
qed

text \<open>
  C18: On arbitrary bytes, for instance the first datagram of an unknown peer, \<open>from_bytes\<close> of a packet
  header does not panic. A header it accepts took at least one byte and no more than there are,
  has connection ids of at most 20 bytes, and its type agrees with the form bit and the version.
  With a short header the identifier is what follows the first byte. With a
  version the endpoint supports the bytes consumed are exactly the first byte, the version, the two identifiers
  with their lengths and the token field: none of them was cut, and a Retry leaves the integrity tag.
\<close>

theorem header_decode_safe:
  "hdr_from_bytes buf dcid_len \<noteq> Panic \<and>
   (\<forall>hdr n. hdr_from_bytes buf dcid_len = Ok (hdr, n) \<longrightarrow>
      0 < n \<and> n \<le> length buf \<and> length (hdr_dcid hdr) \<le> MAX_CID_LEN \<and> length (hdr_scid hdr) \<le> MAX_CID_LEN \<and>
      (hdr_pkt_type hdr = VersionNegotiation \<longleftrightarrow> long_header (buf ! 0) \<and> hdr_version hdr = 0) \<and>
      (hdr_pkt_type hdr = OneRTT \<longleftrightarrow> \<not> long_header (buf ! 0)) \<and>
      (hdr_pkt_type hdr = OneRTT \<longrightarrow> n = 1 + dcid_len \<and> hdr_dcid hdr = cid_new (take dcid_len (drop 1 buf))) \<and>
      (version_is_supported (hdr_version hdr) \<longrightarrow> (\<exists>field rest.
         buf = buf ! 0 # be_bytes 4 (hdr_version hdr) @ u8_slice (hdr_dcid hdr) @ u8_slice (hdr_scid hdr) @ field @ rest \<and>
         n = length buf - length rest \<and> token_field (hdr_pkt_type hdr) (hdr_token hdr) field rest)))"
proof -
  have sane: "header_sane buf dcid_len (hdr_from_bytes buf dcid_len)" by (rule hdr_from_bytes_sane)
  then have "hdr_from_bytes buf dcid_len \<noteq> Panic" by (auto simp: header_sane_def)
  then show ?thesis
    using sane hdr_from_bytes_short[of buf dcid_len] hdr_from_bytes_long[of buf dcid_len]
    by (auto simp: header_sane_def simp del: length_append)
qed

theorem header_decode_safe_witness:
  "\<exists>hdr field rest. hdr_from_bytes [0xc0, 0, 0, 0, 1, 1, 7, 0, 2, 8, 9, 5] 0 = Ok (hdr, 11) \<and> hdr_token hdr = Some [8, 9] \<and>
     [0xc0, 0, 0, 0, 1, 1, 7, 0, 2, 8, 9, 5] = 0xc0 # be_bytes 4 1 @ u8_slice [7] @ u8_slice [] @ field @ rest \<and>
     length rest = 1 \<and> token_field Initial (Some [8, 9]) field rest"
proof -
  let ?buf = "[0xc0, 0, 0, 0, 1, 1, 7, 0, 2, 8, 9, 5] :: bytes"
  have d: "hdr_from_bytes ?buf 0 = Ok (parsed_header Initial 1 [7] [] (Some [8, 9]), 11)"
    by code_simp
  have p: "hdr_version (parsed_header ty v c c' tok) = v" "hdr_token (parsed_header ty v c c' tok) = tok"
    "hdr_pkt_type (parsed_header ty v c c' tok) = ty" for ty v c c' tok by (simp_all add: parsed_header_def)
  have c: "hdr_dcid (parsed_header Initial 1 [7] [] tok) = [7]" "hdr_scid (parsed_header Initial 1 [7] [] tok) = []" for tok
    by (simp_all add: parsed_header_def cid_new_def MAX_CID_LEN_def)
  have "version_is_supported (hdr_version (parsed_header Initial 1 [7] [] (Some [8, 9])))"
    by (simp add: p version_is_supported_def QUIC_VERSION_V1_def)
  then obtain field rest where "?buf = ?buf ! 0 # be_bytes 4 1 @ u8_slice [7] @ u8_slice [] @ field @ rest"
    "11 = length ?buf - length rest" "token_field Initial (Some [8, 9]) field rest"
    using header_decode_safe[of ?buf 0, THEN conjunct2, THEN spec, THEN spec, THEN mp, OF d] unfolding p c by blast
  moreover from this(2) have "length rest = 1" by simp
  moreover have "?buf ! 0 = 0xc0" by simp
  ultimately show ?thesis using d p(2) by metis
qed


section \<open>Packet protection\<close>

text \<open>A sealing and an opening key derived from one secret.\<close>

definition keys_match :: "aead_key \<Rightarrow> aead_key \<Rightarrow> bool" where
  "keys_match ks ko \<longleftrightarrow> ak_iv ko = ak_iv ks \<and> ak_mask ko = ak_mask ks \<and>
     (\<forall>sample m. ak_mask ks sample = Some m \<longrightarrow> length m = 5) \<and>
     (\<forall>nonce ad pt ct tag. ak_seal ks nonce ad pt [] = Some (ct, tag) \<longrightarrow>
        length ct = length pt \<and> length tag = TAG_LEN \<and> ak_open ko nonce ad (ct @ tag) = Some pt)"

lemma mask_first_form: "long_header (mask_first x m) = long_header x"
proof -
  have "(x XOR (m AND k)) AND 0x80 = x AND 0x80" if "k AND 0x80 = 0" for k
    using that by (simp add: bit.conj_xor_distrib2 and.assoc)
  then show ?thesis by (simp add: mask_first_def long_header_def)
qed

lemma mask_first_undo: "mask_first (mask_first x m) m = x"
  using mask_first_form[of x m] by (simp add: mask_first_def xor.assoc)

lemma length_mask_num [simp]: "length (mask_num xs m) = length xs"
  by (simp add: mask_num_def)

lemma mask_num_undo: "mask_num (mask_num xs m) m = xs"
  by (rule nth_equalityI) (simp_all add: mask_num_def xor.assoc)

lemma encrypt_header_eq:
  assumes "H \<noteq> []" "length N \<le> 4" "4 - length N + 16 \<le> length P"
    "ak_mask key (take 16 (drop (4 - length N) P)) = Some m"
  shows "encrypt_header (H @ N) (length N) P key = Ok ((mask_first (H ! 0) (m ! 0) # tl H) @ mask_num N m)"
  using assms by (cases H) (simp_all add: encrypt_header_def new_mask_def sub64_def)

lemma encrypt_header_Ok:
  assumes "encrypt_header (H @ N) (length N) P key = Ok x"
  shows "length N \<le> 4 \<and> 4 - length N + 16 \<le> length P \<and> (\<exists>m. ak_mask key (take 16 (drop (4 - length N) P)) = Some m)"
  using assms by (auto simp: encrypt_header_def new_mask_def sub64_def split: if_splits option.splits)

lemma decrypt_header_eq:
  assumes m: "ak_mask key (take 16 (drop (4 - length N) C)) = Some m" and H: "H \<noteq> []"
    and n: "num_len_of (H ! 0) = length N" "0 < length N" "length N \<le> 4" and C: "4 - length N + 16 \<le> length C"
    and k: "read_pkt_num (length N) N = Ok k"
  shows "decrypt_header (((mask_first (H ! 0) (m ! 0) # tl H) @ mask_num N m) @ C) (length H) hdr key False =
    Ok (H @ N @ C, let hdr1 = hdr\<lparr>hdr_pkt_num_len := length N, hdr_pkt_num := k\<rparr>
                   in if hdr_pkt_type hdr = OneRTT
                      then hdr1\<lparr>hdr_key_phase := (H ! 0 AND HEADER_KEY_PHASE_BIT \<noteq> 0)\<rparr> else hdr1)"
proof -
  obtain f T where T: "H = f # T" using H by (cases H) auto
  let ?buf = "((mask_first f (m ! 0) # T) @ mask_num N m) @ C"
  have "length H + 4 = length ((mask_first f (m ! 0) # T) @ mask_num N m) + (4 - length N)" using n(3) by (simp add: T)
  then have d: "drop (length H + 4) ?buf = drop (4 - length N) C" by (simp only: drop_append) simp
  have u: "unmask_header ?buf (length H) key False = Ok (f, (mask_first f (m ! 0) # T) @ N @ C)"
    using n(1) m unfolding unmask_header_def d
    by (simp add: new_mask_def T mask_first_undo Let_def mask_num_undo)
  have l: "\<not> length ?buf < length H + 4 + 16" using C n by (simp add: T)
  show ?thesis unfolding decrypt_header_def T list.sel nth_Cons_0
    using u l k n(1) by (simp add: T Let_def)
qed


lemma read_pkt_num_eq:
  assumes "0 < length N" "length N \<le> 4"
  shows "read_pkt_num (length N) N = Ok (be_value N)"
proof -
  consider a where "N = [a]" | a b where "N = [a, b]" | a b c where "N = [a, b, c]" | a b c d where "N = [a, b, c, d]"
    using assms by (auto simp: le_Suc_eq length_Suc_conv numeral_eq_Suc)
  then show ?thesis
    by cases (simp_all add: read_pkt_num_def read_u8_eq read_u16_eq read_u24_eq read_u32_eq push_bit_eq_mult algebra_simps)
qed

text \<open>
  C7: What was protected is recovered: when \<open>encrypt_packet\<close> has sealed a payload behind a header whose
  first byte announces the length of the packet number, the receiver with the matching key, given
  the packet and any bytes coalesced behind it, gets the first byte, the packet number and the key
  phase from \<open>decrypt_header\<close>, and exactly the payload from \<open>decrypt_payload\<close>.
\<close>

theorem protection_roundtrip:
  assumes km: "keys_match ks ko" and H: "H \<noteq> []" "num_len_of (H ! 0) = length N"
    and N: "0 < length N" "length N \<le> 4" and P: "4 \<le> length N + length P"
    and enc: "encrypt_packet (H @ N @ P @ room) cid_seq pn (length N) (length P) (length H + length N) None ks = Ok (buf, plen)"
  shows "\<exists>buf' hdr'. decrypt_header (take plen buf @ rest) (length H) hdr ko False = Ok (buf', hdr') \<and>
    hdr_pkt_num_len hdr' = length N \<and> hdr_pkt_num hdr' = be_value N \<and>
    (hdr_pkt_type hdr = OneRTT \<longrightarrow> hdr_key_phase hdr' = (H ! 0 AND HEADER_KEY_PHASE_BIT \<noteq> 0)) \<and>
    decrypt_payload buf' (length H + length N) (plen - (length H + length N)) cid_seq pn ko = Ok P"
proof -
  obtain C' clen where s: "seal ks cid_seq pn (H @ N) (P @ room) (length P) None = Ok (C', clen)"
    and h: "\<exists>h. encrypt_header (H @ N) (length N) C' ks = Ok h \<and> buf = h @ C' \<and> plen = length H + length N + clen"
    using enc by (auto simp: encrypt_packet_def Let_def split: if_splits)
  obtain nonce ct tag where n: "build_nonce (ak_iv ks) cid_seq pn = Ok nonce" "ak_seal ks nonce (H @ N) P [] = Some (ct, tag)"
    and C': "C' = ct @ tag @ drop (length P + length tag) (P @ room)" "clen = length P + length tag"
    using s by (auto simp: seal_def split: if_splits option.splits)
  have k: "length ct = length P" "length tag = 16" "ak_open ko nonce (H @ N) (ct @ tag) = Some P"
    using km n(2) by (auto simp: keys_match_def)
  obtain m where m: "ak_mask ks (take 16 (drop (4 - length N) C')) = Some m" "4 - length N + 16 \<le> length C'"
    using h encrypt_header_Ok by blast
  let ?C = "ct @ tag @ rest"
  have buf: "buf = ((mask_first (H ! 0) (m ! 0) # tl H) @ mask_num N m) @ C'" "plen = length H + length N + clen"
    using h encrypt_header_eq[OF H(1) N(2) m(2,1)] by auto
  let ?X = "((mask_first (H ! 0) (m ! 0) # tl H) @ mask_num N m) @ ct @ tag"
  have "buf = ?X @ drop (length P + length tag) (P @ room)" "plen = length ?X" using H(1) k C' buf by (cases H; simp)+
  then have "take plen buf = ?X" by (metis append_eq_conv_conj)
  then have "take plen buf @ rest = ((mask_first (H ! 0) (m ! 0) # tl H) @ mask_num N m) @ ?C" by simp
  moreover have "take 16 (drop (4 - length N) ?C) = take 16 (drop (4 - length N) C')"
    using P N k by (simp add: C' take_append drop_append)
  moreover have "ak_mask ko = ak_mask ks" "ak_iv ko = ak_iv ks" using km by (simp_all add: keys_match_def)
  ultimately obtain hdr' where d: "decrypt_header (take plen buf @ rest) (length H) hdr ko False = Ok (H @ N @ ?C, hdr')"
    "hdr_pkt_num_len hdr' = length N" "hdr_pkt_num hdr' = be_value N"
    "hdr_pkt_type hdr = OneRTT \<Longrightarrow> hdr_key_phase hdr' = (H ! 0 AND HEADER_KEY_PHASE_BIT \<noteq> 0)"
    using decrypt_header_eq[of ko N ?C m H "be_value N" hdr] read_pkt_num_eq[OF N] m H N P k by (auto simp: Let_def)
  have "decrypt_payload (H @ N @ ?C) (length H + length N) (plen - (length H + length N)) cid_seq pn ko = Ok P"
    using n(1) k C'(2) buf(2) km by (simp add: decrypt_payload_def open_ciphertext_def keys_match_def)
  then show ?thesis using d by blast
qed


definition demo_key :: aead_key where
  "demo_key =
     \<lparr>ak_iv = replicate 12 0, ak_seal = (\<lambda>nonce ad pt extra. Some (pt, replicate 16 7)),
      ak_open = (\<lambda>nonce ad c. Some (take (length c - 16) c)), ak_mask = (\<lambda>sample. Some [1, 2, 3, 4, 5])\<rparr>"

theorem protection_roundtrip_witness:
  "keys_match demo_key demo_key \<and>
   (\<exists>buf plen buf' hdr'.
      encrypt_packet ([0x41] @ [1, 7] @ [9, 8] @ replicate 16 0) None 263 2 2 3 None demo_key = Ok (buf, plen) \<and>
      decrypt_header (take plen buf @ [5]) 1 demo_header demo_key False = Ok (buf', hdr') \<and> hdr_pkt_num hdr' = 263 \<and>
      decrypt_payload buf' 3 (plen - 3) None 263 demo_key = Ok [9, 8])"
proof -
  have km: "keys_match demo_key demo_key" by (auto simp: keys_match_def demo_key_def)
  have "\<exists>x. encrypt_packet ([0x41] @ [1, 7] @ [9, 8] @ replicate 16 0) None 263 (length [1, 7 :: byte]) (length [9, 8 :: byte])
      (length [0x41 :: byte] + length [1, 7 :: byte]) None demo_key = Ok x"
    by (simp add: encrypt_packet_def seal_def build_nonce_def demo_key_def encrypt_header_def new_mask_def sub64_def)
  then obtain buf plen where e: "encrypt_packet ([0x41] @ [1, 7] @ [9, 8] @ replicate 16 0) None 263 (length [1, 7 :: byte])
      (length [9, 8 :: byte]) (length [0x41 :: byte] + length [1, 7 :: byte]) None demo_key = Ok (buf, plen)" by auto
  have n: "num_len_of ([0x41] ! 0) = length [1, 7 :: byte]" by (simp add: num_len_of_def)
  have v: "be_value [1, 7] = 263" "length [1, 7 :: byte] = 2" "length [9, 8 :: byte] = 2" "length [0x41 :: byte] = 1"
    "(1 :: nat) + 2 = 3" by (simp_all add: be_value_def)
  have "\<exists>buf' hdr'. decrypt_header (take plen buf @ [5]) (length [0x41 :: byte]) demo_header demo_key False = Ok (buf', hdr') \<and>
      hdr_pkt_num hdr' = be_value [1, 7] \<and>
      decrypt_payload buf' (length [0x41 :: byte] + length [1, 7 :: byte]) (plen - (length [0x41 :: byte] + length [1, 7 :: byte]))
        None 263 demo_key = Ok [9, 8]"
    using protection_roundtrip[OF km _ n _ _ _ e, of "[5]" demo_header] by auto
  with km e show ?thesis unfolding v by blast
qed

lemma xor_left_inj: "a XOR b = a XOR c \<Longrightarrow> b = c" for a b c :: byte
  by (drule arg_cong[of _ _ "\<lambda>x. a XOR x"]) (simp add: xor.assoc[symmetric])

lemma xor_zip_inj: "xor_zip as bs = xor_zip as cs \<Longrightarrow> length bs = length cs \<Longrightarrow> length bs \<le> length as \<Longrightarrow> bs = cs"
proof (induction as bs arbitrary: cs rule: xor_zip.induct)
  case (1 a as b bs)
  then obtain c cs' where "cs = c # cs'" by (cases cs) auto
  then show ?case using "1.prems" "1.IH"[of cs'] xor_left_inj by auto
qed auto

lemma be_bytes_inj: "be_bytes k m = be_bytes k n \<Longrightarrow> m < 256 ^ k \<Longrightarrow> n < 256 ^ k \<Longrightarrow> m = n"
  by (metis be_value_be_bytes mod_less)

lemma length_xor_zip [simp]: "length (xor_zip as bs) = length as"
  by (induction as bs rule: xor_zip.induct) auto

text \<open>
  C19: No nonce is used twice under one key: two packets that differ in the packet number, or with
  multipath in the sequence number of the connection id, are sealed with different nonces.
\<close>

theorem nonce_unique:
  assumes "build_nonce iv c m = Ok x" "build_nonce iv c' n = Ok x" "m < 2 ^ 64" "n < 2 ^ 64"
    and "(c = None) = (c' = None)" "\<And>s. c = Some s \<or> c' = Some s \<Longrightarrow> s < 2 ^ 32"
  shows "m = n \<and> c = c'"
proof -
  have len: "length iv = 12" using assms(1) by (auto simp: build_nonce_def split: if_splits)
  define pre where "pre = (\<lambda>c. case c of Some s \<Rightarrow> xor_zip (take 4 iv) (be_bytes 4 s) | None \<Rightarrow> take 4 iv)"
  have l: "length (pre c) = length (pre c')" using len by (auto simp: pre_def split: option.split)
  have "pre c @ xor_zip (drop 4 iv) (be_bytes 8 m) = pre c' @ xor_zip (drop 4 iv) (be_bytes 8 n)"
    using assms(1,2) len by (simp add: build_nonce_def pre_def)
  then have e: "pre c = pre c'" "xor_zip (drop 4 iv) (be_bytes 8 m) = xor_zip (drop 4 iv) (be_bytes 8 n)"
    using l by simp_all
  have "be_bytes 8 m = be_bytes 8 n" using xor_zip_inj[OF e(2)] len by simp
  moreover have "c = c'"
  proof (cases c)
    case (Some s)
    then obtain s' where c': "c' = Some s'" using assms(5) by auto
    have "be_bytes 4 s = be_bytes 4 s'" using xor_zip_inj[of "take 4 iv" "be_bytes 4 s" "be_bytes 4 s'"] e(1) Some c' len
      by (simp add: pre_def)
    then show ?thesis using be_bytes_inj[of 4 s s'] assms(6) Some c' by auto
  qed (use assms(5) in simp)
  ultimately show ?thesis using be_bytes_inj[of 8 m n] assms(3,4) by simp
qed

theorem nonce_unique_witness:
  "build_nonce (replicate 12 0) (Some 1) 7 \<noteq> build_nonce (replicate 12 0) (Some 1) 8"
proof -
  obtain x where x: "build_nonce (replicate 12 0) (Some 1) 7 = Ok x" by (simp add: build_nonce_def)
  then show ?thesis using nonce_unique[of "replicate 12 0" "Some 1" 7 x "Some 1" 8] by auto
qed

text \<open>
  C28: A Retry packet the server builds is accepted by the client that sent the original Initial: its
  integrity tag verifies, and its header gives back the token and both connection ids.
\<close>

theorem retry_accepted:
  assumes tag: "\<And>ad t. gcm_tag ad = Some t \<Longrightarrow> length t = TAG_LEN" and tok: "length token \<le> VINT_MAX"
    and cids: "length scid \<le> MAX_CID_LEN" "length dcid \<le> MAX_CID_LEN" "length odcid \<le> MAX_CID_LEN"
    and r: "retry gcm_tag scid dcid odcid token version cap = Ok pkt"
  shows "verify_retry_integrity_tag gcm_tag pkt odcid = Ok () \<and>
    (\<exists>n. hdr_from_bytes pkt k = Ok (parsed_header Retry version dcid scid (Some token), n) \<and> n + TAG_LEN = length pkt)"
proof -
  let ?hdr = "parsed_header Retry version dcid scid (Some token)"
  have wf: "header_wf ?hdr" using r cids
    by (auto simp: header_wf_def parsed_header_def cid_new_id retry_def version_is_supported_def QUIC_VERSION_V1_def split: if_splits)
  obtain t where t: "compute_retry_integrity_tag gcm_tag (header_bytes ?hdr) odcid = Ok t" "pkt = header_bytes ?hdr @ t"
    using r by (auto simp: retry_def hdr_to_bytes_def write_header_emit[OF wf] emit_def put_def write_slice_def split: if_splits)
  have l: "length t = TAG_LEN" using t(1) tag by (auto simp: compute_retry_integrity_tag_def split: option.splits)
  have "hdr_from_bytes (header_bytes ?hdr @ t) (length (hdr_dcid ?hdr)) = Ok (?hdr, length (header_bytes ?hdr))"
    using header_roundtrip[OF wf order_refl, of t] l by (simp add: parsed_header_def)
  moreover have "hdr_from_bytes pkt k = hdr_from_bytes pkt (length (hdr_dcid ?hdr))"
  proof -
    have "long_header (pkt ! 0)" "pkt \<noteq> []" using first_long_bits(1)[of 0 3] t(2)
      by (simp_all add: header_bytes_def parsed_header_def long_type_def)
    then show ?thesis by (cases pkt) (simp_all add: hdr_from_bytes_def u8_of_byte)
  qed
  ultimately show ?thesis using t l by (simp add: verify_retry_integrity_tag_def)
qed

theorem retry_accepted_witness:
  "\<exists>pkt. retry (\<lambda>ad. Some (replicate 16 1)) [1] [2, 3] [4] [5, 6] 1 100 = Ok pkt \<and>
    verify_retry_integrity_tag (\<lambda>ad. Some (replicate 16 1)) pkt [4] = Ok ()"
proof -
  let ?hdr = "parsed_header Retry 1 [2, 3] [1] (Some [5, 6])"
  have wf: "header_wf ?hdr" "length (header_bytes ?hdr) = 12"
    by (simp_all add: header_wf_def parsed_header_def cid_new_def MAX_CID_LEN_def header_bytes_def long_type_def
        token_bytes_def u8_slice_def)
  have "hdr_to_bytes ?hdr 100 = Ok (header_bytes ?hdr)"
    by (simp add: hdr_to_bytes_def write_header_emit[OF wf(1)] emit_total wf(2) del: One_nat_def)
  then have "\<exists>pkt. retry (\<lambda>ad. Some (replicate 16 1)) [1] [2, 3] [4] [5, 6] 1 100 = Ok pkt"
    using wf(2) by (simp add: retry_def version_is_supported_def QUIC_VERSION_V1_def
        compute_retry_integrity_tag_def write_u8_def write_slice_def put_def del: One_nat_def)
  then show ?thesis using retry_accepted[of "\<lambda>ad. Some (replicate 16 1)" "[5, 6]" "[1]" "[2, 3]" "[4]" 1 100]
    by (auto simp: VINT_MAX_def MAX_CID_LEN_def)
qed

end
