(* ===== verification/Cid.thy ===== *)
theory Cid
  imports Frame Op_Machine
begin

text \<open>
  The connection identifiers of a connection: \<open>src/src/connection/cid.rs\<close> in full. A \<open>VecDeque\<close> of
  items is the list from front to back; a reset token (\<open>u128\<close>) is a number below \<open>2 ^ 128\<close>.
  The manager is shown to be a machine whose invariant says that sequence numbers and
  identifiers do not repeat, and that issues the numbers of its own identifiers one after the other.
\<close>

section \<open>The code\<close>

record cid_item =
  ci_cid :: ConnectionId
  ci_seq :: nat
  ci_reset_token :: "nat option"
  ci_path_id :: "nat option"

record cid_deque =
  cq_queue :: "cid_item list"
  cq_capacity :: nat

definition cq_new :: "nat \<Rightarrow> cid_deque" where
  "cq_new capacity = \<lparr>cq_queue = [], cq_capacity = capacity\<rparr>"

definition cq_get :: "cid_deque \<Rightarrow> nat \<Rightarrow> cid_item option" where
  "cq_get q sq = find (\<lambda>c. ci_seq c = sq) (cq_queue q)"

text \<open>\<open>get_mut\<close> with the update that follows it: the first item with the sequence number.\<close>

fun update_first :: "('a \<Rightarrow> bool) \<Rightarrow> ('a \<Rightarrow> 'a) \<Rightarrow> 'a list \<Rightarrow> 'a list" where
  "update_first P f [] = []"
| "update_first P f (x # xs) = (if P x then f x # xs else x # update_first P f xs)"

definition cq_use :: "cid_deque \<Rightarrow> nat \<Rightarrow> nat \<Rightarrow> cid_deque qres" where
  "cq_use q sq path_id =
     (case cq_get q sq of
        None \<Rightarrow> Err InternalError
      | Some _ \<Rightarrow>
          Ok (q\<lparr>cq_queue := update_first (\<lambda>c. ci_seq c = sq) (\<lambda>c. c\<lparr>ci_path_id := Some path_id\<rparr>) (cq_queue q)\<rparr>))"

definition cq_insert :: "cid_deque \<Rightarrow> cid_item \<Rightarrow> cid_deque \<times> unit qres" where
  "cq_insert q cid =
     (if length (cq_queue q) = cq_capacity q then (q, Err ConnectionIdLimitError)
      else (q\<lparr>cq_queue := cq_queue q @ [cid]\<rparr>, Ok ()))"

definition cq_clear :: "cid_deque \<Rightarrow> cid_deque" where
  "cq_clear q = q\<lparr>cq_queue := []\<rparr>"

fun remove_first :: "('a \<Rightarrow> bool) \<Rightarrow> 'a list \<Rightarrow> 'a list" where
  "remove_first P [] = []"
| "remove_first P (x # xs) = (if P x then xs else x # remove_first P xs)"

definition cq_remove :: "cid_deque \<Rightarrow> nat \<Rightarrow> cid_deque \<times> cid_item option qres" where
  "cq_remove q sq =
     (if cq_queue q = [] then (q, Err InternalError)
      else if length (cq_queue q) = 1 \<and> cq_get q sq \<noteq> None then (q, Err InternalError)
      else (q\<lparr>cq_queue := remove_first (\<lambda>c. ci_seq c = sq) (cq_queue q)\<rparr>, Ok (cq_get q sq)))"

text \<open>\<open>remove_lower\<close>; the closure sees the removed items in order.\<close>

definition cq_remove_lower :: "cid_deque \<Rightarrow> nat \<Rightarrow> cid_deque \<times> cid_item list" where
  "cq_remove_lower q sq =
     (q\<lparr>cq_queue := filter (\<lambda>c. \<not> ci_seq c < sq) (cq_queue q)\<rparr>, filter (\<lambda>c. ci_seq c < sq) (cq_queue q))"

definition cq_enlarge :: "cid_deque \<Rightarrow> nat \<Rightarrow> cid_deque" where
  "cq_enlarge q capacity = (if capacity > cq_capacity q then q\<lparr>cq_capacity := capacity\<rparr> else q)"

record cid_mgr =
  cm_dcids :: cid_deque
  cm_scids :: cid_deque
  cm_dcid_limit :: nat
  cm_scid_limit :: nat
  cm_zero_length_scid :: bool
  cm_zero_length_dcid :: bool
  cm_next_scid_seq :: nat
  cm_retire_prior_to :: nat
  cm_scids_to_advertise :: "nat list"
  cm_largest_peer_retire_prior_to :: nat
  cm_dcids_to_retire :: "nat list"

definition cm_new :: "nat \<Rightarrow> ConnectionId \<Rightarrow> nat \<Rightarrow> nat option \<Rightarrow> cid_mgr qres" where
  "cm_new dcid_limit initial_scid initial_path_id reset_token =
     (let scids = fst (cq_insert (cq_new 3)
        \<lparr>ci_cid = initial_scid, ci_seq = 0, ci_reset_token = reset_token, ci_path_id = Some initial_path_id\<rparr>)
      in rbind (mul64 dcid_limit 2) (\<lambda>d. rbind (sub64 d 1) (\<lambda>cap.
         Ok \<lparr>cm_dcids = cq_new cap, cm_scids = scids, cm_dcid_limit = dcid_limit, cm_scid_limit = 2,
             cm_zero_length_scid = (initial_scid = []), cm_zero_length_dcid = False, cm_next_scid_seq = 1,
             cm_retire_prior_to = 0, cm_scids_to_advertise = [], cm_largest_peer_retire_prior_to = 0,
             cm_dcids_to_retire = []\<rparr>)))"

definition cm_set_initial_dcid :: "cid_mgr \<Rightarrow> ConnectionId \<Rightarrow> nat option \<Rightarrow> nat option \<Rightarrow> cid_mgr" where
  "cm_set_initial_dcid m cid reset_token path_id =
     m\<lparr>cm_zero_length_dcid := (cid = []),
       cm_dcids := fst (cq_insert (cq_clear (cm_dcids m))
         \<lparr>ci_cid = cid, ci_seq = 0, ci_reset_token = reset_token, ci_path_id = path_id\<rparr>)\<rparr>"

definition MAX_CIDS_COUNT :: nat where
  "MAX_CIDS_COUNT = 16"

definition cm_set_scid_limit :: "cid_mgr \<Rightarrow> nat \<Rightarrow> cid_mgr" where
  "cm_set_scid_limit m limit =
     (let limit = max (min limit MAX_CIDS_COUNT) 2
      in m\<lparr>cm_scid_limit := limit, cm_scids := cq_enlarge (cm_scids m) (2 * limit - 1)\<rparr>)"

definition cm_get_scid :: "cid_mgr \<Rightarrow> nat \<Rightarrow> cid_item qres" where
  "cm_get_scid m sq = ok_or (cq_get (cm_scids m) sq) InternalError"

definition cm_get_dcid :: "cid_mgr \<Rightarrow> nat \<Rightarrow> cid_item qres" where
  "cm_get_dcid m sq = ok_or (cq_get (cm_dcids m) sq) InternalError"

definition cm_find_scid :: "cid_mgr \<Rightarrow> ConnectionId \<Rightarrow> (nat \<times> nat option) option" where
  "cm_find_scid m scid =
     map_option (\<lambda>c. (ci_seq c, ci_path_id c)) (find (\<lambda>c. ci_cid c = scid) (cq_queue (cm_scids m)))"

definition cm_mark_scid_used :: "cid_mgr \<Rightarrow> nat \<Rightarrow> nat \<Rightarrow> cid_mgr \<times> unit qres" where
  "cm_mark_scid_used m scid_seq path_id =
     attempt m (cq_use (cm_scids m) scid_seq path_id) (\<lambda>q. (m\<lparr>cm_scids := q\<rparr>, Ok ()))"

definition cm_mark_dcid_used :: "cid_mgr \<Rightarrow> nat \<Rightarrow> nat \<Rightarrow> cid_mgr \<times> unit qres" where
  "cm_mark_dcid_used m dcid_seq path_id =
     attempt m (cq_use (cm_dcids m) dcid_seq path_id) (\<lambda>q. (m\<lparr>cm_dcids := q\<rparr>, Ok ()))"

definition cm_unused_scids :: "cid_mgr \<Rightarrow> nat" where
  "cm_unused_scids m = length (filter (\<lambda>c. ci_path_id c = None) (cq_queue (cm_scids m)))"

definition cm_unused_dcids :: "cid_mgr \<Rightarrow> nat" where
  "cm_unused_dcids m =
     (if cm_zero_length_dcid m then 0 else length (filter (\<lambda>c. ci_path_id c = None) (cq_queue (cm_dcids m))))"

definition list_min :: "nat list \<Rightarrow> nat option" where
  "list_min xs = (case xs of [] \<Rightarrow> None | x # xs \<Rightarrow> Some (fold min xs x))"

definition cm_lowest_active_scid_seq :: "cid_mgr \<Rightarrow> nat qres" where
  "cm_lowest_active_scid_seq m =
     ok_or (list_min (filter (\<lambda>s. s \<ge> cm_retire_prior_to m) (map ci_seq (cq_queue (cm_scids m))))) InternalError"

definition cm_lowest_unused_dcid_seq :: "cid_mgr \<Rightarrow> nat option" where
  "cm_lowest_unused_dcid_seq m =
     list_min (map ci_seq (filter (\<lambda>c. ci_path_id c = None) (cq_queue (cm_dcids m))))"

definition cm_mark_scid_to_advertise :: "cid_mgr \<Rightarrow> nat \<Rightarrow> bool \<Rightarrow> cid_mgr" where
  "cm_mark_scid_to_advertise m sq advertise =
     (if advertise then m\<lparr>cm_scids_to_advertise := cm_scids_to_advertise m @ [sq]\<rparr>
      else m\<lparr>cm_scids_to_advertise := filter (\<lambda>s. s \<noteq> sq) (cm_scids_to_advertise m)\<rparr>)"

definition cm_mark_dcid_to_retire :: "cid_mgr \<Rightarrow> nat \<Rightarrow> bool \<Rightarrow> cid_mgr" where
  "cm_mark_dcid_to_retire m sq retire =
     (if retire then m\<lparr>cm_dcids_to_retire := cm_dcids_to_retire m @ [sq]\<rparr>
      else m\<lparr>cm_dcids_to_retire := filter (\<lambda>s. s \<noteq> sq) (cm_dcids_to_retire m)\<rparr>)"

text \<open>\<open>add_scid\<close>: the check of the limit, then the insertion.\<close>

definition cm_make_room :: "cid_mgr \<Rightarrow> bool \<Rightarrow> cid_mgr qres" where
  "cm_make_room m retire_if_needed =
     (if length (cq_queue (cm_scids m)) \<ge> cm_scid_limit m then
        if \<not> retire_if_needed then Err ConnectionIdLimitError
        else
          rbind (cm_lowest_active_scid_seq m) (\<lambda>s. rbind (add64 s 1) (\<lambda>r. Ok (m\<lparr>cm_retire_prior_to := r\<rparr>)))
      else Ok m)"

definition cm_push_scid ::
    "cid_mgr \<Rightarrow> ConnectionId \<Rightarrow> nat option \<Rightarrow> bool \<Rightarrow> nat option \<Rightarrow> cid_mgr \<times> nat qres" where
  "cm_push_scid m cid reset_token advertise path_id =
     (let sq = cm_next_scid_seq m in
      if sq \<noteq> 0 \<and> reset_token = None then (m, Err InternalError)
      else
        let (q, r) = cq_insert (cm_scids m)
              \<lparr>ci_cid = cid, ci_seq = sq, ci_reset_token = reset_token, ci_path_id = path_id\<rparr>;
            m1 = m\<lparr>cm_scids := q\<rparr>
        in attempt m1 r (\<lambda>_. attempt m1 (add64 sq 1) (\<lambda>next_seq.
             (cm_mark_scid_to_advertise (m1\<lparr>cm_next_scid_seq := next_seq\<rparr>) sq advertise, Ok sq))))"

definition cm_add_scid ::
    "cid_mgr \<Rightarrow> ConnectionId \<Rightarrow> nat option \<Rightarrow> bool \<Rightarrow> nat option \<Rightarrow> bool \<Rightarrow> cid_mgr \<times> nat qres" where
  "cm_add_scid m cid reset_token advertise path_id retire_if_needed =
     (if cm_zero_length_scid m then (m, Err InternalError)
      else attempt m (cm_make_room m retire_if_needed) (\<lambda>m. cm_push_scid m cid reset_token advertise path_id))"

definition cm_check_dcids_to_retire :: "cid_mgr \<Rightarrow> unit qres" where
  "cm_check_dcids_to_retire m =
     (if length (cm_dcids_to_retire m) > cm_dcid_limit m * 4 then Err ProtocolViolation else Ok ())"

definition cm_retire_lower :: "cid_mgr \<Rightarrow> nat \<Rightarrow> cid_mgr \<times> (nat \<times> nat) list" where
  "cm_retire_lower m retire_prior_to =
     (let (q, removed) = cq_remove_lower (cm_dcids m) retire_prior_to
      in (m\<lparr>cm_dcids := q, cm_dcids_to_retire := cm_dcids_to_retire m @ map ci_seq removed,
            cm_largest_peer_retire_prior_to := retire_prior_to\<rparr>,
          concat (map (\<lambda>c. case ci_path_id c of Some pid \<Rightarrow> [(ci_seq c, pid)] | None \<Rightarrow> []) removed)))"

text \<open>\<open>add_dcid\<close>: the end of it, for an identifier to keep, and the checks before.\<close>

definition cm_store_dcid :: "cid_mgr \<Rightarrow> cid_item \<Rightarrow> nat \<Rightarrow> cid_mgr \<times> (nat \<times> nat) list qres" where
  "cm_store_dcid m item retire_prior_to =
     (let lower = retire_prior_to > cm_largest_peer_retire_prior_to m;
          (m1, retired) = (if lower then cm_retire_lower m retire_prior_to else (m, []))
      in attempt m1 (if lower then cm_check_dcids_to_retire m1 else Ok ()) (\<lambda>_.
           let (q, r) = cq_insert (cm_dcids m1) item; m2 = m1\<lparr>cm_dcids := q\<rparr>
           in attempt m2 r (\<lambda>_. (m2, Ok retired))))"

definition cm_add_dcid ::
    "cid_mgr \<Rightarrow> ConnectionId \<Rightarrow> nat \<Rightarrow> nat \<Rightarrow> nat \<Rightarrow> cid_mgr \<times> (nat \<times> nat) list qres" where
  "cm_add_dcid m cid sq reset_token retire_prior_to =
     (if cm_zero_length_dcid m then (m, Err ProtocolViolation)
      else case find (\<lambda>e. ci_cid e = cid \<or> ci_seq e = sq) (cq_queue (cm_dcids m)) of
        Some e \<Rightarrow>
          if ci_cid e \<noteq> cid \<or> ci_seq e \<noteq> sq \<or> ci_reset_token e \<noteq> Some reset_token then (m, Err ProtocolViolation)
          else (m, Ok [])
      | None \<Rightarrow>
          if retire_prior_to > sq then (m, Err ProtocolViolation)
          else if sq < cm_largest_peer_retire_prior_to m \<and> sq \<notin> set (cm_dcids_to_retire m) then
            let m1 = m\<lparr>cm_dcids_to_retire := cm_dcids_to_retire m @ [sq]\<rparr>
            in attempt m1 (cm_check_dcids_to_retire m1) (\<lambda>_. (m1, Ok []))
          else
            cm_store_dcid m \<lparr>ci_cid = cid, ci_seq = sq, ci_reset_token = Some reset_token, ci_path_id = None\<rparr>
              retire_prior_to)"

definition cm_retire_scid :: "cid_mgr \<Rightarrow> nat \<Rightarrow> ConnectionId \<Rightarrow> cid_mgr \<times> nat option qres" where
  "cm_retire_scid m sq pkt_dcid =
     (if sq \<ge> cm_next_scid_seq m then (m, Err ProtocolViolation)
      else
        let (q, r) = cq_remove (cm_scids m) sq; m1 = m\<lparr>cm_scids := q\<rparr>
        in attempt m1 r (\<lambda>e. case e of
             None \<Rightarrow> (m1, Ok None)
           | Some e \<Rightarrow>
               if ci_cid e = pkt_dcid then (m1, Err ProtocolViolation)
               else attempt m1 (cm_lowest_active_scid_seq m1) (\<lambda>s. (m1\<lparr>cm_retire_prior_to := s\<rparr>, Ok (ci_path_id e)))))"

definition cm_next_scid_to_advertise :: "cid_mgr \<Rightarrow> nat option" where
  "cm_next_scid_to_advertise m = (case cm_scids_to_advertise m of [] \<Rightarrow> None | s # _ \<Rightarrow> Some s)"

definition cm_next_dcid_to_retire :: "cid_mgr \<Rightarrow> nat option" where
  "cm_next_dcid_to_retire m = (case cm_dcids_to_retire m of [] \<Rightarrow> None | s # _ \<Rightarrow> Some s)"

definition cm_create_new_connection_id_frame :: "cid_mgr \<Rightarrow> nat \<Rightarrow> Frame qres" where
  "cm_create_new_connection_id_frame m sq =
     rbind (ok_or (cq_get (cm_scids m) sq) InternalError) (\<lambda>item.
     rbind (ok_or (ci_reset_token item) InternalError) (\<lambda>token.
       Ok (NewConnectionId sq (cm_retire_prior_to m) (ci_cid item) (be_bytes 16 token))))"

definition cm_need_send_cid_control_frames :: "cid_mgr \<Rightarrow> bool" where
  "cm_need_send_cid_control_frames m \<longleftrightarrow> cm_dcids_to_retire m \<noteq> [] \<or> cm_scids_to_advertise m \<noteq> []"

section \<open>Invariant\<close>

abbreviation cq_seqs :: "cid_deque \<Rightarrow> nat list" where
  "cq_seqs q \<equiv> map ci_seq (cq_queue q)"

text \<open>
  No sequence number occurs twice, our own are below the next one to use, the peer's
  identifiers differ, and neither list outgrows its capacity.
\<close>

definition cm_inv :: "cid_mgr \<Rightarrow> bool" where
  "cm_inv m \<longleftrightarrow> distinct (cq_seqs (cm_scids m)) \<and> (\<forall>s \<in> set (cq_seqs (cm_scids m)). s < cm_next_scid_seq m) \<and>
     distinct (cq_seqs (cm_dcids m)) \<and> distinct (map ci_cid (cq_queue (cm_dcids m))) \<and>
     length (cq_queue (cm_scids m)) \<le> cq_capacity (cm_scids m) \<and> cq_capacity (cm_scids m) \<le> 2 * MAX_CIDS_COUNT - 1 \<and>
     length (cq_queue (cm_dcids m)) \<le> cq_capacity (cm_dcids m) \<and> cq_capacity (cm_dcids m) = 2 * cm_dcid_limit m - 1 \<and>
     1 \<le> cm_dcid_limit m"

lemma update_first_map: "(\<And>x. g (f x) = g x) \<Longrightarrow> map g (update_first P f xs) = map g xs"
  by (induction xs) auto

lemma length_update_first [simp]: "length (update_first P f xs) = length xs"
  by (induction xs) auto

lemma remove_first_subset: "set (remove_first P xs) \<subseteq> set xs" "length (remove_first P xs) \<le> length xs"
  by (induction xs) auto

lemma remove_first_distinct: "distinct (map g xs) \<Longrightarrow> distinct (map g (remove_first P xs))"
proof (induction xs)
  case (Cons x xs)
  then show ?case using remove_first_subset(1)[of P xs] by auto
qed simp

lemma cq_use_Ok:
  assumes "cq_use q sq p = Ok q'"
  shows "cq_seqs q' = cq_seqs q" "map ci_cid (cq_queue q') = map ci_cid (cq_queue q)" "cq_capacity q' = cq_capacity q"
    "length (cq_queue q') = length (cq_queue q)"
  using assms by (auto simp: cq_use_def update_first_map split: option.splits)

text \<open>Operations that do not touch the identifiers keep the invariant.\<close>

lemma cm_inv_marks [simp]:
  "cm_inv (m\<lparr>cm_scids_to_advertise := x\<rparr>) = cm_inv m" "cm_inv (m\<lparr>cm_dcids_to_retire := x\<rparr>) = cm_inv m"
  "cm_inv (m\<lparr>cm_retire_prior_to := n\<rparr>) = cm_inv m" "cm_inv (m\<lparr>cm_largest_peer_retire_prior_to := n\<rparr>) = cm_inv m"
  by (simp_all add: cm_inv_def)

text \<open>
  What one operation does beside keeping the invariant: it hands out the sequence numbers from
  the next one to use on, and the largest \<open>Retire Prior To\<close> does not go back.
\<close>

definition cm_evo :: "cid_mgr \<Rightarrow> nat list \<Rightarrow> cid_mgr \<Rightarrow> bool" where
  "cm_evo m out m' \<longleftrightarrow> cm_next_scid_seq m \<le> cm_next_scid_seq m' \<and> out = [cm_next_scid_seq m..<cm_next_scid_seq m'] \<and>
     cm_largest_peer_retire_prior_to m \<le> cm_largest_peer_retire_prior_to m'"

definition cm_good :: "cid_mgr \<Rightarrow> nat list \<Rightarrow> cid_mgr \<Rightarrow> bool" where
  "cm_good m out m' \<longleftrightarrow> cm_inv m' \<and> cm_evo m out m'"

lemma cm_good_quiet:
  "cm_inv m' \<Longrightarrow> cm_next_scid_seq m' = cm_next_scid_seq m \<Longrightarrow>
    cm_largest_peer_retire_prior_to m \<le> cm_largest_peer_retire_prior_to m' \<Longrightarrow> cm_good m [] m'"
  by (simp add: cm_good_def cm_evo_def)

lemma cm_mark_used_good:
  assumes "cm_inv m"
  shows "cm_good m [] (fst (cm_mark_scid_used m sq p))" "cm_good m [] (fst (cm_mark_dcid_used m sq p))"
  using assms
  by (auto simp: cm_mark_scid_used_def cm_mark_dcid_used_def cm_inv_def cq_use_Ok split: attempt_split intro!: cm_good_quiet)

lemma cm_set_initial_dcid_good:
  assumes "cm_inv m"
  shows "cm_good m [] (cm_set_initial_dcid m cid tok p)"
  using assms by (auto simp: cm_set_initial_dcid_def cm_inv_def cq_insert_def cq_clear_def intro!: cm_good_quiet)

lemma cm_set_scid_limit_good:
  assumes "cm_inv m"
  shows "cm_good m [] (cm_set_scid_limit m n)"
  using assms by (auto simp: cm_set_scid_limit_def cm_inv_def cq_enlarge_def MAX_CIDS_COUNT_def Let_def intro!: cm_good_quiet)

text \<open>A new item of ours, or of the peer when nothing known has its identifier or number.\<close>

lemma cm_insert_scid:
  assumes "cm_inv m" "cq_insert (cm_scids m) c = (q, Ok ())" "ci_seq c = cm_next_scid_seq m"
  shows "cm_inv (m\<lparr>cm_scids := q, cm_next_scid_seq := Suc (cm_next_scid_seq m)\<rparr>)"
  using assms by (fastforce simp: cm_inv_def cq_insert_def split: if_splits)

lemma cm_insert_dcid:
  assumes "cm_inv m" "cq_insert (cm_dcids m) c = (q, r)"
    "ci_seq c \<notin> set (cq_seqs (cm_dcids m))" "ci_cid c \<notin> ci_cid ` set (cq_queue (cm_dcids m))"
  shows "cm_inv (m\<lparr>cm_dcids := q\<rparr>)"
  using assms by (auto simp: cm_inv_def cq_insert_def split: if_splits)

lemma cm_make_room_Ok: "cm_make_room m ret = Ok m1 \<Longrightarrow> \<exists>x. m1 = m\<lparr>cm_retire_prior_to := x\<rparr>"
  by (auto simp: cm_make_room_def intro: exI[of _ "cm_retire_prior_to m"] split: if_splits)

lemma cm_push_scid_good:
  assumes inv: "cm_inv m" and op: "cm_push_scid m cid tok adv p = (m', r)" "r \<noteq> Panic"
  shows "cm_good m (case r of Ok s \<Rightarrow> [s] | _ \<Rightarrow> []) m'"
proof -
  let ?c = "\<lparr>ci_cid = cid, ci_seq = cm_next_scid_seq m, ci_reset_token = tok, ci_path_id = p\<rparr>"
  obtain q z where q: "cq_insert (cm_scids m) ?c = (q, z)" by fastforce
  have z: "z = Ok () \<or> z = Err ConnectionIdLimitError \<and> q = cm_scids m" using q by (auto simp: cq_insert_def split: if_splits)
  show ?thesis
  proof (cases "z = Ok ()")
    case True
    then show ?thesis using op q cm_insert_scid[OF inv, of ?c q] inv
      by (auto simp: cm_push_scid_def Let_def cm_good_def cm_evo_def cm_mark_scid_to_advertise_def add64_def split: if_splits)
  next
    case False
    then have "m' = m" "r = Err InternalError \<or> r = Err ConnectionIdLimitError"
      using op(1) q z by (auto simp: cm_push_scid_def Let_def split: if_splits)
    then show ?thesis using inv by (auto simp: cm_good_quiet)
  qed
qed

lemma cm_add_scid_good:
  assumes inv: "cm_inv m" and op: "cm_add_scid m cid tok adv p ret = (m', r)" "r \<noteq> Panic"
  shows "cm_good m (case r of Ok s \<Rightarrow> [s] | _ \<Rightarrow> []) m'"
proof (cases "cm_make_room m ret")
  case (Ok m1)
  then obtain x where m1: "m1 = m\<lparr>cm_retire_prior_to := x\<rparr>" using cm_make_room_Ok by blast
  show ?thesis
  proof (cases "cm_zero_length_scid m")
    case False
    then have "cm_good m1 (case r of Ok s \<Rightarrow> [s] | _ \<Rightarrow> []) m'"
      using op Ok inv m1 by (intro cm_push_scid_good) (simp_all add: cm_add_scid_def)
    then show ?thesis using m1 by (simp add: cm_good_def cm_evo_def)
  qed (use inv op in \<open>auto simp: cm_add_scid_def cm_good_quiet\<close>)
qed (use inv op in \<open>auto simp: cm_add_scid_def cm_good_quiet split: if_splits\<close>)

lemma cm_retire_lower_inv:
  assumes "cm_inv m" "cm_retire_lower m rpt = (m1, out)"
  shows "cm_inv m1" "set (cq_queue (cm_dcids m1)) \<subseteq> set (cq_queue (cm_dcids m))"
    "cm_next_scid_seq m1 = cm_next_scid_seq m" "cm_largest_peer_retire_prior_to m1 = rpt"
  using assms by (auto simp: cm_retire_lower_def cq_remove_lower_def cm_inv_def Let_def distinct_map_filter
      intro: le_trans[OF length_filter_le])

lemma cm_store_dcid_good:
  assumes inv: "cm_inv m" and new: "ci_seq c \<notin> set (cq_seqs (cm_dcids m))" "ci_cid c \<notin> ci_cid ` set (cq_queue (cm_dcids m))"
  shows "cm_good m [] (fst (cm_store_dcid m c rpt))"
proof -
  let ?lower = "rpt > cm_largest_peer_retire_prior_to m"
  obtain m1 out where m1: "(if ?lower then cm_retire_lower m rpt else (m, [])) = (m1, out)" by fastforce
  have i1: "cm_inv m1" "set (cq_queue (cm_dcids m1)) \<subseteq> set (cq_queue (cm_dcids m))" "cm_next_scid_seq m1 = cm_next_scid_seq m"
    "cm_largest_peer_retire_prior_to m \<le> cm_largest_peer_retire_prior_to m1"
    using cm_retire_lower_inv[OF inv, of rpt m1 out] m1 inv by (auto split: if_splits)
  obtain q r where q: "cq_insert (cm_dcids m1) c = (q, r)" by fastforce
  have "cm_inv (m1\<lparr>cm_dcids := q\<rparr>)"
    by (rule cm_insert_dcid[OF i1(1) q]) (use new i1(2) in auto)
  then show ?thesis using i1 q
    by (auto simp: cm_store_dcid_def m1 Let_def intro!: cm_good_quiet split: attempt_split)
qed

lemma cm_add_dcid_good:
  assumes inv: "cm_inv m"
  shows "cm_good m [] (fst (cm_add_dcid m cid sq tok rpt))"
proof (cases "find (\<lambda>e. ci_cid e = cid \<or> ci_seq e = sq) (cq_queue (cm_dcids m))")
  case (Some e)
  then show ?thesis using inv by (auto simp: cm_add_dcid_def intro!: cm_good_quiet)
next
  case None
  then have "sq \<notin> set (cq_seqs (cm_dcids m))" "cid \<notin> ci_cid ` set (cq_queue (cm_dcids m))" by (auto simp: find_None_iff)
  then have "cm_good m [] (fst (cm_store_dcid m \<lparr>ci_cid = cid, ci_seq = sq, ci_reset_token = Some tok, ci_path_id = None\<rparr> rpt))"
    by (intro cm_store_dcid_good[OF inv]) simp_all
  then show ?thesis using inv None
    by (auto simp: cm_add_dcid_def Let_def intro!: cm_good_quiet split: attempt_split)
qed

lemma cm_retire_scid_good:
  assumes inv: "cm_inv m"
  shows "cm_good m [] (fst (cm_retire_scid m sq pkt_dcid))"
proof -
  have "cm_inv (m\<lparr>cm_scids := fst (cq_remove (cm_scids m) sq)\<rparr>)"
    using inv remove_first_subset[of "\<lambda>c. ci_seq c = sq" "cq_queue (cm_scids m)"]
    by (auto simp: cq_remove_def cm_inv_def remove_first_distinct)
  then show ?thesis using inv
    by (auto simp: cm_retire_scid_def Let_def split_beta intro!: cm_good_quiet split: attempt_split option.split)
qed


section \<open>The manager as a machine\<close>

datatype cid_op =
  SetInitialDcid ConnectionId "nat option" "nat option"
| SetScidLimit nat
| MarkScidUsed nat nat
| MarkDcidUsed nat nat
| AddScid ConnectionId "nat option" bool "nat option" bool
| AddDcid ConnectionId nat nat nat
| RetireScid nat ConnectionId
| MarkScidToAdvertise nat bool
| MarkDcidToRetire nat bool

text \<open>The sequence number \<open>add_scid\<close> returns is handed out; a panic, on the last \<open>u64\<close>, ends the run.\<close>

fun cid_step :: "cid_op \<Rightarrow> cid_mgr \<Rightarrow> cid_mgr \<times> nat list" where
  "cid_step (SetInitialDcid cid tok p) m = (cm_set_initial_dcid m cid tok p, [])"
| "cid_step (SetScidLimit n) m = (cm_set_scid_limit m n, [])"
| "cid_step (MarkScidUsed sq p) m = (fst (cm_mark_scid_used m sq p), [])"
| "cid_step (MarkDcidUsed sq p) m = (fst (cm_mark_dcid_used m sq p), [])"
| "cid_step (AddScid cid tok adv p ret) m =
     (case cm_add_scid m cid tok adv p ret of
        (m', Ok s) \<Rightarrow> (m', [s]) | (m', Err e) \<Rightarrow> (m', []) | (m', Panic) \<Rightarrow> (m, []))"
| "cid_step (AddDcid cid sq tok rpt) m = (fst (cm_add_dcid m cid sq tok rpt), [])"
| "cid_step (RetireScid sq dcid) m = (fst (cm_retire_scid m sq dcid), [])"
| "cid_step (MarkScidToAdvertise sq b) m = (cm_mark_scid_to_advertise m sq b, [])"
| "cid_step (MarkDcidToRetire sq b) m = (cm_mark_dcid_to_retire m sq b, [])"

lemma cid_step_good: "cm_inv m \<Longrightarrow> cm_good m (snd (cid_step oper m)) (fst (cid_step oper m))"
proof (cases oper)
  case (AddScid cid tok adv p ret)
  assume inv: "cm_inv m"
  obtain m' r where r: "cm_add_scid m cid tok adv p ret = (m', r)" by fastforce
  then show ?thesis using AddScid cm_add_scid_good[OF inv r] inv by (cases r) (simp_all add: cm_good_quiet)
qed (auto simp: cm_set_initial_dcid_good cm_set_scid_limit_good cm_mark_used_good cm_add_dcid_good cm_retire_scid_good
    cm_mark_scid_to_advertise_def cm_mark_dcid_to_retire_def intro!: cm_good_quiet)

lemma upt_join: "i \<le> j \<Longrightarrow> j \<le> k \<Longrightarrow> [i..<j] @ [j..<k] = [i..<k]"
  using upt_add_eq_append[of i j "k - j"] by simp

interpretation cidm: op_machine cid_step "\<lambda>_. True" cm_inv cm_evo
proof (unfold_locales, goal_cases)
  case (4 s out s' out' s'')
  then show ?case by (auto simp: cm_evo_def upt_join)
qed (use cid_step_good in \<open>auto simp: cm_good_def cm_evo_def\<close>)

lemma cm_new_inv: "cm_new limit scid p tok = Ok m \<Longrightarrow> cm_inv m \<and> cm_next_scid_seq m = 1 \<and> cm_dcid_limit m = limit"
  by (auto simp: cm_new_def Let_def cm_inv_def cq_new_def cq_insert_def MAX_CIDS_COUNT_def)

text \<open>
  C12: Over the whole life of a connection, in any order of operations and frames, no two of its
  own connection identifiers carry the same sequence number, the numbers handed out are 1, 2, 3
  and so on without a gap, no two of the peer's identifiers in use share a number or an
  identifier, and the tables stay within their capacities.
\<close>

theorem cids_consistent:
  assumes "cm_new limit scid p tok = Ok m" "run_ops cid_step m ops = (m', issued)"
  shows "issued = [1..<cm_next_scid_seq m'] \<and> distinct (cq_seqs (cm_scids m')) \<and>
    (\<forall>s \<in> set (cq_seqs (cm_scids m')). s < cm_next_scid_seq m') \<and>
    distinct (cq_seqs (cm_dcids m')) \<and> distinct (map ci_cid (cq_queue (cm_dcids m'))) \<and>
    length (cq_queue (cm_scids m')) \<le> 2 * MAX_CIDS_COUNT - 1 \<and>
    length (cq_queue (cm_dcids m')) \<le> 2 * cm_dcid_limit m' - 1"
  using cidm.run_ok[of m ops] cm_new_inv[OF assms(1)] assms(2) by (auto simp: cm_inv_def cm_evo_def)

definition demo_cids :: "cid_mgr" where
  "demo_cids = (case cm_new 2 [1] 0 None of Ok m \<Rightarrow> m)"

definition cid_ops :: "cid_op list" where
  "cid_ops = [SetInitialDcid [2] None (Some 0), AddScid [3] (Some 5) True None False, AddDcid [4] 1 6 0]"

lemmas cid_eval = cm_new_def Let_def cq_new_def cq_insert_def mul64_def sub64_def add64_def u64_max_def cm_add_scid_def
  cm_make_room_def cm_push_scid_def cm_set_initial_dcid_def cm_add_dcid_def cm_store_dcid_def cm_retire_lower_def
  cm_mark_scid_to_advertise_def cq_clear_def cq_remove_lower_def cm_check_dcids_to_retire_def

theorem cids_consistent_witness:
  "\<exists>m'. run_ops cid_step demo_cids cid_ops = (m', [1]) \<and> cq_seqs (cm_dcids m') = [0, 1] \<and> cm_next_scid_seq m' = 2"
proof -
  have n: "cm_new 2 [1] 0 None = Ok demo_cids" by (simp add: demo_cids_def cid_eval)
  obtain m' issued where r: "run_ops cid_step demo_cids cid_ops = (m', issued)" by fastforce
  moreover have "cq_seqs (cm_dcids m') = [0, 1] \<and> cm_next_scid_seq m' = 2"
    using r by (auto simp: cid_ops_def demo_cids_def cid_eval)
  ultimately show ?thesis using cids_consistent[OF n r] by (auto simp: numeral_2_eq_2)
qed

text \<open>
  C32: A retired identifier can come back: when the peer repeats the NEW_CONNECTION_ID frame of a
  sequence number below its own \<open>Retire Prior To\<close> while the RETIRE_CONNECTION_ID frame for it is
  still queued, \<open>add_dcid\<close> stores the identifier as active instead of leaving it retired.
\<close>

theorem retired_dcid_comes_back:
  assumes "\<not> cm_zero_length_dcid m" "find (\<lambda>e. ci_cid e = cid \<or> ci_seq e = sq) (cq_queue (cm_dcids m)) = None"
    and "rpt \<le> sq" "sq < cm_largest_peer_retire_prior_to m" "sq \<in> set (cm_dcids_to_retire m)"
    and "length (cq_queue (cm_dcids m)) < cq_capacity (cm_dcids m)"
  shows "\<exists>m'. cm_add_dcid m cid sq tok rpt = (m', Ok []) \<and> sq \<in> set (cq_seqs (cm_dcids m')) \<and>
    sq < cm_largest_peer_retire_prior_to m'"
  using assms by (auto simp: cm_add_dcid_def cm_store_dcid_def cq_insert_def Let_def)

definition retired_cids :: cid_mgr where
  "retired_cids = fst (run_ops cid_step demo_cids (cid_ops @ [AddDcid [7] 2 8 2]))"

theorem retired_dcid_comes_back_witness:
  "cm_largest_peer_retire_prior_to retired_cids = 2 \<and> cm_dcids_to_retire retired_cids = [0, 1] \<and>
   (\<exists>m'. cm_add_dcid retired_cids [4] 1 6 0 = (m', Ok []) \<and> 1 \<in> set (cq_seqs (cm_dcids m')))"
proof -
  have s: "cm_largest_peer_retire_prior_to retired_cids = 2" "cm_dcids_to_retire retired_cids = [0, 1]"
    "\<not> cm_zero_length_dcid retired_cids" "cq_capacity (cm_dcids retired_cids) = 3"
    "find (\<lambda>e. ci_cid e = [4] \<or> ci_seq e = 1) (cq_queue (cm_dcids retired_cids)) = None"
    "length (cq_queue (cm_dcids retired_cids)) = 1"
    by (simp_all add: retired_cids_def cid_ops_def demo_cids_def cid_eval)
  then show ?thesis using retired_dcid_comes_back[of retired_cids "[4]" 1 0 6] by auto
qed

end
