(* ===== verification/Seq_Window.thy ===== *)
theory Seq_Window
  imports Quic_Prelude "HOL-Library.Word"
begin

text \<open>
  The sliding window that detects duplicated packet numbers: \<open>src/src/window.rs\<close> in full. The
  bit field is a \<open>128 word\<close>; the window is shown equivalent to remembering every number, as long
  as no jump of a multiple of \<open>2 ^ 32\<close> occurs, and never to accept a number twice in any case.
\<close>

unbundle bit_operations_syntax

section \<open>The code\<close>

definition SEQ_NUM_WINDOW_SIZE :: nat where
  "SEQ_NUM_WINDOW_SIZE = 128"

record seq_num_window =
  snw_lower :: nat
  snw_window :: "128 word"

definition snw_default :: seq_num_window where
  "snw_default = \<lparr>snw_lower = 0, snw_window = 0\<rparr>"

definition snw_upper :: "seq_num_window \<Rightarrow> nat" where
  "snw_upper w = sat_add64 (snw_lower w) SEQ_NUM_WINDOW_SIZE - 1"

text \<open>\<open>checked_shl (diff as u32)\<close>: the distance is truncated to 32 bits, and a shift by 128 or more gives None.\<close>

definition shl_trunc :: "128 word \<Rightarrow> nat \<Rightarrow> 128 word" where
  "shl_trunc x diff = (let n = diff mod 2 ^ 32 in if n < 128 then push_bit n x else 0)"

definition snw_insert :: "seq_num_window \<Rightarrow> nat \<Rightarrow> seq_num_window" where
  "snw_insert w sq =
     (if sq < snw_lower w then w
      else
        let w1 = (if sq > snw_upper w then
                    let diff = sq - snw_upper w
                    in w\<lparr>snw_lower := snw_lower w + diff, snw_window := shl_trunc (snw_window w) diff\<rparr>
                  else w)
        in w1\<lparr>snw_window := snw_window w1 OR push_bit (snw_upper w1 - sq) 1\<rparr>)"

definition snw_contains :: "seq_num_window \<Rightarrow> nat \<Rightarrow> bool" where
  "snw_contains w sq =
     (if sq > snw_upper w then False
      else if sq < snw_lower w then True
      else snw_window w AND push_bit (snw_upper w - sq) 1 \<noteq> 0)"

section \<open>The window against the set of all numbers seen\<close>

lemma snw_bit: "w AND 2 ^ n \<noteq> 0 \<longleftrightarrow> n < 128 \<and> bit w n" for w :: "128 word"
proof
  assume "w AND 2 ^ n \<noteq> 0"
  then obtain m where "bit (w AND 2 ^ n) m" using bit_eqI[of "w AND 2 ^ n" 0] by auto
  then show "n < 128 \<and> bit w n" by (auto simp: bit_simps)
next
  assume "n < 128 \<and> bit w n"
  then have "bit (w AND 2 ^ n) n" by (simp add: bit_simps)
  then show "w AND 2 ^ n \<noteq> 0" by auto
qed

definition snw_ok :: "seq_num_window \<Rightarrow> bool" where
  "snw_ok w \<longleftrightarrow> snw_lower w < 2 ^ 62"

lemma snw_upper_eq: "snw_ok w \<Longrightarrow> snw_upper w = snw_lower w + 127"
  by (simp add: snw_ok_def snw_upper_def sat_add64_def SEQ_NUM_WINDOW_SIZE_def u64_max_def)

text \<open>What \<open>contains\<close> and \<open>insert\<close> do, in terms of the bits.\<close>

lemma snw_contains_iff:
  "snw_ok w \<Longrightarrow> snw_contains w s \<longleftrightarrow>
     s < snw_lower w \<or> s \<le> snw_lower w + 127 \<and> bit (snw_window w) (snw_lower w + 127 - s)"
  by (auto simp: snw_contains_def snw_upper_eq snw_bit)

lemma snw_insert_lower:
  "snw_ok w \<Longrightarrow> snw_lower (snw_insert w s) = max (snw_lower w) (s - 127)"
  by (auto simp: snw_insert_def snw_upper_eq Let_def)

lemma snw_insert_ok: "snw_ok w \<Longrightarrow> s < 2 ^ 62 \<Longrightarrow> snw_ok (snw_insert w s)"
  using snw_insert_lower[of w s] by (auto simp: snw_ok_def)

lemma snw_insert_within:
  assumes "snw_ok w" "snw_lower w \<le> s" "s \<le> snw_lower w + 127"
  shows "snw_contains (snw_insert w s) t \<longleftrightarrow> t = s \<or> snw_contains w t"
proof -
  have i: "snw_insert w s = w\<lparr>snw_window := snw_window w OR 2 ^ (snw_lower w + 127 - s)\<rparr>"
    using assms by (simp add: snw_insert_def snw_upper_eq)
  then have "snw_ok (snw_insert w s)" using assms(1) by (simp add: snw_ok_def)
  then show ?thesis using assms by (auto simp: snw_contains_iff i bit_simps)
qed

lemma snw_insert_beyond:
  fixes w s
  defines "e \<equiv> (s - (snw_lower w + 127)) mod 2 ^ 32"
  assumes "snw_ok w" "snw_lower w + 127 < s" "s < 2 ^ 62"
  shows "snw_contains (snw_insert w s) t \<longleftrightarrow>
    t = s \<or> t < s - 127 \<or> t + e \<le> s \<and> bit (snw_window w) (s - t - e)"
proof -
  have up: "snw_upper (w\<lparr>snw_lower := s - 127, snw_window := x\<rparr>) = s" for x
    using assms(3,4) by (subst snw_upper_eq) (simp_all add: snw_ok_def)
  have i: "snw_insert w s = w\<lparr>snw_lower := s - 127, snw_window := (if e < 128 then push_bit e (snw_window w) else 0) OR 1\<rparr>"
    using assms(3,4) up by (simp add: snw_insert_def snw_upper_eq[OF assms(2)] shl_trunc_def Let_def e_def)
  have "snw_ok (snw_insert w s)" using assms(4) by (simp add: i snw_ok_def)
  then have "snw_contains (snw_insert w s) t \<longleftrightarrow>
      t < s - 127 \<or> t \<le> s \<and> bit ((if e < 128 then push_bit e (snw_window w) else 0) OR 1) (s - t)"
    using assms(3) by (simp add: snw_contains_iff) (simp add: i)
  then show ?thesis by (auto simp: bit_simps split: if_splits)
qed

text \<open>Without a jump of \<open>2 ^ 32\<close> or more, the window forgets nothing but what lies below it.\<close>

lemma snw_insert_step:
  assumes "snw_ok w" "s < 2 ^ 62" "s < snw_lower w + 127 + 2 ^ 32"
  shows "snw_contains (snw_insert w s) t \<longleftrightarrow> t = s \<or> t + 127 < s \<or> snw_contains w t"
proof -
  consider "s < snw_lower w" | "snw_lower w \<le> s" "s \<le> snw_lower w + 127" | "snw_lower w + 127 < s" by linarith
  then show ?thesis
  proof cases
    case 1
    then show ?thesis using assms by (auto simp: snw_insert_def snw_contains_iff)
  next
    case 2
    then have "t + 127 < s \<Longrightarrow> snw_contains w t" by (simp add: snw_contains_iff[OF assms(1)])
    then show ?thesis using snw_insert_within[OF assms(1) 2, of t] by blast
  next
    case 3
    define u where "u = snw_lower w + 127"
    have u: "u < s" "(s - u) mod 2 ^ 32 = s - u" using assms(3) 3 by (simp_all add: u_def)
    have "t + (s - u) \<le> s \<and> bit (snw_window w) (s - t - (s - u)) \<longleftrightarrow> t \<le> u \<and> bit (snw_window w) (u - t)"
    proof (cases "t \<le> u")
      case True
      then have "s - t - (s - u) = u - t" "t + (s - u) \<le> s" using u(1) by simp_all
      then show ?thesis using True by (simp only: simp_thms)
    next
      case False
      then have "\<not> t + (s - u) \<le> s" using u(1) by linarith
      then show ?thesis using False by (simp only: simp_thms)
    qed
    then have "snw_contains (snw_insert w s) t \<longleftrightarrow>
        t = s \<or> t < s - 127 \<or> t \<le> u \<and> bit (snw_window w) (u - t)"
      using snw_insert_beyond[OF assms(1) 3 assms(2), of t, folded u_def] u(2) by simp
    moreover have "t < s - 127 \<longleftrightarrow> t + 127 < s" "t < snw_lower w \<Longrightarrow> t + 127 < s" using 3 by linarith+
    ultimately show ?thesis unfolding snw_contains_iff[OF assms(1)] u_def by blast
  qed
qed

text \<open>Whatever the jump, what was reported before is reported after.\<close>

lemma snw_insert_keeps:
  assumes "snw_ok w" "s < 2 ^ 62" "t = s \<or> snw_contains w t"
  shows "snw_contains (snw_insert w s) t"
proof (cases "s < snw_lower w + 127 + 2 ^ 32")
  case True
  then show ?thesis using snw_insert_step[OF assms(1,2)] assms(3) by blast
next
  case False
  then have s: "snw_lower w + 127 < s" by simp
  then have "t = s \<or> t < s - 127 \<or> t \<le> snw_lower w + 127" using assms(3) by (auto simp: snw_contains_iff[OF assms(1)])
  moreover have "snw_lower w + 4294967423 \<le> s" using False by simp
  ultimately have "t = s \<or> t < s - 127" by linarith
  then show ?thesis using snw_insert_beyond[OF assms(1) s assms(2), of t] by blast
qed

definition win_run :: "nat list \<Rightarrow> seq_num_window" where
  "win_run ss = fold (\<lambda>s w. snw_insert w s) ss snw_default"

text \<open>The reference: remember every number, and the largest, which is at least 127.\<close>

definition highest :: "nat list \<Rightarrow> nat" where
  "highest ss = fold max ss 127"

definition seen_before :: "nat list \<Rightarrow> nat \<Rightarrow> bool" where
  "seen_before ss s \<longleftrightarrow> s \<in> set ss \<or> s + 127 < highest ss"

fun small_jumps :: "nat \<Rightarrow> nat list \<Rightarrow> bool" where
  "small_jumps hi [] = True"
| "small_jumps hi (s # ss) = (s < hi + 2 ^ 32 \<and> small_jumps (max s hi) ss)"

lemma small_jumps_snoc: "small_jumps hi (ss @ [s]) \<longleftrightarrow> small_jumps hi ss \<and> s < fold max ss hi + 2 ^ 32"
  by (induction ss arbitrary: hi) simp_all

lemma win_run_lower:
  "\<forall>s \<in> set ss. s < 2 ^ 62 \<Longrightarrow> snw_ok (win_run ss) \<and> snw_lower (win_run ss) + 127 = highest ss"
proof (induction ss rule: rev_induct)
  case Nil
  then show ?case by (simp add: win_run_def snw_default_def snw_ok_def highest_def)
next
  case (snoc s ss)
  then show ?case using snw_insert_ok[of "win_run ss" s] snw_insert_lower[of "win_run ss" s]
    by (auto simp: win_run_def highest_def)
qed

lemma win_run_keeps: "\<forall>s \<in> set ss. s < 2 ^ 62 \<Longrightarrow> t \<in> set ss \<Longrightarrow> snw_contains (win_run ss) t"
proof (induction ss rule: rev_induct)
  case (snoc s ss)
  then show ?case using snw_insert_keeps[of "win_run ss" s t] win_run_lower[of ss] by (auto simp: win_run_def)
qed simp

lemma win_run_exact:
  "\<forall>s \<in> set ss. s < 2 ^ 62 \<Longrightarrow> small_jumps 127 ss \<Longrightarrow> snw_contains (win_run ss) t \<longleftrightarrow> seen_before ss t"
proof (induction ss rule: rev_induct)
  case Nil
  then show ?case by (simp add: win_run_def snw_default_def snw_contains_def snw_upper_def seen_before_def highest_def)
next
  case (snoc s ss)
  have "snw_contains (win_run (ss @ [s])) t \<longleftrightarrow> t = s \<or> t + 127 < s \<or> snw_contains (win_run ss) t"
    using snw_insert_step[of "win_run ss" s t] win_run_lower[of ss] snoc.prems
    by (simp add: win_run_def small_jumps_snoc highest_def)
  then show ?case using snoc by (auto simp: seen_before_def highest_def small_jumps_snoc)
qed

text \<open>
  C11: Duplicate detection in constant space equals remembering every packet number: as long as no
  number jumps \<open>2 ^ 32\<close> or more beyond the largest, \<open>contains\<close> reports exactly the numbers
  inserted and those more than 127 below the largest. Without that condition a number that was
  inserted is still always reported, so no packet is ever processed twice.
\<close>

theorem duplicate_detection:
  assumes "\<forall>s \<in> set ss. s < 2 ^ 62"
  shows "(small_jumps 127 ss \<longrightarrow> (\<forall>t. snw_contains (win_run ss) t \<longleftrightarrow> seen_before ss t)) \<and>
    (\<forall>t \<in> set ss. snw_contains (win_run ss) t)"
  using win_run_exact[OF assms] win_run_keeps[OF assms] by blast

theorem duplicate_detection_witness:
  "\<not> snw_contains (win_run [10, 138, 8]) 12 \<and> \<not> seen_before [10, 138, 8] 11 \<and> snw_contains (win_run [10, 138, 8]) 8"
  using duplicate_detection[of "[10, 138, 8]"] by (simp add: seen_before_def highest_def)

text \<open>
  C31: A jump of a multiple of \<open>2 ^ 32\<close> leaves the old bits in place: the distance is truncated to
  32 bits before the shift, so after it the window reports a number as seen that never was, and its packet is dropped.
\<close>

theorem long_jump_false_duplicate:
  assumes "snw_ok w" "snw_upper w + k * 2 ^ 32 < 2 ^ 62" "0 < k" "snw_lower w \<le> s" "s \<le> snw_upper w" "snw_contains w s"
  shows "snw_contains (snw_insert w (snw_upper w + k * 2 ^ 32)) (s + k * 2 ^ 32)"
proof -
  have "snw_lower w + 127 < snw_upper w + k * 2 ^ 32" using assms(1,3) by (simp add: snw_upper_eq)
  moreover have "(snw_upper w + k * 2 ^ 32 - (snw_lower w + 127)) mod 2 ^ 32 = 0" by (simp add: snw_upper_eq[OF assms(1)])
  moreover have "snw_upper w + k * 2 ^ 32 - (s + k * 2 ^ 32) = snw_lower w + 127 - s" by (simp add: snw_upper_eq[OF assms(1)])
  moreover have "bit (snw_window w) (snw_lower w + 127 - s)"
    using assms(4,6) by (simp add: snw_contains_iff[OF assms(1)])
  ultimately show ?thesis using snw_insert_beyond[OF assms(1) _ assms(2), of "s + k * 2 ^ 32"] assms(5) by simp
qed

theorem long_jump_false_duplicate_witness:
  "\<not> seen_before [5, 127 + 2 ^ 32] (5 + 2 ^ 32) \<and> snw_contains (win_run [5, 127 + 2 ^ 32]) (5 + 2 ^ 32)"
proof -
  have w: "snw_ok (win_run [5])" "snw_upper (win_run [5]) = 127" "snw_contains (win_run [5]) 5" "snw_lower (win_run [5]) = 0"
    using win_run_lower[of "[5]"] win_run_keeps[of "[5]" 5] snw_upper_eq[of "win_run [5]"] by (simp_all add: highest_def)
  have n: "(127::nat) + 2 ^ 32 = 4294967423" "(5::nat) + 2 ^ 32 = 4294967301" by simp_all
  have r: "win_run [5, 127 + 2 ^ 32] = snw_insert (win_run [5]) (snw_upper (win_run [5]) + 1 * 2 ^ 32)"
    unfolding w(2) by (simp only: win_run_def fold.simps o_apply id_apply mult_1)
  have "snw_contains (win_run [5, 127 + 2 ^ 32]) (5 + 1 * 2 ^ 32)" unfolding r
    by (rule long_jump_false_duplicate) (use w in simp_all)
  moreover have "\<not> seen_before [5, 127 + 2 ^ 32] (5 + 2 ^ 32)" unfolding n seen_before_def highest_def by simp
  ultimately show ?thesis by (simp only: mult_1 simp_thms)
qed

end
