(* ===== verification/Spec2Isabelle.thy ===== *)
theory Spec2Isabelle
  imports Stream_Net Packet Cid Seq_Window
begin

text \<open>
  A verification library for tquic, a QUIC implementation in Rust (sources under \<open>src/src\<close>). It
  covers the path of application data through a connection: the streams, their flow control and
  scheduling, the frames that carry them, the packets that carry the frames, and the tables of
  packet numbers and connection identifiers beside it. The endpoint, TLS, loss recovery,
  congestion control and HTTP/3 are around that path and not part of the library.

  \<^bold>\<open>The parts of the program and their theories.\<close>
  An application writes to and reads from the streams of a connection. The stream manager
  (\<open>StreamMap\<close>) finds or creates the stream, charges the connection's flow control and
  queues the stream. When a packet is filled, the connection takes streams from the queue and
  turns ranges of their send buffers into STREAM frames. The packet is protected and sent; the peer
  removes the protection, drops duplicates by packet number, decodes the frames and hands them
  to its stream manager, which reassembles the bytes. Acknowledged and lost frames go back to the
  send buffers.

  \<^item> \<open>Quic_Prelude\<close>: results of fallible calls (\<open>Ok\<close>, \<open>Err\<close>, \<open>Panic\<close>), the operator \<open>?\<close>
    (\<open>rbind\<close>, and \<open>attempt\<close> where state was changed before), and \<open>u64\<close> arithmetic on \<open>nat\<close> that panics
    (\<open>add64\<close>, \<open>sub64\<close>, \<open>mul64\<close>) or saturates as the source does. \<open>Quic_Error\<close>: \<open>error.rs\<close>.
  \<^item> \<open>Btree_Map\<close>: \<open>BTreeMap\<close> as the ascending list of its entries, against the contract
    \<open>ordered_map\<close>. \<open>Op_Machine\<close>: the contract of a component driven by operations, and its
    consequence for every sequence of operations.
  \<^item> \<open>Range_Set\<close>: \<open>ranges.rs\<close>. \<open>Flow_Control\<close>: \<open>connection/flowcontrol.rs\<close>. \<open>Event_Queue\<close>: the event queue
    of \<open>lib.rs\<close>. \<open>Seq_Window\<close>: \<open>window.rs\<close>. \<open>Cid\<close>: \<open>connection/cid.rs\<close>.
  \<^item> \<open>Range_Buf\<close>, \<open>Recv_Buf\<close>, \<open>Send_Buf\<close>: \<open>range_buf.rs\<close>, \<open>recv_buf.rs\<close> and \<open>send_buf.rs\<close> of
    \<open>connection/stream\<close>, the two halves of a stream. \<open>Concurrency\<close> and \<open>Stream_State\<close>:
    \<open>concurrency.rs\<close> and \<open>stream_state.rs\<close>. \<open>Stream_Map\<close>: every operation of \<open>StreamMap\<close> in
    \<open>connection/stream/mod.rs\<close>; \<open>Stream_Map_Inv\<close>: its invariant.
  \<^item> \<open>Codec\<close>: \<open>codec.rs\<close>. \<open>Frame\<close>: \<open>frame.rs\<close>. \<open>Packet\<close>: \<open>packet.rs\<close>, with the nonce, sealing and opening of
    \<open>tls/boringssl/crypto.rs\<close>.
  \<^item> \<open>Stream_Send\<close>: the stream frames of a packet, from \<open>connection/send.rs\<close>. \<open>Stream_Net\<close>: the arms of
    \<open>recv_frame\<close> and of the acknowledgement and loss handlers that concern streams
    (\<open>connection/recv.rs\<close>, \<open>connection/handshake.rs\<close>, \<open>connection/send.rs\<close>), and two connections with a
    network between them.

  \<^bold>\<open>How state and operations correspond.\<close>
  A struct is a \<open>record\<close> with a prefix per type (\<open>rv_\<close> for \<open>RecvBuf\<close>, \<open>sb_\<close> for \<open>SendBuf\<close>, \<open>st_\<close> for
  \<open>Stream\<close>, \<open>sm_\<close> for \<open>StreamMap\<close>, \<open>fc_\<close>, \<open>cc_\<close>, \<open>sc_\<close>, \<open>pq_\<close>, \<open>rs_\<close>, \<open>cq_\<close>, \<open>cm_\<close>, \<open>snw_\<close>, \<open>hdr_\<close>), an enum is a
  \<open>datatype\<close>, and a method is a definition of the same name behind the prefix. A method with
  \<open>&mut self\<close> returns the new state beside its result, and on an error the state as the
  code leaves it. A \<open>VecDeque\<close> or \<open>Vec\<close> is a list, a hash set a set, a byte an \<open>8 word\<close>, the packet number
  window a \<open>128 word\<close>, other machine integers \<open>nat\<close> with their overflow behaviour written out;
  an output buffer is the bytes written and the room left. In the codec and the
  decoders, reading or writing past the end of a buffer, slicing out of range and subtraction below zero
  are \<open>Panic\<close>, so that the theorems on them rest on the guards of the code; elsewhere a difference that a guard in the
  same definition keeps from going below zero may be one of \<open>nat\<close>, and offsets of stream chunks, which stay below
  \<open>2 ^ 62\<close>, are added on \<open>nat\<close>. Stream data is of any type in the
  stream theories and of bytes from \<open>Stream_Send\<close> on.

  \<^bold>\<open>What the lemmas show.\<close>
  \<^item> End to end (\<open>Stream_Net\<close>): in every run of two connections, with packets lost, repeated and
    reordered, each application reads a prefix of what the other wrote; limits are kept; a
    destroyed stream stays destroyed; filling a packet ends and leaves it full or the streams drained.
  \<^item> The receive side: reassembly of overlapping chunks is exact, complete and maximal, the final
    size is fixed. The send side: every frame carries the bytes written, nothing unacknowledged is
    dropped, a loss requeues exactly what is missing, and the loops end.
  \<^item> The stream manager: one invariant over all operations (sums of offsets against the
    connection's credit, queues against stream states), and the scheduling order.
  \<^item> Codec, frames and packets: decoding inverts encoding, announced lengths are exact, decoding arbitrary
    bytes never panics and an accepted packet header accounts for every byte consumed; packet numbers survive truncation, protection is inverted, nonces differ,
    a Retry is accepted by its addressee.
  \<^item> Range sets implement sets; the sliding window is equivalent to remembering every number; the
    identifier manager issues consecutive numbers and never holds one twice.
  \<^item> Some theorems state how the code falls short of its purpose: a stream length of 16384 overflows,
    a stream that was shut down for reading and carries more data does not complete without a reset, a retired
    identifier returns, a peer's stream misleads the number of our next one, and a long jump of the
    packet number leaves stale bits.

  \<^bold>\<open>Loops, bounds and parameters.\<close>
  Loops that need not end on every state are \<open>partial_function (option)\<close>: \<open>copy_range\<close>, \<open>sb_read_loop\<close>,
  \<open>stream_frames_loop\<close> and \<open>recv_payload\<close>; that they return is proved for the states that
  occur, and there is no fuel. The bounds in hypotheses are the protocol's: offsets, limits and packet numbers
  are below \<open>2 ^ 62\<close>. Code outside the sources is a parameter: the AEAD and the header
  protection mask (\<open>aead_key\<close>, with \<open>keys_match\<close> saying that opening inverts sealing), the Retry tag, random
  bytes, and the clock. In \<open>Stream_Net\<close> the outcome of the frame handlers that do not touch streams is a parameter too; packets have at
  most \<open>2 ^ 14\<close> bytes, the event queue is not enabled, and a connection that reported an error for a frame takes no further steps.

  \<^bold>\<open>Not modelled.\<close>
  \<^item> The rest of the connection (\<open>connection.rs\<close>, \<open>query.rs\<close>, and of \<open>send.rs\<close>, \<open>recv.rs\<close>, \<open>handshake.rs\<close> and \<open>space.rs\<close> what
    is not named above): it drives TLS, timers and paths.
  \<^item> Paths, timers, loss recovery, round-trip estimation and path MTU discovery; congestion control, whose
    controllers compute with floating point numbers; multipath scheduling, which reads their state.
  \<^item> TLS and key derivation: bindings to BoringSSL.
  \<^item> HTTP/3 and QPACK, transport parameters and tokens: layers beside the path of stream data.
  \<^item> The endpoint, the tokio adapter and the C interface: sockets, tasks and pointers; logging and the build script.
  \<^item> Within modelled files: formatting for logs, \<open>to_qlog\<close>, and the feature \<open>fuzzing\<close>.
\<close>

end
